(* ===== verification/Zv_Prelude.thy ===== *)
theory Zv_Prelude
  imports Main "HOL-Library.Word" "HOL-Library.Multiset" "HOL-Library.Char_ord"
    "HOL-Library.Monad_Syntax" "HOL-Library.Sublist"
begin

text \<open>
  Shared material of the Zaver development: the characters and return codes that the C sources
  name with macros (\<^verbatim>\<open>src/src/http_parse.h\<close>, \<^verbatim>\<open>src/src/error.h\<close>,
  \<^verbatim>\<open>src/src/http_request.h\<close>), the type synonyms of the machine model, the collections of
  facts that carry the component proofs, and generic lemmas on lists and options.

  Bytes are values of type \<^typ>\<open>char\<close> (eight bits, compared as unsigned). A C string is a
  \<^typ>\<open>string\<close> without its terminating zero byte unless a definition says otherwise. An address
  is a \<^typ>\<open>nat\<close>, and 0 is the null pointer.
\<close>

type_synonym addr = nat
type_synonym u32 = "32 word"
type_synonym u64 = "64 word"

named_theorems zv_frame \<open>what an operation leaves unchanged\<close>
named_theorems zv_inv \<open>operations keep an invariant\<close>
named_theorems zv_abs \<open>operations refine their abstract counterpart\<close>

section \<open>Constants\<close>

abbreviation (input) NULL :: addr where "NULL \<equiv> 0"

abbreviation CR :: char where "CR \<equiv> CHR 0x0D"
abbreviation LF :: char where "LF \<equiv> CHR 0x0A"
abbreviation TAB :: char where "TAB \<equiv> CHR 0x09"
abbreviation SP :: char where "SP \<equiv> CHR 0x20"

text \<open>\<^verbatim>\<open>src/src/error.h\<close>\<close>

definition ZV_OK :: int where "ZV_OK = 0"

text \<open>The value of a byte as C's \<^verbatim>\<open>unsigned char\<close> arithmetic sees it.\<close>

definition byte_val :: "char \<Rightarrow> nat" where
  "byte_val c = of_char c"

definition between :: "char \<Rightarrow> char \<Rightarrow> char \<Rightarrow> bool" where
  "between lo hi c \<longleftrightarrow> byte_val lo \<le> byte_val c \<and> byte_val c \<le> byte_val hi"

section \<open>Generic lemmas\<close>

lemma byte_val_less_256 [simp]: "byte_val c < 256"
  by (simp add: byte_val_def)

lemma byte_val_inj [simp]: "byte_val c = byte_val d \<longleftrightarrow> c = d"
  by (simp add: byte_val_def)

lemma bind_Some_iff: "(m \<bind> f = Some y) \<longleftrightarrow> (\<exists>x. m = Some x \<and> f x = Some y)"
  by (cases m) auto

lemma nth_take_drop: "i < length xs \<Longrightarrow> take i xs @ xs ! i # drop (Suc i) xs = xs"
  by (rule id_take_nth_drop [symmetric])

end
