(* ===== verification/Zv_List.thy ===== *)
theory Zv_List
  imports Zv_Prelude
begin

text \<open>
  The intrusive circular doubly linked list of \<^verbatim>\<open>src/src/list.h\<close>. A heap of list nodes holds
  one \<^verbatim>\<open>next\<close> and one \<^verbatim>\<open>prev\<close> pointer per node; every inline function of the header is a function
  from heap to heap, with its assignments in the order of the source. The abstraction
  \<open>wf_list h head xs\<close> says that from \<open>head\<close> the heap holds exactly the nodes \<open>xs\<close>, linked in both
  directions. The lemmas state what each operation does to the abstract list, and that it leaves
  every list over other nodes alone.
\<close>

section \<open>Nodes and operations\<close>

record 'n list_heap =
  nxt :: "'n \<Rightarrow> 'n"
  prv :: "'n \<Rightarrow> 'n"

definition set_nxt :: "'n \<Rightarrow> 'n \<Rightarrow> ('n, 'z) list_heap_scheme \<Rightarrow> ('n, 'z) list_heap_scheme" where
  "set_nxt p q h = h\<lparr>nxt := (nxt h)(p := q)\<rparr>"

definition set_prv :: "'n \<Rightarrow> 'n \<Rightarrow> ('n, 'z) list_heap_scheme \<Rightarrow> ('n, 'z) list_heap_scheme" where
  "set_prv p q h = h\<lparr>prv := (prv h)(p := q)\<rparr>"

definition INIT_LIST_HEAD :: "'n \<Rightarrow> ('n, 'z) list_heap_scheme \<Rightarrow> ('n, 'z) list_heap_scheme" where
  "INIT_LIST_HEAD p h = set_prv p p (set_nxt p p h)"

text \<open>\<^verbatim>\<open>__list_add\<close>\<close>

definition list_add_between ::
  "'n \<Rightarrow> 'n \<Rightarrow> 'n \<Rightarrow> ('n, 'z) list_heap_scheme \<Rightarrow> ('n, 'z) list_heap_scheme" where
  "list_add_between new p n h =
     (let h1 = set_nxt new n h;
          h2 = set_prv n new h1;
          h3 = set_nxt p new h2
      in set_prv new p h3)"

definition list_add :: "'n \<Rightarrow> 'n \<Rightarrow> ('n, 'z) list_heap_scheme \<Rightarrow> ('n, 'z) list_heap_scheme" where
  "list_add new head h = list_add_between new head (nxt h head) h"

definition list_add_tail :: "'n \<Rightarrow> 'n \<Rightarrow> ('n, 'z) list_heap_scheme \<Rightarrow> ('n, 'z) list_heap_scheme" where
  "list_add_tail new head h = list_add_between new (prv h head) head h"

text \<open>\<^verbatim>\<open>__list_del\<close>\<close>

definition list_del_between ::
  "'n \<Rightarrow> 'n \<Rightarrow> ('n, 'z) list_heap_scheme \<Rightarrow> ('n, 'z) list_heap_scheme" where
  "list_del_between p n h = set_prv n p (set_nxt p n h)"

definition list_del :: "'n \<Rightarrow> ('n, 'z) list_heap_scheme \<Rightarrow> ('n, 'z) list_heap_scheme" where
  "list_del entry h = list_del_between (prv h entry) (nxt h entry) h"

definition list_empty :: "'n \<Rightarrow> ('n, 'z) list_heap_scheme \<Rightarrow> bool" where
  "list_empty head h \<longleftrightarrow> nxt h head = head \<and> prv h head = head"

text \<open>
  The macros \<^verbatim>\<open>list_for_each\<close> and \<^verbatim>\<open>list_for_each_prev\<close>: the positions visited from \<open>pos\<close> until
  the loop meets \<open>head\<close>. On a damaged list the loop may not end, which is the value \<^const>\<open>None\<close>.
\<close>

partial_function (option) list_for_each ::
  "'n \<Rightarrow> 'n \<Rightarrow> ('n, 'z) list_heap_scheme \<Rightarrow> 'n list option" where
  "list_for_each pos head h =
     (if pos = head then Some []
      else do { ps \<leftarrow> list_for_each (nxt h pos) head h; Some (pos # ps) })"

partial_function (option) list_for_each_prev ::
  "'n \<Rightarrow> 'n \<Rightarrow> ('n, 'z) list_heap_scheme \<Rightarrow> 'n list option" where
  "list_for_each_prev pos head h =
     (if pos = head then Some []
      else do { ps \<leftarrow> list_for_each_prev (prv h pos) head h; Some (pos # ps) })"

section \<open>The abstract list\<close>

text \<open>\<open>dseg h a xs b\<close>: following \<open>nxt\<close> from \<open>a\<close> visits \<open>xs\<close> and then \<open>b\<close>, and \<open>prv\<close> leads back.\<close>

fun dseg :: "('n, 'z) list_heap_scheme \<Rightarrow> 'n \<Rightarrow> 'n list \<Rightarrow> 'n \<Rightarrow> bool" where
  "dseg h a [] b \<longleftrightarrow> nxt h a = b \<and> prv h b = a"
| "dseg h a (x # xs) b \<longleftrightarrow> nxt h a = x \<and> prv h x = a \<and> dseg h x xs b"

definition wf_list :: "('n, 'z) list_heap_scheme \<Rightarrow> 'n \<Rightarrow> 'n list \<Rightarrow> bool" where
  "wf_list h head xs \<longleftrightarrow> dseg h head xs head \<and> distinct (head # xs)"

lemmas list_ops_defs =
  INIT_LIST_HEAD_def list_add_def list_add_tail_def list_add_between_def
  list_del_def list_del_between_def list_empty_def set_nxt_def set_prv_def Let_def

section \<open>Segments\<close>

lemma dseg_append: "dseg h a (xs @ y # ys) b \<longleftrightarrow> dseg h a xs y \<and> dseg h y ys b"
  by (induction xs arbitrary: a) auto

lemma dseg_cong:
  assumes "dseg h a xs b"
    and "\<And>p. p \<in> insert a (set xs) \<Longrightarrow> nxt h' p = nxt h p"
    and "\<And>p. p \<in> insert b (set xs) \<Longrightarrow> prv h' p = prv h p"
  shows "dseg h' a xs b"
  using assms by (induction xs arbitrary: a) auto

lemma wf_list_cong:
  assumes "wf_list h head xs"
    and "\<And>p. p \<in> set (head # xs) \<Longrightarrow> nxt h' p = nxt h p \<and> prv h' p = prv h p"
  shows "wf_list h' head xs"
  using assms unfolding wf_list_def by (auto intro: dseg_cong [of h])

lemma dseg_last: "dseg h a xs b \<Longrightarrow> prv h b = (if xs = [] then a else last xs)"
  by (induction xs arbitrary: a) auto

lemma dseg_first: "dseg h a xs b \<Longrightarrow> nxt h a = (if xs = [] then b else hd xs)"
  by (cases xs) auto

lemma wf_list_nxt_head: "wf_list h head xs \<Longrightarrow> nxt h head = (if xs = [] then head else hd xs)"
  unfolding wf_list_def by (auto dest: dseg_first)

lemma wf_list_prv_head: "wf_list h head xs \<Longrightarrow> prv h head = (if xs = [] then head else last xs)"
  unfolding wf_list_def by (auto dest: dseg_last)

text \<open>
  Inserting between two neighbours: the segment up to \<open>p\<close> and the segment from \<open>n\<close> are kept, and
  the new node stands between them.
\<close>

lemma list_add_between_fields:
  assumes "new \<noteq> p" and "new \<noteq> n"
  shows "nxt (list_add_between new p n h) = (nxt h)(new := n, p := new)"
    and "prv (list_add_between new p n h) = (prv h)(n := new, new := p)"
  using assms by (auto simp: list_ops_defs)

lemma list_del_fields:
  "nxt (list_del e h) = (nxt h)(prv h e := nxt h e)"
  "prv (list_del e h) = (prv h)(nxt h e := prv h e)"
  by (auto simp: list_ops_defs)

section \<open>What the operations do to the abstract list\<close>

lemma INIT_LIST_HEAD_wf [zv_abs]: "wf_list (INIT_LIST_HEAD p h) p []"
  by (simp add: wf_list_def list_ops_defs)

lemma list_empty_wf [zv_abs]: "wf_list h head xs \<Longrightarrow> list_empty head h \<longleftrightarrow> xs = []"
  by (cases xs) (auto simp: wf_list_def list_empty_def)

lemma list_add_wf [zv_abs]:
  assumes "wf_list h head xs" and "new \<notin> set (head # xs)"
  shows "wf_list (list_add new head h) head (new # xs)"
proof (cases xs)
  case Nil
  with assms show ?thesis by (auto simp: wf_list_def list_ops_defs)
next
  case (Cons y ys)
  with assms have d: "distinct (new # head # y # ys)" and nh: "nxt h head = y"
    and seg: "dseg h y ys head"
    by (auto simp: wf_list_def)
  have f: "nxt (list_add new head h) = (nxt h)(new := y, head := new)"
    "prv (list_add new head h) = (prv h)(y := new, new := head)"
    using d nh list_add_between_fields [of new head y h] by (auto simp: list_add_def)
  have "dseg (list_add new head h) y ys head"
    using seg by (rule dseg_cong) (use d f in auto)
  with d f Cons show ?thesis by (auto simp: wf_list_def)
qed

lemma list_add_tail_wf [zv_abs]:
  assumes "wf_list h head xs" and "new \<notin> set (head # xs)"
  shows "wf_list (list_add_tail new head h) head (xs @ [new])"
proof (cases xs rule: rev_cases)
  case Nil
  with assms show ?thesis by (auto simp: wf_list_def list_ops_defs)
next
  case (snoc ys y)
  with assms have d: "distinct (new # head # y # ys)" and ph: "prv h head = y"
    and seg: "dseg h head ys y"
    by (auto simp: wf_list_def dseg_append)
  have f: "nxt (list_add_tail new head h) = (nxt h)(new := head, y := new)"
    "prv (list_add_tail new head h) = (prv h)(head := new, new := y)"
    using d ph list_add_between_fields [of new y head h] by (auto simp: list_add_tail_def)
  have "dseg (list_add_tail new head h) head ys y"
    using seg by (rule dseg_cong) (use d f in auto)
  with d f snoc show ?thesis by (auto simp: wf_list_def dseg_append)
qed

text \<open>Unlinking joins the two segments around the entry.\<close>

lemma dseg_unlink_left:
  assumes "dseg h a xs e" and "distinct (a # xs)" and "n \<notin> set xs" and "e \<notin> set (n # xs)"
    and "nxt h' = (nxt h)(last (a # xs) := n)" and "prv h' = (prv h)(n := last (a # xs))"
  shows "dseg h' a xs n"
proof (cases xs rule: rev_cases)
  case Nil
  with assms show ?thesis by simp
next
  case (snoc ys y)
  with assms(1) have seg: "dseg h a ys y" by (simp add: dseg_append)
  have "dseg h' a ys y"
    using seg by (rule dseg_cong) (use assms snoc in auto)
  with assms snoc show ?thesis by (simp add: dseg_append)
qed

lemma list_del_wf [zv_abs]:
  assumes "wf_list h head (as @ e # bs)"
  shows "wf_list (list_del e h) head (as @ bs)"
proof -
  from assms have d: "distinct (head # e # as @ bs)" and l: "dseg h head as e"
    and r: "dseg h e bs head"
    by (auto simp: wf_list_def dseg_append)
  have pe: "prv h e = last (head # as)" and ne: "nxt h e = hd (bs @ [head])"
    using dseg_last [OF l] dseg_first [OF r] by (auto simp: hd_append)
  note f = list_del_fields [of e h, unfolded pe ne]
  show ?thesis
  proof (cases bs)
    case Nil
    have "dseg (list_del e h) head as head"
      by (rule dseg_unlink_left [OF l]) (use d f Nil in auto)
    with d Nil show ?thesis by (auto simp: wf_list_def)
  next
    case (Cons b bs')
    have "dseg (list_del e h) head as b"
      by (rule dseg_unlink_left [OF l]) (use d f Cons in auto)
    moreover have "dseg (list_del e h) b bs' head"
      by (rule dseg_cong [of h]) (use d f Cons r in \<open>auto dest: last_in_set\<close>)
    ultimately show ?thesis using d Cons by (auto simp: wf_list_def dseg_append)
  qed
qed

corollary list_del_wf_remove1:
  assumes "wf_list h head xs" and "e \<in> set xs"
  shows "wf_list (list_del e h) head (remove1 e xs)"
proof -
  from assms(2) obtain as bs where xs: "xs = as @ e # bs" and "e \<notin> set as"
    using split_list_first by metis
  with assms(1) show ?thesis
    using list_del_wf [of h head as e bs] by (simp add: remove1_append)
qed

section \<open>Frames: lists over other nodes\<close>

lemma INIT_LIST_HEAD_frame [zv_frame]:
  "wf_list h l ys \<Longrightarrow> p \<notin> set (l # ys) \<Longrightarrow> wf_list (INIT_LIST_HEAD p h) l ys"
  by (erule wf_list_cong) (auto simp: list_ops_defs)

lemma list_add_frame [zv_frame]:
  assumes "wf_list h l ys" and "wf_list h head xs" and "set (l # ys) \<inter> set (new # head # xs) = {}"
  shows "wf_list (list_add new head h) l ys"
proof (rule wf_list_cong [OF assms(1)])
  fix p assume "p \<in> set (l # ys)"
  with assms(3) have "p \<notin> set (new # head # xs)" by blast
  with wf_list_nxt_head [OF assms(2)]
  show "nxt (list_add new head h) p = nxt h p \<and> prv (list_add new head h) p = prv h p"
    by (cases xs) (auto simp: list_ops_defs)
qed

lemma list_del_frame [zv_frame]:
  assumes "wf_list h l ys" and "wf_list h head (as @ e # bs)"
    and "set (l # ys) \<inter> set (head # as @ e # bs) = {}"
  shows "wf_list (list_del e h) l ys"
proof (rule wf_list_cong [OF assms(1)])
  fix p assume "p \<in> set (l # ys)"
  with assms(3) have p: "p \<notin> set (head # as @ e # bs)" by blast
  from assms(2) have "prv h e = last (head # as)" "nxt h e = hd (bs @ [head])"
    unfolding wf_list_def dseg_append by (auto dest: dseg_last dseg_first simp: hd_append)
  then have "prv h e \<in> set (head # as)" "nxt h e \<in> set (bs @ [head])"
    by (metis last_in_set list.distinct(1), metis hd_in_set snoc_eq_iff_butlast)
  with p show "nxt (list_del e h) p = nxt h p \<and> prv (list_del e h) p = prv h p"
    by (auto simp: list_del_fields)
qed

section \<open>Traversal\<close>

lemma list_for_each_seg:
  "dseg h a xs head \<Longrightarrow> head \<notin> set xs \<Longrightarrow> list_for_each (nxt h a) head h = Some xs"
proof (induction xs arbitrary: a)
  case Nil
  then show ?case by (simp add: list_for_each.simps)
next
  case (Cons x xs)
  then have "list_for_each (nxt h x) head h = Some xs" by auto
  with Cons.prems show ?case by (subst list_for_each.simps) auto
qed

lemma list_for_each_prev_seg:
  "dseg h head xs b \<Longrightarrow> head \<notin> set xs \<Longrightarrow> list_for_each_prev (prv h b) head h = Some (rev xs)"
proof (induction xs arbitrary: b rule: rev_induct)
  case Nil
  then show ?case by (simp add: list_for_each_prev.simps)
next
  case (snoc x xs)
  then have "list_for_each_prev (prv h x) head h = Some (rev xs)" by (auto simp: dseg_append)
  with snoc.prems show ?case by (subst list_for_each_prev.simps) (auto simp: dseg_append)
qed

lemma list_for_each_wf [zv_abs]: "wf_list h head xs \<Longrightarrow> list_for_each (nxt h head) head h = Some xs"
  unfolding wf_list_def by (auto intro: list_for_each_seg)

lemma list_for_each_prev_wf [zv_abs]:
  "wf_list h head xs \<Longrightarrow> list_for_each_prev (prv h head) head h = Some (rev xs)"
  unfolding wf_list_def by (auto intro: list_for_each_prev_seg)

lemma wf_list_unique: "wf_list h head xs \<Longrightarrow> wf_list h head ys \<Longrightarrow> xs = ys"
  by (drule list_for_each_wf)+ simp

section \<open>The interface of a free list\<close>

text \<open>
  What the two object caches use of a list: nodes are initialised and pushed at the head, the first
  node is read and unlinked, and emptiness is tested. The laws are stated against the abstract list.
\<close>

locale free_list =
  fixes push :: "'n \<Rightarrow> 'h \<Rightarrow> 'h"
    and first :: "'h \<Rightarrow> 'n"
    and unlink :: "'n \<Rightarrow> 'h \<Rightarrow> 'h"
    and is_empty :: "'h \<Rightarrow> bool"
    and content :: "'h \<Rightarrow> 'n list \<Rightarrow> bool"
    and head :: 'n
  assumes empty_iff: "content h xs \<Longrightarrow> is_empty h \<longleftrightarrow> xs = []"
    and first_hd: "content h (x # xs) \<Longrightarrow> first h = x"
    and unlink_hd: "content h (x # xs) \<Longrightarrow> content (unlink x h) xs"
    and push_new: "content h xs \<Longrightarrow> n \<noteq> head \<Longrightarrow> n \<notin> set xs \<Longrightarrow> content (push n h) (n # xs)"
    and content_distinct: "content h xs \<Longrightarrow> distinct (head # xs)"
begin

text \<open>The free list is last in, first out: what was pushed last is taken first.\<close>

lemma pop_push:
  assumes "content h xs" and "n \<noteq> head" and "n \<notin> set xs"
  shows "first (push n h) = n" and "content (unlink n (push n h)) xs" and "\<not> is_empty (push n h)"
  using push_new [OF assms] first_hd unlink_hd empty_iff by auto

lemma first_not_in_rest: "content h (x # xs) \<Longrightarrow> x \<notin> set xs \<and> x \<noteq> head"
  using content_distinct by fastforce

end

lemma push_wf:
  assumes "wf_list h head xs" and "n \<notin> set (head # xs)"
  shows "wf_list (list_add n head (INIT_LIST_HEAD n h)) head (n # xs)"
  using assms by (intro list_add_wf INIT_LIST_HEAD_frame)

interpretation fl: free_list "\<lambda>n h. list_add n head (INIT_LIST_HEAD n h)" "\<lambda>h. nxt h head" list_del
  "list_empty head" "\<lambda>h xs. wf_list h head xs" head
  for head
proof (unfold_locales, goal_cases)
  case (1 h xs)
  then show ?case by (rule list_empty_wf)
next
  case (2 h x xs)
  then show ?case by (simp add: wf_list_nxt_head)
next
  case (3 h x xs)
  then show ?case using list_del_wf [of h head "[]" x xs] by simp
next
  case (4 h xs n)
  then show ?case by (intro push_wf) auto
next
  case (5 h xs)
  then show ?case by (simp add: wf_list_def)
qed

section \<open>Properties\<close>

text \<open>
  C17. The inline functions of \<^verbatim>\<open>list.h\<close> implement list operations: on a well-formed circular list,
  adding a fresh node prepends (or appends) it, deleting a member removes exactly it, the emptiness
  test is right, and the two traversal macros end and visit the members in order and in reverse.
\<close>

theorem list_ops_refine:
  assumes "wf_list h head xs" and "new \<notin> set (head # xs)"
  shows "wf_list (list_add new head h) head (new # xs) \<and>
         wf_list (list_add_tail new head h) head (xs @ [new]) \<and>
         (\<forall>e \<in> set xs. wf_list (list_del e h) head (remove1 e xs)) \<and>
         (list_empty head h \<longleftrightarrow> xs = []) \<and>
         list_for_each (nxt h head) head h = Some xs \<and>
         list_for_each_prev (prv h head) head h = Some (rev xs)"
  using assms by (simp add: zv_abs list_del_wf_remove1)

definition list_example :: "nat list_heap" where
  "list_example = list_add_tail 2 0 (list_add_tail 1 0 (INIT_LIST_HEAD 0 \<lparr>nxt = id, prv = id\<rparr>))"

lemma list_example_wf: "wf_list list_example 0 [1, 2]"
proof -
  have "wf_list (INIT_LIST_HEAD 0 \<lparr>nxt = id, prv = id\<rparr>) (0::nat) []" by (rule INIT_LIST_HEAD_wf)
  then have "wf_list (list_add_tail 1 0 (INIT_LIST_HEAD 0 \<lparr>nxt = id, prv = id\<rparr>)) (0::nat) ([] @ [1])"
    by (rule list_add_tail_wf) simp
  then have "wf_list list_example 0 (([] @ [1]) @ [2])"
    unfolding list_example_def by (rule list_add_tail_wf) simp
  then show ?thesis by simp
qed

theorem list_ops_refine_witness:
  "wf_list (list_add 7 0 list_example) 0 [7, 1, 2] \<and> wf_list (list_del 1 list_example) 0 [2] \<and>
   list_for_each_prev (prv list_example 0) 0 list_example = Some [2, 1]"
  using list_ops_refine [OF list_example_wf, of 7] by simp

end
