(* ===== verification/Zv_Priority_Queue.thy ===== *)
theory Zv_Priority_Queue
  imports Zv_Prelude
begin

text \<open>
  The array-based binary heap of \<^verbatim>\<open>src/src/priority_queue.c\<close>: elements live in the slots
  1 to \<open>nalloc\<close> of a heap-allocated array, slot 0 is never used, and the array is doubled when it
  is full and halved when it is a quarter full. Each function of the file is a definition here.
  A comparator is a function pointer that reads the memory its arguments point to, so it takes
  that memory (type \<open>'m\<close>) as an argument. The result of the one \<^verbatim>\<open>malloc\<close> that an operation
  may do is the Boolean argument \<open>ok\<close>; memory it returns holds the unspecified value
  \<^const>\<open>undefined\<close>. Lengths are natural numbers.

  The lemmas show that every operation keeps the heap order and the array bounds, what it does to
  the multiset of elements, and when it fails.
\<close>

section \<open>Data and operations\<close>

record ('m, 'a) zv_pq =
  pq_arr :: "'a list"
  pq_nalloc :: nat
  pq_size :: nat
  pq_comp :: "'m \<Rightarrow> 'a \<Rightarrow> 'a \<Rightarrow> bool"

definition ZV_PQ_DEFAULT_SIZE :: nat where "ZV_PQ_DEFAULT_SIZE = 10"

definition zv_pq_init ::
  "bool \<Rightarrow> ('m, 'a) zv_pq \<Rightarrow> ('m \<Rightarrow> 'a \<Rightarrow> 'a \<Rightarrow> bool) \<Rightarrow> nat \<Rightarrow> int \<times> ('m, 'a) zv_pq" where
  "zv_pq_init ok q cmp sz =
     (if \<not> ok then (-1, q\<lparr>pq_arr := []\<rparr>)
      else (ZV_OK, q\<lparr>pq_arr := replicate (sz + 1) undefined, pq_nalloc := 0, pq_size := sz + 1, pq_comp := cmp\<rparr>))"

definition zv_pq_is_empty :: "('m, 'a) zv_pq \<Rightarrow> bool" where
  "zv_pq_is_empty q \<longleftrightarrow> pq_nalloc q = 0"

definition zv_pq_size :: "('m, 'a) zv_pq \<Rightarrow> nat" where
  "zv_pq_size q = pq_nalloc q"

definition zv_pq_min :: "('m, 'a) zv_pq \<Rightarrow> 'a option" where
  "zv_pq_min q = (if zv_pq_is_empty q then None else Some (pq_arr q ! 1))"

definition resize :: "bool \<Rightarrow> ('m, 'a) zv_pq \<Rightarrow> nat \<Rightarrow> int \<times> ('m, 'a) zv_pq" where
  "resize ok q new_size =
     (if new_size \<le> pq_nalloc q then (-1, q)
      else if \<not> ok then (-1, q)
      else (ZV_OK, q\<lparr>pq_arr := take (pq_nalloc q + 1) (pq_arr q)
                       @ replicate (new_size - (pq_nalloc q + 1)) undefined,
                    pq_size := new_size\<rparr>))"

definition exch :: "('m, 'a) zv_pq \<Rightarrow> nat \<Rightarrow> nat \<Rightarrow> ('m, 'a) zv_pq" where
  "exch q i j = q\<lparr>pq_arr := (pq_arr q)[i := pq_arr q ! j, j := pq_arr q ! i]\<rparr>"

function swim :: "'m \<Rightarrow> ('m, 'a) zv_pq \<Rightarrow> nat \<Rightarrow> ('m, 'a) zv_pq" where
  "swim m q k =
     (if k > 1 \<and> pq_comp q m (pq_arr q ! k) (pq_arr q ! (k div 2))
      then swim m (exch q k (k div 2)) (k div 2)
      else q)"
  by pat_completeness auto
termination
  by (relation "measure (\<lambda>(m, q, k). k)") auto

text \<open>
  The loop of \<^verbatim>\<open>sink\<close> reads the slot \<open>k\<close>, which holds an element only for \<open>k \<ge> 1\<close>: the guard
  \<open>1 \<le> k\<close> leaves out the call on the slot 0, whose contents the program never writes.
\<close>

definition sink_child :: "'m \<Rightarrow> ('m, 'a) zv_pq \<Rightarrow> nat \<Rightarrow> nat" where
  "sink_child m q k =
     (if 2 * k < pq_nalloc q \<and> pq_comp q m (pq_arr q ! (2 * k + 1)) (pq_arr q ! (2 * k))
      then 2 * k + 1 else 2 * k)"

function sink :: "'m \<Rightarrow> ('m, 'a) zv_pq \<Rightarrow> nat \<Rightarrow> ('m, 'a) zv_pq \<times> nat" where
  "sink m q k =
     (if 1 \<le> k \<and> 2 * k \<le> pq_nalloc q then
        (let j = sink_child m q k
         in if \<not> pq_comp q m (pq_arr q ! j) (pq_arr q ! k) then (q, k)
            else sink m (exch q j k) j)
      else (q, k))"
  by pat_completeness auto
termination
  by (relation "measure (\<lambda>(m, q, k). pq_nalloc q - k)") (auto simp: exch_def sink_child_def)

declare swim.simps [simp del] sink.simps [simp del]

definition zv_pq_delmin :: "bool \<Rightarrow> 'm \<Rightarrow> ('m, 'a) zv_pq \<Rightarrow> int \<times> ('m, 'a) zv_pq" where
  "zv_pq_delmin ok m q =
     (if zv_pq_is_empty q then (ZV_OK, q)
      else
        let q1 = exch q 1 (pq_nalloc q);
            q2 = q1\<lparr>pq_nalloc := pq_nalloc q1 - 1\<rparr>;
            q3 = fst (sink m q2 1)
        in if pq_nalloc q3 > 0 \<and> pq_nalloc q3 \<le> (pq_size q3 - 1) div 4
           then (case resize ok q3 (pq_size q3 div 2) of
                   (rc, q4) \<Rightarrow> if rc < 0 then (-1, q4) else (ZV_OK, q4))
           else (ZV_OK, q3))"

definition zv_pq_insert :: "bool \<Rightarrow> 'm \<Rightarrow> ('m, 'a) zv_pq \<Rightarrow> 'a \<Rightarrow> int \<times> ('m, 'a) zv_pq" where
  "zv_pq_insert ok m q item =
     (case (if pq_nalloc q + 1 = pq_size q then resize ok q (pq_size q * 2) else (ZV_OK, q)) of
        (rc, q1) \<Rightarrow>
          if rc < 0 then (-1, q1)
          else
            let q2 = q1\<lparr>pq_nalloc := pq_nalloc q1 + 1, pq_arr := (pq_arr q1)[pq_nalloc q1 + 1 := item]\<rparr>
            in (ZV_OK, swim m q2 (pq_nalloc q2)))"

definition zv_pq_sink :: "'m \<Rightarrow> ('m, 'a) zv_pq \<Rightarrow> nat \<Rightarrow> nat \<times> ('m, 'a) zv_pq" where
  "zv_pq_sink m q i = (case sink m q i of (q', k) \<Rightarrow> (k, q'))"

section \<open>The invariant and the abstract contents\<close>

text \<open>Memory safety: the array has the recorded size and a free slot 0.\<close>

definition pq_bounds :: "('m, 'a) zv_pq \<Rightarrow> bool" where
  "pq_bounds q \<longleftrightarrow> length (pq_arr q) = pq_size q \<and> pq_nalloc q < pq_size q"

definition heap_ok :: "('a \<Rightarrow> 'a \<Rightarrow> bool) \<Rightarrow> 'a list \<Rightarrow> nat \<Rightarrow> bool" where
  "heap_ok lt a n \<longleftrightarrow> (\<forall>i. 2 \<le> i \<and> i \<le> n \<longrightarrow> \<not> lt (a ! i) (a ! (i div 2)))"

definition pq_inv :: "'m \<Rightarrow> ('m, 'a) zv_pq \<Rightarrow> bool" where
  "pq_inv m q \<longleftrightarrow> pq_bounds q \<and> heap_ok (pq_comp q m) (pq_arr q) (pq_nalloc q)"

definition pq_items :: "('m, 'a) zv_pq \<Rightarrow> 'a multiset" where
  "pq_items q = mset (take (pq_nalloc q) (drop 1 (pq_arr q)))"

text \<open>The heap order broken at one place, upwards (for \<^const>\<open>swim\<close>) or downwards (for \<^const>\<open>sink\<close>).\<close>

definition heap_up :: "('a \<Rightarrow> 'a \<Rightarrow> bool) \<Rightarrow> 'a list \<Rightarrow> nat \<Rightarrow> nat \<Rightarrow> bool" where
  "heap_up lt a n k \<longleftrightarrow>
     (\<forall>i. 2 \<le> i \<and> i \<le> n \<and> i \<noteq> k \<longrightarrow> \<not> lt (a ! i) (a ! (i div 2))) \<and>
     (\<forall>i. 2 \<le> i \<and> i \<le> n \<and> i div 2 = k \<and> 2 \<le> k \<longrightarrow> \<not> lt (a ! i) (a ! (k div 2)))"

definition heap_down :: "('a \<Rightarrow> 'a \<Rightarrow> bool) \<Rightarrow> 'a list \<Rightarrow> nat \<Rightarrow> nat \<Rightarrow> bool" where
  "heap_down lt a n k \<longleftrightarrow>
     (\<forall>i. 2 \<le> i \<and> i \<le> n \<and> i div 2 \<noteq> k \<longrightarrow> \<not> lt (a ! i) (a ! (i div 2))) \<and>
     (\<forall>i. 2 \<le> i \<and> i \<le> n \<and> i div 2 = k \<and> 2 \<le> k \<longrightarrow> \<not> lt (a ! i) (a ! (k div 2)))"

text \<open>The contract of a comparator: a strict weak order.\<close>

locale strict_weak =
  fixes lt :: "'a \<Rightarrow> 'a \<Rightarrow> bool"
  assumes asym: "lt x y \<Longrightarrow> \<not> lt y x"
    and ntrans: "\<not> lt x y \<Longrightarrow> \<not> lt y z \<Longrightarrow> \<not> lt x z"
begin

lemma irrefl: "\<not> lt x x"
  using asym by blast

lemma heap_up_step:
  assumes "heap_up lt a n k" and "1 < k" and "k \<le> n" and "n < length a" and "lt (a ! k) (a ! (k div 2))"
  shows "heap_up lt (a[k := a ! (k div 2), k div 2 := a ! k]) n (k div 2)"
proof -
  define p where "p = k div 2"
  have p: "1 \<le> p" "p < k" using assms(2) by (auto simp: p_def)
  let ?b = "a[k := a ! p, p := a ! k]"
  have b: "?b ! i = (if i = p then a ! k else if i = k then a ! p else a ! i)" if "i \<le> n" for i
    using that assms(3,4) p by (auto simp: nth_list_update)
  have up: "\<not> lt (a ! i) (a ! (i div 2))" if "2 \<le> i" "i \<le> n" "i \<noteq> k" for i
    using assms(1) that by (auto simp: heap_up_def)
  have child: "\<not> lt (a ! i) (a ! p)" if "2 \<le> i" "i \<le> n" "i div 2 = k" for i
    using assms(1,2) that by (auto simp: heap_up_def p_def)
  have kp: "\<not> lt (a ! p) (a ! k)" using assms(5) asym p_def by blast
  have one: "\<not> lt (?b ! i) (?b ! (i div 2))" if i: "2 \<le> i" "i \<le> n" "i \<noteq> p" for i
  proof -
    have "i div 2 \<le> n" "i div 2 \<noteq> i" using i by auto
    consider "i = k" | "i \<noteq> k" "i div 2 = k" | "i \<noteq> k" "i div 2 = p" | "i \<noteq> k" "i div 2 \<noteq> k" "i div 2 \<noteq> p"
      by blast
    then show ?thesis
    proof cases
      case 1
      then show ?thesis using b [of k] b [of p] p assms(3) kp by (auto simp: p_def [symmetric])
    next
      case 2
      then show ?thesis using i p assms(3) b [of i] b [of k] child by auto
    next
      case 3
      moreover from this have "\<not> lt (a ! i) (a ! k)" using i up [of i] kp ntrans by blast
      ultimately show ?thesis using i p assms(3) b [of i] b [of p] by auto
    next
      case 4
      then show ?thesis using i b [of i] b [of "i div 2"] \<open>i div 2 \<le> n\<close> up [of i] by auto
    qed
  qed
  have two: "\<not> lt (?b ! i) (?b ! (p div 2))" if i: "2 \<le> i" "i \<le> n" "i div 2 = p" "2 \<le> p" for i
  proof -
    have pp: "?b ! (p div 2) = a ! (p div 2)" and p2: "\<not> lt (a ! p) (a ! (p div 2))"
      using i p assms(3) b [of "p div 2"] up [of p] by auto
    have "i \<noteq> k \<Longrightarrow> \<not> lt (a ! i) (a ! (p div 2))" using i up [of i] p2 ntrans by blast
    then show ?thesis using i p pp p2 b [of i] by (cases "i = k") auto
  qed
  show ?thesis using one two by (auto simp: heap_up_def p_def)
qed

lemma heap_up_done:
  "heap_up lt a n k \<Longrightarrow> \<not> (k > 1 \<and> lt (a ! k) (a ! (k div 2))) \<Longrightarrow> heap_ok lt a n"
  by (force simp: heap_up_def heap_ok_def)

lemma heap_down_step:
  assumes "heap_down lt a n k" and "1 \<le> k" and "j = 2 * k \<or> j = 2 * k + 1" and "j \<le> n" and "n < length a"
    and "lt (a ! j) (a ! k)" and least: "\<And>i. i div 2 = k \<Longrightarrow> 2 \<le> i \<Longrightarrow> i \<le> n \<Longrightarrow> \<not> lt (a ! i) (a ! j)"
  shows "heap_down lt (a[j := a ! k, k := a ! j]) n j"
proof -
  have j: "k < j" "j div 2 = k" using assms(2,3) by auto
  let ?b = "a[j := a ! k, k := a ! j]"
  have b: "?b ! i = (if i = k then a ! j else if i = j then a ! k else a ! i)" if "i \<le> n" for i
    using that assms(4,5) j by (auto simp: nth_list_update)
  have down: "\<not> lt (a ! i) (a ! (i div 2))" if "2 \<le> i" "i \<le> n" "i div 2 \<noteq> k" for i
    using assms(1) that by (auto simp: heap_down_def)
  have gp: "\<not> lt (a ! i) (a ! (k div 2))" if "2 \<le> i" "i \<le> n" "i div 2 = k" "2 \<le> k" for i
    using assms(1) that by (auto simp: heap_down_def)
  have kj: "\<not> lt (a ! k) (a ! j)" using assms(6) asym by blast
  have one: "\<not> lt (?b ! i) (?b ! (i div 2))" if i: "2 \<le> i" "i \<le> n" "i div 2 \<noteq> j" for i
  proof (cases "i div 2 = k")
    case True
    then show ?thesis
      using i j assms(4) b [of i] b [of k] least [of i] kj by (cases "i = j") auto
  next
    case False
    have "i div 2 \<le> n" "i \<noteq> j" using i j False by auto
    moreover have "i = k \<Longrightarrow> \<not> lt (a ! j) (a ! (k div 2))"
      using gp [of j] i j assms(2,4) by auto
    ultimately show ?thesis
      using i j False b [of i] b [of "i div 2"] down [of i] by auto
  qed
  have two: "\<not> lt (?b ! i) (?b ! (j div 2))" if i: "2 \<le> i" "i \<le> n" "i div 2 = j" "2 \<le> j" for i
    using i j assms(2,4) b [of i] b [of k] down [of i] by auto
  show ?thesis using one two by (auto simp: heap_down_def)
qed

lemma heap_down_done:
  assumes "heap_down lt a n k" and "\<And>i. i div 2 = k \<Longrightarrow> 2 \<le> i \<Longrightarrow> i \<le> n \<Longrightarrow> \<not> lt (a ! i) (a ! k)"
  shows "heap_ok lt a n"
  using assms by (auto simp: heap_down_def heap_ok_def)

text \<open>In a heap no element precedes the root.\<close>

lemma heap_root:
  "heap_ok lt a n \<Longrightarrow> 1 \<le> i \<Longrightarrow> i \<le> n \<Longrightarrow> \<not> lt (a ! i) (a ! 1)"
proof (induction i rule: less_induct)
  case (less i)
  show ?case
  proof (cases "i = 1")
    case True
    then show ?thesis by (simp add: irrefl)
  next
    case False
    with less.prems have "\<not> lt (a ! i) (a ! (i div 2))" by (auto simp: heap_ok_def)
    moreover have "\<not> lt (a ! (i div 2)) (a ! 1)"
      using less False by auto
    ultimately show ?thesis by (rule ntrans)
  qed
qed

end

section \<open>The loops\<close>

lemma exch_fields [simp]:
  "pq_nalloc (exch q i j) = pq_nalloc q" "pq_size (exch q i j) = pq_size q"
  "pq_comp (exch q i j) = pq_comp q" "length (pq_arr (exch q i j)) = length (pq_arr q)"
  by (simp_all add: exch_def)

lemma exch_arr: "pq_arr (exch q i j) = (pq_arr q)[i := pq_arr q ! j, j := pq_arr q ! i]"
  by (simp add: exch_def)

lemma swim_fields [simp]:
  "pq_nalloc (swim m q k) = pq_nalloc q" "pq_size (swim m q k) = pq_size q"
  "pq_comp (swim m q k) = pq_comp q" "length (pq_arr (swim m q k)) = length (pq_arr q)"
  by (induction m q k rule: swim.induct; subst swim.simps; simp)+

lemma sink_fields [simp]:
  "pq_nalloc (fst (sink m q k)) = pq_nalloc q" "pq_size (fst (sink m q k)) = pq_size q"
  "pq_comp (fst (sink m q k)) = pq_comp q" "length (pq_arr (fst (sink m q k))) = length (pq_arr q)"
  by (induction m q k rule: sink.induct; subst sink.simps; simp add: Let_def)+

lemma mset_swap_region:
  assumes "1 \<le> i" "i \<le> n" "1 \<le> j" "j \<le> n" "n < length a"
  shows "mset (take n (drop 1 (a[i := a ! j, j := a ! i]))) = mset (take n (drop 1 a))"
proof -
  let ?b = "take n (drop 1 a)"
  have "take n (drop 1 (a[i := a ! j, j := a ! i])) = ?b[i - 1 := ?b ! (j - 1), j - 1 := ?b ! (i - 1)]"
    using assms by (auto simp: drop_update_swap take_update_swap nth_list_update)
  moreover have "mset (?b[i - 1 := ?b ! (j - 1), j - 1 := ?b ! (i - 1)]) = mset ?b"
    using assms by (intro mset_swap) auto
  ultimately show ?thesis by simp
qed

lemma exch_items [zv_abs]:
  assumes "1 \<le> i" "i \<le> pq_nalloc q" "1 \<le> j" "j \<le> pq_nalloc q" "pq_nalloc q < length (pq_arr q)"
  shows "pq_items (exch q i j) = pq_items q"
  using mset_swap_region [OF assms] by (simp add: pq_items_def exch_arr)

lemma swim_items [zv_abs]:
  assumes "k \<le> pq_nalloc q" and "pq_nalloc q < length (pq_arr q)"
  shows "pq_items (swim m q k) = pq_items q"
  using assms
proof (induction m q k rule: swim.induct)
  case (1 m q k)
  show ?case
  proof (cases "k > 1 \<and> pq_comp q m (pq_arr q ! k) (pq_arr q ! (k div 2))")
    case True
    with 1 have "pq_items (swim m (exch q k (k div 2)) (k div 2)) = pq_items (exch q k (k div 2))"
      by auto
    moreover have "pq_items (exch q k (k div 2)) = pq_items q"
      using True "1.prems" by (intro exch_items) auto
    ultimately show ?thesis using True by (subst swim.simps) simp
  next
    case False
    then show ?thesis by (subst swim.simps) auto
  qed
qed

lemma sink_child_bounds:
  "sink_child m q k = 2 * k \<or> sink_child m q k = 2 * k + 1"
  "2 * k \<le> pq_nalloc q \<Longrightarrow> sink_child m q k \<le> pq_nalloc q"
  by (auto simp: sink_child_def)

lemma sink_items [zv_abs]:
  assumes "pq_nalloc q < length (pq_arr q)"
  shows "pq_items (fst (sink m q k)) = pq_items q"
  using assms
proof (induction m q k rule: sink.induct)
  case (1 m q k)
  show ?case
  proof (cases "1 \<le> k \<and> 2 * k \<le> pq_nalloc q")
    case True
    have "pq_items (exch q (sink_child m q k) k) = pq_items q"
      using True "1.prems" sink_child_bounds(1) [of m q k] sink_child_bounds(2) [of k q m]
      by (intro exch_items) auto
    with True 1 show ?thesis by (subst sink.simps) (auto simp: Let_def)
  next
    case False
    then show ?thesis by (subst sink.simps) auto
  qed
qed

context strict_weak
begin

lemma swim_heap:
  assumes "pq_comp q m = lt" and "heap_up lt (pq_arr q) (pq_nalloc q) k"
    and "k \<le> pq_nalloc q" and "pq_nalloc q < length (pq_arr q)"
  shows "heap_ok lt (pq_arr (swim m q k)) (pq_nalloc q)"
  using assms
proof (induction m q k rule: swim.induct)
  case (1 m q k)
  show ?case
  proof (cases "k > 1 \<and> lt (pq_arr q ! k) (pq_arr q ! (k div 2))")
    case True
    with "1.prems" have "heap_up lt (pq_arr (exch q k (k div 2))) (pq_nalloc q) (k div 2)"
      using heap_up_step by (simp add: exch_arr)
    with True 1 show ?thesis by (subst swim.simps) auto
  next
    case False
    with "1.prems" heap_up_done show ?thesis by (subst swim.simps) auto
  qed
qed

lemma sink_child_least:
  assumes "pq_comp q m = lt" and "i div 2 = k" and "i \<le> pq_nalloc q"
  shows "\<not> lt (pq_arr q ! i) (pq_arr q ! sink_child m q k)"
proof -
  from assms(2) have "i = 2 * k \<or> i = 2 * k + 1" by auto
  with assms(1,3) show ?thesis using irrefl asym by (auto simp: sink_child_def)
qed

lemma sink_heap:
  assumes "pq_comp q m = lt" and "heap_down lt (pq_arr q) (pq_nalloc q) k"
    and "1 \<le> k" and "pq_nalloc q < length (pq_arr q)"
  shows "heap_ok lt (pq_arr (fst (sink m q k))) (pq_nalloc q)"
  using assms
proof (induction m q k rule: sink.induct)
  case (1 m q k)
  let ?j = "sink_child m q k"
  note least = sink_child_least [OF "1.prems"(1)]
  show ?case
  proof (cases "2 * k \<le> pq_nalloc q \<and> lt (pq_arr q ! ?j) (pq_arr q ! k)")
    case True
    then have "heap_down lt (pq_arr (exch q ?j k)) (pq_nalloc q) ?j"
      unfolding exch_arr
      by (intro heap_down_step [OF "1.prems"(2,3) sink_child_bounds(1) _ "1.prems"(4)] least sink_child_bounds(2)) auto
    moreover have "1 \<le> ?j" using sink_child_bounds(1) [of m q k] "1.prems"(3) by auto
    ultimately show ?thesis using True 1 by (subst sink.simps) (simp add: Let_def)
  next
    case False
    have "heap_ok lt (pq_arr q) (pq_nalloc q)"
    proof (rule heap_down_done [OF "1.prems"(2)])
      fix i assume i: "i div 2 = k" "i \<le> pq_nalloc q"
      then have "2 * k \<le> pq_nalloc q" by auto
      with False have "\<not> lt (pq_arr q ! ?j) (pq_arr q ! k)" by blast
      with least [OF i] show "\<not> lt (pq_arr q ! i) (pq_arr q ! k)" by (rule ntrans)
    qed
    with False "1.prems" show ?thesis by (subst sink.simps) (auto simp: Let_def)
  qed
qed

end

section \<open>The operations\<close>

lemma zv_pq_init_ok:
  "zv_pq_init True q cmp sz = (rc, q') \<Longrightarrow>
     rc = ZV_OK \<and> pq_inv m q' \<and> pq_items q' = {#} \<and> pq_comp q' = cmp \<and> pq_size q' = sz + 1"
  by (auto simp: zv_pq_init_def pq_inv_def pq_bounds_def heap_ok_def pq_items_def)

lemma resize_ok:
  assumes "pq_inv m q" and "pq_nalloc q < new_size"
  shows "fst (resize True q new_size) = ZV_OK"
    and "pq_inv m (snd (resize True q new_size))"
    and "pq_items (snd (resize True q new_size)) = pq_items q"
    and "pq_comp (snd (resize True q new_size)) = pq_comp q"
    and "pq_nalloc (snd (resize True q new_size)) = pq_nalloc q"
    and "pq_size (snd (resize True q new_size)) = new_size"
proof -
  let ?n = "pq_nalloc q"
  from assms have len: "?n + 1 \<le> length (pq_arr q)" by (auto simp: pq_inv_def pq_bounds_def)
  let ?b = "take (?n + 1) (pq_arr q) @ replicate (new_size - (?n + 1)) undefined"
  have nth: "?b ! i = pq_arr q ! i" if "i \<le> ?n" for i
    using that len by (auto simp: nth_append)
  show "pq_inv m (snd (resize True q new_size))"
    using assms len nth by (auto simp: resize_def pq_inv_def pq_bounds_def heap_ok_def)
  show "pq_items (snd (resize True q new_size)) = pq_items q"
    using assms len by (simp add: resize_def pq_items_def drop_take)
qed (use assms in \<open>auto simp: resize_def\<close>)

lemma resize_fail: "resize False q new_size = (-1, q)"
  by (simp add: resize_def)

lemma items_min:
  assumes "pq_bounds q" and "pq_nalloc q \<noteq> 0"
  shows "pq_arr q ! 1 \<in># pq_items q"
proof -
  have "pq_arr q ! 1 = take (pq_nalloc q) (drop 1 (pq_arr q)) ! 0"
    using assms by (auto simp: pq_bounds_def)
  moreover have "0 < length (take (pq_nalloc q) (drop 1 (pq_arr q)))"
    using assms by (auto simp: pq_bounds_def)
  ultimately show ?thesis unfolding pq_items_def by (metis nth_mem set_mset_mset)
qed

lemma pq_items_nth: "pq_bounds q \<Longrightarrow> x \<in># pq_items q \<longleftrightarrow> (\<exists>i. 1 \<le> i \<and> i \<le> pq_nalloc q \<and> x = pq_arr q ! i)"
proof -
  assume b: "pq_bounds q"
  have "take (pq_nalloc q) (drop 1 (pq_arr q)) = map (\<lambda>i. pq_arr q ! (i + 1)) [0..<pq_nalloc q]"
    using b by (intro nth_equalityI) (auto simp: pq_bounds_def)
  then have "x \<in># pq_items q \<longleftrightarrow> (\<exists>i < pq_nalloc q. x = pq_arr q ! (i + 1))"
    by (auto simp: pq_items_def)
  also have "\<dots> \<longleftrightarrow> (\<exists>i. 1 \<le> i \<and> i \<le> pq_nalloc q \<and> x = pq_arr q ! i)"
    by (metis Suc_eq_plus1 Suc_le_eq le_add2 less_eq_Suc_le not0_implies_Suc not_one_le_zero)
  finally show ?thesis .
qed

lemma size_pq_items: "pq_bounds q \<Longrightarrow> size (pq_items q) = pq_nalloc q"
  by (auto simp: pq_items_def pq_bounds_def)

lemma zv_pq_min_spec:
  assumes "pq_inv m q" and "strict_weak (pq_comp q m)"
  shows "zv_pq_min q = None \<longleftrightarrow> pq_items q = {#}"
    and "zv_pq_min q = Some x \<Longrightarrow> x \<in># pq_items q \<and> (\<forall>y \<in># pq_items q. \<not> pq_comp q m y x)"
proof -
  from assms(1) have b: "pq_bounds q" and h: "heap_ok (pq_comp q m) (pq_arr q) (pq_nalloc q)"
    by (auto simp: pq_inv_def)
  show "zv_pq_min q = None \<longleftrightarrow> pq_items q = {#}"
    using size_pq_items [OF b] by (auto simp: zv_pq_min_def zv_pq_is_empty_def)
  assume "zv_pq_min q = Some x"
  then have x: "x = pq_arr q ! 1" "pq_nalloc q \<noteq> 0"
    by (auto simp: zv_pq_min_def zv_pq_is_empty_def split: if_splits)
  then show "x \<in># pq_items q \<and> (\<forall>y \<in># pq_items q. \<not> pq_comp q m y x)"
    using items_min [OF b] pq_items_nth [OF b] strict_weak.heap_root [OF assms(2) h] by auto
qed

lemma insert_core:
  fixes item :: 'a
  assumes "pq_inv m q" and "strict_weak (pq_comp q m)" and "pq_nalloc q + 1 < pq_size q"
  defines "q2 \<equiv> q\<lparr>pq_nalloc := pq_nalloc q + 1, pq_arr := (pq_arr q)[pq_nalloc q + 1 := item]\<rparr>"
  shows "pq_inv m (swim m q2 (pq_nalloc q2))"
    and "pq_items (swim m q2 (pq_nalloc q2)) = add_mset item (pq_items q)"
proof -
  let ?n = "pq_nalloc q"
  have len: "?n + 1 < length (pq_arr q)" and h: "heap_ok (pq_comp q m) (pq_arr q) ?n"
    using assms(1,3) by (auto simp: pq_inv_def pq_bounds_def)
  have "heap_up (pq_comp q m) (pq_arr q2) (?n + 1) (?n + 1)"
    using h len by (auto simp: heap_up_def heap_ok_def q2_def nth_list_update)
  then have "heap_ok (pq_comp q m) (pq_arr (swim m q2 (?n + 1))) (?n + 1)"
    using strict_weak.swim_heap [OF assms(2), of q2 m "?n + 1"] len by (auto simp: q2_def)
  then show "pq_inv m (swim m q2 (pq_nalloc q2))"
    using assms(1,3) by (auto simp: pq_inv_def pq_bounds_def q2_def)
  have "pq_items (swim m q2 (pq_nalloc q2)) = pq_items q2"
    using len by (intro swim_items) (auto simp: q2_def)
  also have "take (?n + 1) (drop 1 ((pq_arr q)[?n + 1 := item])) = take ?n (drop 1 (pq_arr q)) @ [item]"
    using len by (simp add: drop_update_swap take_Suc_conv_app_nth)
  then have "pq_items q2 = add_mset item (pq_items q)"
    by (simp add: pq_items_def q2_def)
  finally show "pq_items (swim m q2 (pq_nalloc q2)) = add_mset item (pq_items q)" .
qed

definition insert_state :: "'m \<Rightarrow> ('m, 'a) zv_pq \<Rightarrow> 'a \<Rightarrow> ('m, 'a) zv_pq" where
  "insert_state m q item =
     (let q2 = q\<lparr>pq_nalloc := pq_nalloc q + 1, pq_arr := (pq_arr q)[pq_nalloc q + 1 := item]\<rparr>
      in swim m q2 (pq_nalloc q2))"

lemma zv_pq_insert_eq:
  "zv_pq_insert ok m q item =
     (case (if pq_nalloc q + 1 = pq_size q then resize ok q (pq_size q * 2) else (ZV_OK, q)) of
        (rc, q1) \<Rightarrow> if rc < 0 then (-1, q1) else (ZV_OK, insert_state m q1 item))"
  unfolding zv_pq_insert_def insert_state_def Let_def ..

lemma insert_state_spec:
  assumes "pq_inv m q" and "strict_weak (pq_comp q m)" and "pq_nalloc q + 1 < pq_size q"
  shows "pq_inv m (insert_state m q item) \<and> pq_items (insert_state m q item) = add_mset item (pq_items q)
         \<and> pq_comp (insert_state m q item) = pq_comp q"
  using insert_core [OF assms, of item] by (simp add: insert_state_def Let_def)

lemma zv_pq_insert_spec:
  assumes "pq_inv m q" and "strict_weak (pq_comp q m)" and ins: "zv_pq_insert ok m q item = (rc, q')"
  shows "if pq_nalloc q + 1 = pq_size q \<and> \<not> ok then rc = -1 \<and> q' = q
         else rc = ZV_OK \<and> pq_inv m q' \<and> pq_items q' = add_mset item (pq_items q) \<and> pq_comp q' = pq_comp q"
proof (cases "pq_nalloc q + 1 = pq_size q")
  case full: True
  show ?thesis
  proof (cases ok)
    case True
    define q1 where "q1 = snd (resize True q (pq_size q * 2))"
    have "pq_nalloc q < pq_size q * 2" using full by simp
    note r = resize_ok [OF assms(1) this, folded q1_def]
    have "resize True q (pq_size q * 2) = (ZV_OK, q1)" using r(1) by (simp add: prod_eq_iff q1_def)
    then have "rc = ZV_OK" "q' = insert_state m q1 item"
      using full True ins by (auto simp: zv_pq_insert_eq ZV_OK_def)
    moreover have "strict_weak (pq_comp q1 m)" "pq_nalloc q1 + 1 < pq_size q1"
      using assms(2) full r(4-6) by auto
    ultimately show ?thesis
      using full True insert_state_spec [OF r(2), of item] r(3,4) by auto
  next
    case False
    with full ins show ?thesis by (auto simp: zv_pq_insert_eq resize_fail)
  qed
next
  case False
  with assms(1) have "pq_nalloc q + 1 < pq_size q" by (auto simp: pq_inv_def pq_bounds_def)
  moreover have "rc = ZV_OK" "q' = insert_state m q item"
    using False ins by (auto simp: zv_pq_insert_eq ZV_OK_def)
  ultimately show ?thesis using False insert_state_spec [OF assms(1,2), of item] by simp
qed

lemma delmin_core:
  assumes "pq_inv m q" and "strict_weak (pq_comp q m)" and ne: "pq_nalloc q \<noteq> 0"
  defines "q2 \<equiv> (exch q 1 (pq_nalloc q))\<lparr>pq_nalloc := pq_nalloc q - 1\<rparr>"
  shows "pq_inv m (fst (sink m q2 1))"
    and "pq_items (fst (sink m q2 1)) = pq_items q - {#pq_arr q ! 1#}"
proof -
  let ?n = "pq_nalloc q" and ?a = "pq_arr q"
  have len: "?n < length ?a" and b: "pq_bounds q" and h: "heap_ok (pq_comp q m) ?a ?n"
    using assms(1) by (auto simp: pq_inv_def pq_bounds_def)
  have "heap_down (pq_comp q m) (pq_arr q2) (?n - 1) 1"
    using h len by (auto simp: heap_down_def heap_ok_def q2_def exch_arr nth_list_update)
  then have "heap_ok (pq_comp q m) (pq_arr (fst (sink m q2 1))) (?n - 1)"
    using strict_weak.sink_heap [OF assms(2), of q2 m 1] len by (auto simp: q2_def)
  then show "pq_inv m (fst (sink m q2 1))"
    using assms(1) by (auto simp: pq_inv_def pq_bounds_def q2_def)
  let ?b = "pq_arr (exch q 1 ?n)"
  have "pq_items (fst (sink m q2 1)) = pq_items q2"
    using len by (intro sink_items) (auto simp: q2_def)
  also have "\<dots> = mset (take (?n - 1) (drop 1 ?b))" by (simp add: pq_items_def q2_def)
  also have "\<dots> = mset (take ?n (drop 1 ?b)) - {#?b ! ?n#}"
    using len ne take_Suc_conv_app_nth [of "?n - 1" "drop 1 ?b"] by (simp add: exch_arr)
  also have "mset (take ?n (drop 1 ?b)) = pq_items q"
    using len ne exch_items [of 1 q ?n] by (simp add: pq_items_def)
  also have "?b ! ?n = ?a ! 1" using len ne by (auto simp: exch_arr nth_list_update)
  finally show "pq_items (fst (sink m q2 1)) = pq_items q - {#?a ! 1#}" .
qed

lemma zv_pq_delmin_spec:
  assumes "pq_inv m q" and "strict_weak (pq_comp q m)" and ne: "pq_items q \<noteq> {#}"
    and del: "zv_pq_delmin ok m q = (rc, q')"
  shows "pq_inv m q' \<and> pq_comp q' = pq_comp q \<and> pq_items q' = pq_items q - {#the (zv_pq_min q)#}
         \<and> (rc = ZV_OK \<or> rc = -1 \<and> \<not> ok)"
proof -
  have n: "pq_nalloc q \<noteq> 0" using ne by (auto simp: pq_items_def)
  define q2 where "q2 = (exch q 1 (pq_nalloc q))\<lparr>pq_nalloc := pq_nalloc q - 1\<rparr>"
  define q3 where "q3 = fst (sink m q2 1)"
  have core: "pq_inv m q3" "pq_items q3 = pq_items q - {#pq_arr q ! 1#}"
    using delmin_core [OF assms(1,2) n] by (simp_all add: q2_def q3_def)
  have c: "pq_comp q3 = pq_comp q" by (simp add: q2_def q3_def)
  have min: "the (zv_pq_min q) = pq_arr q ! 1" using n by (simp add: zv_pq_min_def zv_pq_is_empty_def)
  have eq: "zv_pq_delmin ok m q =
      (if pq_nalloc q3 > 0 \<and> pq_nalloc q3 \<le> (pq_size q3 - 1) div 4
       then (case resize ok q3 (pq_size q3 div 2) of (rc, q4) \<Rightarrow> if rc < 0 then (-1, q4) else (ZV_OK, q4))
       else (ZV_OK, q3))"
    using n by (simp add: zv_pq_delmin_def zv_pq_is_empty_def q2_def q3_def Let_def)
  show ?thesis
  proof (cases "pq_nalloc q3 > 0 \<and> pq_nalloc q3 \<le> (pq_size q3 - 1) div 4")
    case shrink: True
    then have lt: "pq_nalloc q3 < pq_size q3 div 2" by linarith
    note r = resize_ok [OF core(1) lt]
    have "resize True q3 (pq_size q3 div 2) = (ZV_OK, snd (resize True q3 (pq_size q3 div 2)))"
      using r(1) by (simp add: prod_eq_iff)
    then show ?thesis
      using del eq shrink core r c min resize_fail [of q3]
      by (cases ok) (auto simp: ZV_OK_def split: prod.splits)
  next
    case False
    with del eq core c min show ?thesis by auto
  qed
qed

section \<open>The interface of a priority queue\<close>

text \<open>The loop of \<^verbatim>\<open>src/tests/priority_queue_test.c\<close> that empties a queue.\<close>

fun pq_drain :: "('q \<Rightarrow> 'a option) \<Rightarrow> ('q \<Rightarrow> 'q) \<Rightarrow> nat \<Rightarrow> 'q \<Rightarrow> 'a list" where
  "pq_drain least del 0 q = []"
| "pq_drain least del (Suc n) q =
     (case least q of None \<Rightarrow> [] | Some x \<Rightarrow> x # pq_drain least del n (del q))"

text \<open>
  What a client of the queue relies on. The queue's order may depend on the queue
  (\<open>before q\<close>), as the comparator is stored in it; no operation changes it.
\<close>

locale prio_queue =
  fixes ins :: "bool \<Rightarrow> 'q \<Rightarrow> 'a \<Rightarrow> int \<times> 'q"
    and least :: "'q \<Rightarrow> 'a option"
    and delm :: "bool \<Rightarrow> 'q \<Rightarrow> int \<times> 'q"
    and items :: "'q \<Rightarrow> 'a multiset"
    and invar :: "'q \<Rightarrow> bool"
    and before :: "'q \<Rightarrow> 'a \<Rightarrow> 'a \<Rightarrow> bool"
  assumes least_None: "invar q \<Longrightarrow> least q = None \<longleftrightarrow> items q = {#}"
    and least_Some: "invar q \<Longrightarrow> least q = Some x \<Longrightarrow> x \<in># items q \<and> (\<forall>y \<in># items q. \<not> before q y x)"
    and ins_true: "invar q \<Longrightarrow> ins True q x = (rc, q') \<Longrightarrow>
      rc = 0 \<and> invar q' \<and> items q' = add_mset x (items q) \<and> before q' = before q"
    and ins_false: "invar q \<Longrightarrow> ins False q x = (rc, q') \<Longrightarrow>
      rc = 0 \<and> invar q' \<and> items q' = add_mset x (items q) \<and> before q' = before q \<or> rc = -1 \<and> q' = q"
    and delm: "invar q \<Longrightarrow> items q \<noteq> {#} \<Longrightarrow> delm ok q = (rc, q') \<Longrightarrow>
      invar q' \<and> items q' = items q - {#the (least q)#} \<and> before q' = before q"
begin

lemma ins_cases:
  assumes "invar q" and "ins ok q x = (rc, q')"
  shows "rc = 0 \<and> invar q' \<and> items q' = add_mset x (items q) \<and> before q' = before q \<or> rc = -1 \<and> q' = q"
proof (cases ok)
  case True
  with assms show ?thesis using ins_true [of q x rc q'] by simp
next
  case False
  with assms show ?thesis using ins_false [of q x rc q'] by simp
qed

lemma least_exists: "invar q \<Longrightarrow> items q \<noteq> {#} \<Longrightarrow> \<exists>x. least q = Some x"
  using least_None by auto

lemma ins_all:
  fixes xs :: "'a list"
  assumes "invar q"
  defines "q' \<equiv> foldl (\<lambda>q x. snd (ins True q x)) q xs"
  shows "invar q' \<and> items q' = items q + mset xs \<and> before q' = before q"
  using assms(1) unfolding q'_def
proof (induction xs arbitrary: q)
  case Nil
  then show ?case by simp
next
  case (Cons x xs)
  obtain rc q1 where i: "ins True q x = (rc, q1)" by (cases "ins True q x")
  from ins_true [OF Cons.prems i] Cons.IH [of q1] i show ?case by simp
qed

lemma drain_sorted:
  fixes ok :: bool
  assumes "invar q" and "size (items q) = n"
  defines "ys \<equiv> pq_drain least (\<lambda>q. snd (delm ok q)) n q"
  shows "mset ys = items q \<and> sorted_wrt (\<lambda>x y. \<not> before q y x) ys"
  using assms(1,2) unfolding ys_def
proof (induction n arbitrary: q)
  case 0
  then show ?case by simp
next
  case (Suc n)
  then have ne: "items q \<noteq> {#}" by auto
  with Suc.prems(1) obtain x where x: "least q = Some x" using least_exists by blast
  obtain rc q1 where d: "delm ok q = (rc, q1)" by (cases "delm ok q")
  from least_Some [OF Suc.prems(1) x] have mem: "x \<in># items q" and le: "\<forall>y \<in># items q. \<not> before q y x"
    by auto
  from delm [OF Suc.prems(1) ne d] x
  have q1: "invar q1" "items q1 = items q - {#x#}" "before q1 = before q" by auto
  with mem Suc.prems(2) have sz: "size (items q1) = n" by (simp add: size_Diff_singleton)
  from Suc.IH [OF q1(1) sz] q1 x d mem le show ?case
    by (auto dest: in_diffD simp flip: set_mset_mset)
qed

end

text \<open>The model's queue provides the interface, for every comparator that is a strict weak order.\<close>

interpretation zpq: prio_queue "\<lambda>ok. zv_pq_insert ok m" zv_pq_min "\<lambda>ok. zv_pq_delmin ok m" pq_items
  "\<lambda>q. pq_inv m q \<and> strict_weak (pq_comp q m)" "\<lambda>q. pq_comp q m"
  for m
proof (unfold_locales, goal_cases)
  case (1 q)
  then show ?case using zv_pq_min_spec(1) [of m q] by simp
next
  case (2 q x)
  then show ?case using zv_pq_min_spec(2) [of m q x] by simp
next
  case (3 q x rc q')
  then show ?case using zv_pq_insert_spec [of m q True x rc q'] by (auto simp: ZV_OK_def)
next
  case (4 q x rc q')
  then show ?case using zv_pq_insert_spec [of m q False x rc q'] by (auto simp: ZV_OK_def split: if_splits)
next
  case (5 q ok rc q')
  then show ?case using zv_pq_delmin_spec [of m q ok rc q'] by auto
qed

lemma zv_pq_insert_correct:
  assumes "pq_inv m q" and "strict_weak (pq_comp q m)"
  shows "case zv_pq_insert ok m q x of (rc, q') \<Rightarrow>
           pq_inv m q' \<and>
           (if pq_nalloc q + 1 = pq_size q \<and> \<not> ok then rc = -1 \<and> q' = q
            else rc = ZV_OK \<and> pq_items q' = add_mset x (pq_items q))"
proof -
  obtain rc q' where i: "zv_pq_insert ok m q x = (rc, q')" by (cases "zv_pq_insert ok m q x")
  from zv_pq_insert_spec [OF assms i] assms(1) i show ?thesis by (auto split: if_splits)
qed

lemma zv_pq_delmin_correct:
  assumes "pq_inv m q" and "strict_weak (pq_comp q m)"
  shows "case zv_pq_delmin ok m q of (rc, q') \<Rightarrow>
           pq_inv m q' \<and> (ok \<longrightarrow> rc = ZV_OK) \<and>
           pq_items q' = (case zv_pq_min q of None \<Rightarrow> {#} | Some y \<Rightarrow> pq_items q - {#y#})"
proof (cases "pq_items q = {#}")
  case True
  then have "pq_nalloc q = 0" using assms(1) size_pq_items [of q] by (auto simp: pq_inv_def)
  with True assms(1) show ?thesis
    by (simp add: zv_pq_delmin_def zv_pq_min_def zv_pq_is_empty_def)
next
  case False
  obtain rc q' where d: "zv_pq_delmin ok m q = (rc, q')" by (cases "zv_pq_delmin ok m q")
  from False assms obtain y where "zv_pq_min q = Some y" using zpq.least_exists [of m q] by auto
  with zv_pq_delmin_spec [OF assms False d] d show ?thesis by auto
qed

lemma zv_pq_min_correct:
  assumes "pq_inv m q" and "strict_weak (pq_comp q m)"
  shows "case zv_pq_min q of
            None \<Rightarrow> pq_items q = {#}
          | Some y \<Rightarrow> y \<in># pq_items q \<and> (\<forall>z \<in># pq_items q. \<not> pq_comp q m z y)"
  using zpq.least_None [of m q] zpq.least_Some [of m q] assms by (auto split: option.split)

section \<open>Properties\<close>

text \<open>
  C6. Every operation of the priority queue keeps its invariant (array bounds and heap order)
  whatever \<^verbatim>\<open>malloc\<close> answers, and has exactly this effect on the contents: an insertion adds
  the item, or fails with -1 and changes nothing, which happens only when the full array could not
  be doubled; a deletion removes the minimum, also when it reports that shrinking failed; the
  minimum is an element that no other element precedes.
\<close>

theorem zv_pq_ops_correct:
  assumes "pq_inv m q" and "strict_weak (pq_comp q m)"
  shows "(case zv_pq_insert ok m q x of (rc, q') \<Rightarrow>
           pq_inv m q' \<and>
           (if pq_nalloc q + 1 = pq_size q \<and> \<not> ok then rc = -1 \<and> q' = q
            else rc = ZV_OK \<and> pq_items q' = add_mset x (pq_items q))) \<and>
         (case zv_pq_delmin ok m q of (rc, q') \<Rightarrow>
           pq_inv m q' \<and> (ok \<longrightarrow> rc = ZV_OK) \<and>
           pq_items q' = (case zv_pq_min q of None \<Rightarrow> {#} | Some y \<Rightarrow> pq_items q - {#y#})) \<and>
         (case zv_pq_min q of
            None \<Rightarrow> pq_items q = {#}
          | Some y \<Rightarrow> y \<in># pq_items q \<and> (\<forall>z \<in># pq_items q. \<not> pq_comp q m z y))"
  by (intro conjI zv_pq_insert_correct zv_pq_delmin_correct zv_pq_min_correct assms)

definition less_cmp :: "unit \<Rightarrow> nat \<Rightarrow> nat \<Rightarrow> bool" where
  "less_cmp m x y \<longleftrightarrow> x < y"

lemma less_cmp_strict_weak: "strict_weak (less_cmp m)"
  by unfold_locales (auto simp: less_cmp_def)

definition pq_example :: "(unit, nat) zv_pq" where
  "pq_example = \<lparr>pq_arr = [0, 3, 5], pq_nalloc = 2, pq_size = 3, pq_comp = less_cmp\<rparr>"

lemma pq_example_inv: "pq_inv () pq_example \<and> strict_weak (pq_comp pq_example ())"
proof -
  have "i = 2" if "2 \<le> i" "i \<le> 2" for i :: nat using that by simp
  then show ?thesis
    by (auto simp: pq_example_def pq_inv_def pq_bounds_def heap_ok_def less_cmp_strict_weak less_cmp_def)
qed

theorem zv_pq_ops_correct_witness:
  "pq_items (snd (zv_pq_insert True () pq_example 1)) = {#1, 3, 5#} \<and>
   fst (zv_pq_insert False () pq_example 1) = -1 \<and>
   pq_items (snd (zv_pq_delmin True () pq_example)) = {#5#}"
proof -
  have i: "pq_items pq_example = {#3, 5#}" and n: "pq_nalloc pq_example + 1 = pq_size pq_example"
    and y: "zv_pq_min pq_example = Some 3"
    by (simp_all add: pq_example_def pq_items_def zv_pq_min_def zv_pq_is_empty_def)
  from zv_pq_ops_correct [of "()" pq_example True 1] zv_pq_ops_correct [of "()" pq_example False 1]
    pq_example_inv i n y
  show ?thesis by (auto split: prod.splits)
qed

text \<open>
  C16. Filling a fresh queue and then emptying it with \<^verbatim>\<open>zv_pq_min\<close> and \<^verbatim>\<open>zv_pq_delmin\<close> yields
  exactly the inserted items, each as often as it was inserted, in the order of the comparator:
  the statement that \<^verbatim>\<open>src/tests/priority_queue_test.c\<close> samples.
\<close>

theorem zv_pq_sorts:
  assumes "strict_weak (cmp m)" and "zv_pq_init True q0 cmp sz = (rc, q)"
  shows "let q1 = foldl (\<lambda>q x. snd (zv_pq_insert True m q x)) q xs;
             ys = pq_drain zv_pq_min (\<lambda>q. snd (zv_pq_delmin ok m q)) (length xs) q1
         in mset ys = mset xs \<and> sorted_wrt (\<lambda>x y. \<not> cmp m y x) ys"
proof -
  define q1 where "q1 = foldl (\<lambda>q x. snd (zv_pq_insert True m q x)) q xs"
  from zv_pq_init_ok [OF assms(2), of m] have q: "pq_inv m q" "pq_items q = {#}" "pq_comp q = cmp"
    by auto
  with assms(1) have inv: "pq_inv m q \<and> strict_weak (pq_comp q m)" by simp
  from zpq.ins_all [OF inv, of xs] q
  have q1: "pq_inv m q1 \<and> strict_weak (pq_comp q1 m)" "pq_items q1 = mset xs" "pq_comp q1 m = cmp m"
    by (auto simp: q1_def)
  from q1(2) have "size (pq_items q1) = length xs" by simp
  from zpq.drain_sorted [OF q1(1) this, of ok] q1 show ?thesis by (simp add: q1_def Let_def)
qed

theorem zv_pq_sorts_witness:
  "let q = snd (zv_pq_init True pq_example less_cmp ZV_PQ_DEFAULT_SIZE);
       q1 = foldl (\<lambda>q x. snd (zv_pq_insert True () q x)) q [112, 1634, 2151, 112];
       ys = pq_drain zv_pq_min (\<lambda>q. snd (zv_pq_delmin True () q)) (length [112, 1634, 2151, 112 :: nat]) q1
   in ys = [112, 112, 1634, 2151]"
proof -
  define q where "q = snd (zv_pq_init True pq_example less_cmp ZV_PQ_DEFAULT_SIZE)"
  define xs where "xs = [112, 1634, 2151, 112 :: nat]"
  define ys where "ys = pq_drain zv_pq_min (\<lambda>q. snd (zv_pq_delmin True () q)) (length xs)
    (foldl (\<lambda>q x. snd (zv_pq_insert True () q x)) q xs)"
  have "zv_pq_init True pq_example less_cmp ZV_PQ_DEFAULT_SIZE = (ZV_OK, q)"
    by (simp add: zv_pq_init_def q_def)
  from zv_pq_sorts [OF less_cmp_strict_weak [of "()"] this, where xs = xs and ok = True]
  have m: "mset ys = mset xs" and "sorted_wrt (\<lambda>x y. \<not> y < x) ys"
    by (simp_all add: Let_def less_cmp_def ys_def)
  then have "sorted ys" by (simp add: not_less)
  with m have "sort xs = ys" by (rule properties_for_sort)
  moreover have "sort xs = [112, 112, 1634, 2151]" by (simp add: xs_def)
  ultimately show ?thesis unfolding Let_def q_def [symmetric] xs_def [symmetric] ys_def by simp
qed

end
