(* ===== verification/Zv_Object_Cache.thy ===== *)
theory Zv_Object_Cache
  imports Zv_Prelude
begin

text \<open>
  The contract of an object cache (a free list in front of \<^verbatim>\<open>malloc\<close>): \<^verbatim>\<open>http_header_cache.c\<close>
  and \<^verbatim>\<open>http_request_cache.c\<close> both promise it. \<open>inv s xs\<close> says that the state \<open>s\<close> holds the
  free objects \<open>xs\<close>; \<open>live s\<close> is the set of allocated objects. A run of the cache interleaves calls
  of clients, each of which returns only objects it was given. The lemmas of the locale state what
  such a run cannot do: hand an object to two owners, lose one, or grow the free list past its cap.
\<close>

text \<open>A run tracks the state and the set of objects that clients hold.\<close>

inductive cache_run ::
  "('s \<Rightarrow> addr \<times> 's) \<Rightarrow> (addr \<Rightarrow> 's \<Rightarrow> 's) \<Rightarrow> 's \<times> addr set \<Rightarrow> 's \<times> addr set \<Rightarrow> bool"
  for get put where
  run_none: "cache_run get put x x"
| run_get: "cache_run get put x (s, own) \<Longrightarrow> get s = (a, s') \<Longrightarrow>
    cache_run get put x (s', if a = NULL then own else insert a own)"
| run_put: "cache_run get put x (s, own) \<Longrightarrow> a \<in> own \<Longrightarrow> cache_run get put x (put a s, own - {a})"

locale object_cache =
  fixes get :: "'s \<Rightarrow> addr \<times> 's"
    and put :: "addr \<Rightarrow> 's \<Rightarrow> 's"
    and inv :: "'s \<Rightarrow> addr list \<Rightarrow> bool"
    and live :: "'s \<Rightarrow> addr set"
    and cap :: nat
  assumes inv_free: "inv s xs \<Longrightarrow> distinct xs \<and> set xs \<subseteq> live s \<and> NULL \<notin> live s \<and> length xs \<le> cap"
    and get_hit: "inv s (x # xs) \<Longrightarrow> \<exists>s'. get s = (x, s') \<and> inv s' xs \<and> live s' = live s"
    and get_miss: "inv s [] \<Longrightarrow> get s = (a, s') \<Longrightarrow>
      inv s' [] \<and> (a = NULL \<and> live s' = live s \<or> a \<noteq> NULL \<and> a \<notin> live s \<and> live s' = insert a (live s))"
    and put_room: "inv s xs \<Longrightarrow> a \<in> live s \<Longrightarrow> a \<notin> set xs \<Longrightarrow> length xs < cap \<Longrightarrow>
      inv (put a s) (a # xs) \<and> live (put a s) = live s"
    and put_full: "inv s xs \<Longrightarrow> a \<in> live s \<Longrightarrow> a \<notin> set xs \<Longrightarrow> length xs = cap \<Longrightarrow>
      inv (put a s) xs \<and> live (put a s) = live s - {a}"
begin

text \<open>Ownership: every allocated object is either free or owned, never both.\<close>

definition accounted :: "'s \<Rightarrow> addr set \<Rightarrow> bool" where
  "accounted s own \<longleftrightarrow> (\<exists>xs. inv s xs \<and> own \<inter> set xs = {} \<and> own \<union> set xs = live s)"

lemma accounted_get:
  assumes "accounted s own" and "get s = (a, s')"
  shows "accounted s' (if a = NULL then own else insert a own)" and "a \<notin> own"
proof -
  from assms(1) obtain xs where xs: "inv s xs" "own \<inter> set xs = {}" "own \<union> set xs = live s"
    by (auto simp: accounted_def)
  have "accounted s' (if a = NULL then own else insert a own) \<and> a \<notin> own"
  proof (cases xs)
    case Nil
    with xs get_miss [of s a s'] assms(2) inv_free [OF xs(1)] show ?thesis
      by (auto simp: accounted_def)
  next
    case (Cons x ys)
    with xs get_hit [of s x ys] assms(2) have g: "a = x" "inv s' ys" "live s' = live s" by auto
    from inv_free [OF xs(1)] Cons have "x \<noteq> NULL" "x \<notin> set ys" by (auto intro: gr0I)
    with xs g Cons show ?thesis by (auto simp: accounted_def intro!: exI [of _ ys])
  qed
  then show "accounted s' (if a = NULL then own else insert a own)" and "a \<notin> own" by auto
qed

lemma accounted_put:
  assumes "accounted s own" and "a \<in> own"
  shows "accounted (put a s) (own - {a})"
proof -
  from assms(1) obtain xs where xs: "inv s xs" "own \<inter> set xs = {}" "own \<union> set xs = live s"
    by (auto simp: accounted_def)
  with assms(2) have a: "a \<in> live s" "a \<notin> set xs" by auto
  from inv_free [OF xs(1)] consider "length xs < cap" | "length xs = cap" by linarith
  then show ?thesis
  proof cases
    case 1
    with put_room [OF xs(1) a] xs a assms(2) show ?thesis
      by (auto simp: accounted_def intro!: exI [of _ "a # xs"])
  next
    case 2
    with put_full [OF xs(1) a] xs a show ?thesis
      by (auto simp: accounted_def intro!: exI [of _ xs])
  qed
qed

lemma run_accounted:
  assumes "cache_run get put x y" and "accounted (fst x) (snd x)"
  shows "accounted (fst y) (snd y)"
  using assms
proof (induction rule: cache_run.induct)
  case run_none
  then show ?case .
next
  case (run_get x s own a s')
  then show ?case using accounted_get(1) [of s own a s'] by simp
next
  case (run_put x s own a)
  then show ?case using accounted_put [of s own a] by simp
qed

lemma run_unique_owner:
  assumes "cache_run get put (s0, {}) (s, own)" and "inv s0 []" and "live s0 = {}" and "get s = (a, s')"
  shows "a \<notin> own" and "\<exists>xs. inv s xs \<and> own \<inter> set xs = {} \<and> own \<union> set xs = live s \<and> length xs \<le> cap"
proof -
  from assms(2,3) have "accounted s0 {}" by (auto simp: accounted_def)
  with run_accounted [OF assms(1)] have acc: "accounted s own" by simp
  then show "a \<notin> own" using assms(4) by (rule accounted_get(2))
  from acc show "\<exists>xs. inv s xs \<and> own \<inter> set xs = {} \<and> own \<union> set xs = live s \<and> length xs \<le> cap"
    using inv_free unfolding accounted_def by blast
qed

end

end
