(* ===== verification/Zv_Header_Cache.thy ===== *)
theory Zv_Header_Cache
  imports Zv_List Zv_Object_Cache
begin

text \<open>
  The memory the worker's objects live in, and the free list of request-header objects
  (\<^verbatim>\<open>src/src/http_header_cache.c\<close>).

  List nodes are named by the object and the field that embeds them: \<open>HdrNode a\<close> is the field
  \<^verbatim>\<open>list\<close> of the header object at address \<open>a\<close>, \<open>ReqList a\<close> and \<open>ReqFree a\<close> the fields \<^verbatim>\<open>list\<close> and
  \<^verbatim>\<open>freelist\<close> of the request at \<open>a\<close>, and the remaining constructors the three global list heads.
  The macro \<^verbatim>\<open>list_entry\<close> goes back from the node to the object. \<^verbatim>\<open>malloc\<close> takes its answer (success
  or failure) from a script, \<open>mallocs\<close>, and succeeds when the script is used up; an address it
  returns is new, and \<^verbatim>\<open>free\<close> removes the object, so that a later access to it is visible in the
  model as an access to an unmapped address.

  The header objects hold pointers into the buffer of their request, modelled as offsets
  (\<^const>\<open>None\<close> is the null pointer).

  The lemmas show that the cache never holds more than its cap, that it hands out each object to one
  owner at a time, and that it interprets the interface \<open>object_cache\<close>, which the request cache
  shares.
\<close>

section \<open>Memory\<close>

datatype node =
  FreeHeaders | FreeRequests | DeferredRequests | HdrNode addr | ReqList addr | ReqFree addr

record memory = "node list_heap" +
  mallocs :: "bool list"
  brk :: addr

definition malloc :: "'z memory_scheme \<Rightarrow> addr \<times> 'z memory_scheme" where
  "malloc s =
     (case mallocs s of
        False # ms \<Rightarrow> (NULL, s\<lparr>mallocs := ms\<rparr>)
      | True # ms \<Rightarrow> (brk s, s\<lparr>mallocs := ms, brk := Suc (brk s)\<rparr>)
      | [] \<Rightarrow> (brk s, s\<lparr>brk := Suc (brk s)\<rparr>))"

lemma malloc_cases:
  assumes "malloc s = (a, s')"
  obtains (fail) "a = NULL" and "nxt s' = nxt s" and "prv s' = prv s" and "brk s' = brk s"
      and "memory.more s' = memory.more s"
  | (ok) "a = brk s" and "nxt s' = nxt s" and "prv s' = prv s" and "brk s' = Suc (brk s)"
      and "memory.more s' = memory.more s"
  using assms by (auto simp: malloc_def split: list.splits bool.splits)

section \<open>Header objects and their cache\<close>

record zv_http_header =
  key_start :: "nat option"
  key_end :: "nat option"
  value_start :: "nat option"
  value_end :: "nat option"

record header_mem = memory +
  hdrs :: "addr \<rightharpoonup> zv_http_header"
  hc_free_count :: nat
  hc_inited :: bool

definition ZV_HEADER_FREELIST_MAX :: nat where "ZV_HEADER_FREELIST_MAX = 8192"

definition null_header :: zv_http_header where
  "null_header = \<lparr>key_start = None, key_end = None, value_start = None, value_end = None\<rparr>"

text \<open>\<^verbatim>\<open>list_entry(pos, zv_http_header_t, list)\<close>\<close>

definition hdr_entry :: "node \<Rightarrow> addr" where
  "hdr_entry n = (case n of HdrNode a \<Rightarrow> a | _ \<Rightarrow> NULL)"

definition hc_init_once :: "'z header_mem_scheme \<Rightarrow> 'z header_mem_scheme" where
  "hc_init_once s =
     (if hc_inited s then s
      else (INIT_LIST_HEAD FreeHeaders s)\<lparr>hc_free_count := 0, hc_inited := True\<rparr>)"

text \<open>The first half of \<^verbatim>\<open>zv_http_header_alloc\<close>: an object from the free list, or a new one.\<close>

definition hc_take :: "'z header_mem_scheme \<Rightarrow> addr \<times> 'z header_mem_scheme" where
  "hc_take s =
     (if \<not> list_empty FreeHeaders s then
        (let pos = nxt s FreeHeaders; s1 = list_del pos s
         in (hdr_entry pos, s1\<lparr>hc_free_count := hc_free_count s1 - (if hc_free_count s1 > 0 then 1 else 0)\<rparr>))
      else malloc s)"

definition zv_http_header_alloc :: "'z header_mem_scheme \<Rightarrow> addr \<times> 'z header_mem_scheme" where
  "zv_http_header_alloc s =
     (case hc_take (hc_init_once s) of
        (h, s') \<Rightarrow>
          if h = NULL then (NULL, s')
          else (h, INIT_LIST_HEAD (HdrNode h) (s'\<lparr>hdrs := (hdrs s')(h \<mapsto> null_header)\<rparr>)))"

definition zv_http_header_free :: "addr \<Rightarrow> 'z header_mem_scheme \<Rightarrow> 'z header_mem_scheme" where
  "zv_http_header_free h s0 =
     (if h = NULL then s0
      else
        let s = hc_init_once s0
        in if hc_free_count s \<ge> ZV_HEADER_FREELIST_MAX then s\<lparr>hdrs := (hdrs s)(h := None)\<rparr>
           else
             let s1 = s\<lparr>hdrs := (hdrs s)(h \<mapsto> null_header)\<rparr>;
                 s2 = INIT_LIST_HEAD (HdrNode h) s1;
                 s3 = list_add (HdrNode h) FreeHeaders s2
             in s3\<lparr>hc_free_count := hc_free_count s3 + 1\<rparr>)"

section \<open>The invariant of the cache\<close>

text \<open>
  \<open>hc_inv s xs\<close>: once initialised, the free list holds the header objects \<open>xs\<close>, all of them
  allocated, the counter is their number, and every allocated object lies below the break.
\<close>

definition hc_inv :: "'z header_mem_scheme \<Rightarrow> addr list \<Rightarrow> bool" where
  "hc_inv s xs \<longleftrightarrow>
     wf_list (hc_init_once s) FreeHeaders (map HdrNode xs) \<and>
     hc_free_count (hc_init_once s) = length xs \<and> length xs \<le> ZV_HEADER_FREELIST_MAX \<and>
     set xs \<subseteq> dom (hdrs s) \<and> (\<forall>a \<in> dom (hdrs s). 1 \<le> a \<and> a < brk s) \<and> 1 \<le> brk s"

lemma list_ops_more [simp]:
  "memory.more (INIT_LIST_HEAD n s) = memory.more s" "memory.more (list_add n l s) = memory.more s"
  "memory.more (list_del n s) = memory.more s"
  "mallocs (INIT_LIST_HEAD n s) = mallocs s" "mallocs (list_add n l s) = mallocs s" "mallocs (list_del n s) = mallocs s"
  "brk (INIT_LIST_HEAD n s) = brk s" "brk (list_add n l s) = brk s" "brk (list_del n s) = brk s"
  by (simp_all add: list_ops_defs)

lemma list_ops_hdrs [simp]:
  "hdrs (INIT_LIST_HEAD n s) = hdrs s" "hdrs (list_add n l s) = hdrs s" "hdrs (list_del n s) = hdrs s"
  "hc_free_count (INIT_LIST_HEAD n s) = hc_free_count s" "hc_free_count (list_add n l s) = hc_free_count s"
  "hc_free_count (list_del n s) = hc_free_count s"
  "hc_inited (INIT_LIST_HEAD n s) = hc_inited s" "hc_inited (list_add n l s) = hc_inited s"
  "hc_inited (list_del n s) = hc_inited s"
  "header_mem.more (INIT_LIST_HEAD n s) = header_mem.more s" "header_mem.more (list_add n l s) = header_mem.more s"
  "header_mem.more (list_del n s) = header_mem.more s"
  by (simp_all add: list_ops_defs)

lemma malloc_hdrs [simp]:
  "hdrs (snd (malloc s)) = hdrs s" "hc_free_count (snd (malloc s)) = hc_free_count s"
  "hc_inited (snd (malloc s)) = hc_inited s" "header_mem.more (snd (malloc s)) = header_mem.more s"
  by (simp_all add: malloc_def split: list.split bool.split)

lemma hc_init_once_fields [simp]:
  "hdrs (hc_init_once s) = hdrs s" "brk (hc_init_once s) = brk s" "mallocs (hc_init_once s) = mallocs s"
  "header_mem.more (hc_init_once s) = header_mem.more s" "hc_inited (hc_init_once s)"
  by (simp_all add: hc_init_once_def)

lemma hc_init_once_id [simp]: "hc_inited s \<Longrightarrow> hc_init_once s = s"
  by (simp add: hc_init_once_def)

lemma wf_list_update_fields [simp]:
  "wf_list (s\<lparr>hdrs := a\<rparr>) l xs = wf_list s l xs"
  "wf_list (s\<lparr>hc_free_count := c\<rparr>) l xs = wf_list s l xs"
  "wf_list (s\<lparr>hc_inited := b\<rparr>) l xs = wf_list s l xs"
  by (rule iffI; erule wf_list_cong; simp)+

lemma hc_init_once_frame [zv_frame]:
  "wf_list s l ys \<Longrightarrow> FreeHeaders \<notin> set (l # ys) \<Longrightarrow> wf_list (hc_init_once s) l ys"
  by (simp add: hc_init_once_def INIT_LIST_HEAD_frame)

lemma hc_inv_inited:
  "hc_inited s \<Longrightarrow> hc_inv s xs \<longleftrightarrow>
     wf_list s FreeHeaders (map HdrNode xs) \<and> hc_free_count s = length xs \<and>
     length xs \<le> ZV_HEADER_FREELIST_MAX \<and> set xs \<subseteq> dom (hdrs s) \<and>
     (\<forall>a \<in> dom (hdrs s). 1 \<le> a \<and> a < brk s) \<and> 1 \<le> brk s"
  by (simp add: hc_inv_def)

lemma hc_inv_init_once: "hc_inv (hc_init_once s) xs \<longleftrightarrow> hc_inv s xs"
  by (simp add: hc_inv_def)

lemma hc_inv_start:
  "\<not> hc_inited s \<Longrightarrow> hdrs s = Map.empty \<Longrightarrow> 1 \<le> brk s \<Longrightarrow> hc_inv s []"
  by (simp add: hc_inv_def hc_init_once_def INIT_LIST_HEAD_wf)

section \<open>What the two operations do\<close>

lemma zv_http_header_alloc_hit:
  assumes "hc_inv s (x # xs)"
  shows "\<exists>s'. zv_http_header_alloc s = (x, s') \<and> hc_inv s' xs \<and> hdrs s' = (hdrs s)(x \<mapsto> null_header)
           \<and> brk s' = brk s \<and> mallocs s' = mallocs s \<and> header_mem.more s' = header_mem.more s"
proof -
  let ?s = "hc_init_once s" and ?ns = "map HdrNode xs"
  from assms have wf: "wf_list ?s FreeHeaders (HdrNode x # ?ns)" and c: "hc_free_count ?s = Suc (length xs)"
    and x: "x \<in> dom (hdrs s)" and x0: "x \<noteq> NULL"
    by (auto simp: hc_inv_def)
  have pos: "nxt ?s FreeHeaders = HdrNode x" using fl.first_hd [OF wf] .
  have ne: "\<not> list_empty FreeHeaders ?s" using fl.empty_iff [OF wf] by simp
  define s1 where "s1 = (list_del (HdrNode x) ?s)\<lparr>hc_free_count := length xs\<rparr>"
  define s' where "s' = INIT_LIST_HEAD (HdrNode x) (s1\<lparr>hdrs := (hdrs s1)(x \<mapsto> null_header)\<rparr>)"
  have eq: "zv_http_header_alloc s = (x, s')"
    using pos ne c x0 by (simp add: zv_http_header_alloc_def hc_take_def Let_def hdr_entry_def s1_def s'_def)
  have "wf_list s1 FreeHeaders ?ns" using fl.unlink_hd [OF wf] by (simp add: s1_def)
  then have "wf_list s' FreeHeaders ?ns"
    unfolding s'_def using fl.first_not_in_rest [OF wf] by (intro INIT_LIST_HEAD_frame) auto
  with assms x have "hc_inv s' xs" by (auto simp: hc_inv_inited s'_def s1_def hc_inv_def)
  with eq show ?thesis by (simp add: s'_def s1_def)
qed

lemma zv_http_header_alloc_miss:
  assumes "hc_inv s []" and "zv_http_header_alloc s = (h, s')"
  shows "hc_inv s' [] \<and> header_mem.more s' = header_mem.more s \<and>
         (h = NULL \<and> hdrs s' = hdrs s \<or> h = brk s \<and> brk s' = Suc (brk s) \<and> hdrs s' = (hdrs s)(h \<mapsto> null_header))"
proof -
  let ?s = "hc_init_once s"
  from assms(1) have wf: "wf_list ?s FreeHeaders []" and c: "hc_free_count ?s = 0"
    and b: "1 \<le> brk s" "\<forall>a \<in> dom (hdrs s). 1 \<le> a \<and> a < brk s"
    by (auto simp: hc_inv_def)
  obtain a s1 where m: "malloc ?s = (a, s1)" by (cases "malloc ?s")
  have f: "hdrs s1 = hdrs s" "hc_free_count s1 = 0" "hc_inited s1" "header_mem.more s1 = header_mem.more s"
    using malloc_hdrs [of ?s] m c by simp_all
  from m have wf1: "wf_list s1 FreeHeaders []"
    by (cases rule: malloc_cases) (auto intro: wf_list_cong [OF wf])
  have res: "(h, s') = (if a = NULL then (NULL, s1)
      else (a, INIT_LIST_HEAD (HdrNode a) (s1\<lparr>hdrs := (hdrs s1)(a \<mapsto> null_header)\<rparr>)))"
    using assms(2) fl.empty_iff [OF wf] m by (simp add: zv_http_header_alloc_def hc_take_def)
  from m show ?thesis
  proof (cases rule: malloc_cases)
    case fail
    with res f wf1 b show ?thesis by (auto simp: hc_inv_inited)
  next
    case ok
    let ?s2 = "INIT_LIST_HEAD (HdrNode a) (s1\<lparr>hdrs := (hdrs s1)(a \<mapsto> null_header)\<rparr>)"
    have "wf_list ?s2 FreeHeaders []" by (intro INIT_LIST_HEAD_frame) (simp_all add: wf1)
    moreover have "\<forall>a' \<in> dom (hdrs s). a' < Suc (brk s)" using b by (auto simp: less_Suc_eq)
    ultimately show ?thesis using ok res f b by (auto simp: hc_inv_inited)
  qed
qed

lemma zv_http_header_free_room:
  assumes "hc_inv s xs" and "h \<notin> set xs" and "h \<in> dom (hdrs s)" and "length xs < ZV_HEADER_FREELIST_MAX"
  shows "hc_inv (zv_http_header_free h s) (h # xs)"
    and "hdrs (zv_http_header_free h s) = (hdrs s)(h \<mapsto> null_header)"
    and "header_mem.more (zv_http_header_free h s) = header_mem.more s"
proof -
  let ?s1 = "(hc_init_once s)\<lparr>hdrs := (hdrs s)(h \<mapsto> null_header)\<rparr>"
  from assms have wf: "wf_list ?s1 FreeHeaders (map HdrNode xs)" and c: "hc_free_count ?s1 = length xs"
    and h: "h \<noteq> NULL"
    by (auto simp: hc_inv_def)
  define s3 where "s3 = list_add (HdrNode h) FreeHeaders (INIT_LIST_HEAD (HdrNode h) ?s1)"
  have "wf_list s3 FreeHeaders (HdrNode h # map HdrNode xs)"
    unfolding s3_def using wf assms(2) by (intro fl.push_new) auto
  moreover have eq: "zv_http_header_free h s = s3\<lparr>hc_free_count := Suc (length xs)\<rparr>"
    using h c assms(4) by (simp add: zv_http_header_free_def Let_def s3_def)
  ultimately show "hc_inv (zv_http_header_free h s) (h # xs)"
    using assms by (auto simp: hc_inv_inited hc_inv_def s3_def)
  show "hdrs (zv_http_header_free h s) = (hdrs s)(h \<mapsto> null_header)"
    "header_mem.more (zv_http_header_free h s) = header_mem.more s"
    by (simp_all add: eq s3_def)
qed

lemma zv_http_header_free_full:
  assumes "hc_inv s xs" and "h \<notin> set xs" and "h \<noteq> NULL" and "length xs = ZV_HEADER_FREELIST_MAX"
  shows "hc_inv (zv_http_header_free h s) xs" and "hdrs (zv_http_header_free h s) = (hdrs s)(h := None)"
    and "header_mem.more (zv_http_header_free h s) = header_mem.more s"
proof -
  from assms have eq: "zv_http_header_free h s = (hc_init_once s)\<lparr>hdrs := (hdrs s)(h := None)\<rparr>"
    by (simp add: zv_http_header_free_def hc_inv_def)
  show "hc_inv (zv_http_header_free h s) xs"
    unfolding eq using assms by (auto simp: hc_inv_inited hc_inv_def)
  show "hdrs (zv_http_header_free h s) = (hdrs s)(h := None)"
    "header_mem.more (zv_http_header_free h s) = header_mem.more s"
    by (simp_all add: eq)
qed

section \<open>Lists of other nodes are left alone\<close>

lemma zv_http_header_alloc_frame [zv_frame]:
  assumes "hc_inv s xs" and "zv_http_header_alloc s = (h, s')" and "wf_list s l ys"
    and "set (l # ys) \<inter> ({FreeHeaders, HdrNode h} \<union> HdrNode ` set xs) = {}"
  shows "wf_list s' l ys"
proof -
  let ?s = "hc_init_once s"
  from assms(1) have wf: "wf_list ?s FreeHeaders (map HdrNode xs)" by (simp add: hc_inv_def)
  have l: "wf_list ?s l ys" using assms(3,4) by (intro hc_init_once_frame) auto
  define p where "p = hc_take ?s"
  have p: "wf_list (snd p) l ys"
  proof (cases xs)
    case Nil
    obtain a s1 where m: "malloc ?s = (a, s1)" by (cases "malloc ?s")
    then have "nxt s1 = nxt ?s \<and> prv s1 = prv ?s" by (cases rule: malloc_cases) auto
    with l have "wf_list s1 l ys" by (auto intro: wf_list_cong)
    with Nil m fl.empty_iff [OF wf] show ?thesis by (simp add: p_def hc_take_def)
  next
    case (Cons x zs)
    have "nxt ?s FreeHeaders = HdrNode x" using fl.first_hd wf Cons by simp
    moreover have "wf_list (list_del (HdrNode x) ?s) l ys"
      using list_del_frame [OF l, of FreeHeaders "[]" "HdrNode x" "map HdrNode zs"] wf assms(4) Cons by auto
    ultimately show ?thesis using Cons fl.empty_iff [OF wf] by (simp add: p_def hc_take_def Let_def)
  qed
  have eq: "(h, s') = (if fst p = NULL then (NULL, snd p)
      else (fst p, INIT_LIST_HEAD (HdrNode (fst p)) ((snd p)\<lparr>hdrs := (hdrs (snd p))(fst p \<mapsto> null_header)\<rparr>)))"
    using assms(2) by (cases p) (auto simp: zv_http_header_alloc_def p_def [symmetric])
  show ?thesis
  proof (cases "fst p = NULL")
    case True
    with eq p show ?thesis by simp
  next
    case False
    with eq have "h = fst p" by simp
    with False eq p assms(4) show ?thesis by (auto intro!: INIT_LIST_HEAD_frame)
  qed
qed

lemma zv_http_header_free_frame [zv_frame]:
  assumes "hc_inv s xs" and "h \<notin> set xs" and "wf_list s l ys"
    and "set (l # ys) \<inter> ({FreeHeaders, HdrNode h} \<union> HdrNode ` set xs) = {}"
  shows "wf_list (zv_http_header_free h s) l ys"
proof -
  let ?s1 = "(hc_init_once s)\<lparr>hdrs := (hdrs s)(h \<mapsto> null_header)\<rparr>"
  have l: "wf_list (hc_init_once s) l ys" using assms(3,4) by (intro hc_init_once_frame) auto
  have "wf_list (list_add (HdrNode h) FreeHeaders (INIT_LIST_HEAD (HdrNode h) ?s1)) l ys"
  proof (rule list_add_frame)
    show "wf_list (INIT_LIST_HEAD (HdrNode h) ?s1) l ys"
      using l assms(4) by (intro INIT_LIST_HEAD_frame) auto
    show "wf_list (INIT_LIST_HEAD (HdrNode h) ?s1) FreeHeaders (map HdrNode xs)"
      using assms(1,2) by (intro INIT_LIST_HEAD_frame) (auto simp: hc_inv_def)
  qed (use assms(4) in auto)
  with l assms(3) show ?thesis by (simp add: zv_http_header_free_def Let_def)
qed

interpretation hc: object_cache zv_http_header_alloc zv_http_header_free hc_inv "\<lambda>s. dom (hdrs s)"
  ZV_HEADER_FREELIST_MAX
proof (unfold_locales, goal_cases)
  case (1 s xs)
  then have "distinct (map HdrNode xs)"
    using fl.content_distinct [of "hc_init_once s" FreeHeaders "map HdrNode xs"] by (simp add: hc_inv_def)
  with 1 show ?case by (auto simp: hc_inv_def distinct_map)
next
  case (2 s x xs)
  then show ?case using zv_http_header_alloc_hit [OF 2] by (fastforce simp: hc_inv_def)
next
  case (3 s a s')
  then show ?case using zv_http_header_alloc_miss [OF 3] by (fastforce simp: hc_inv_def)
next
  case (4 s xs a)
  then show ?case using zv_http_header_free_room [of s xs a] by auto
next
  case (5 s xs a)
  then have "a \<noteq> NULL" by (auto simp: hc_inv_def)
  with 5 zv_http_header_free_full [of s xs a] show ?case by auto
qed

lemma zv_http_header_alloc_null_header:
  assumes "hc_inv s xs" and "zv_http_header_alloc s = (h, s')" and "h \<noteq> NULL"
  shows "hdrs s' = (hdrs s)(h \<mapsto> null_header)"
proof (cases xs)
  case Nil
  with assms zv_http_header_alloc_miss [of s h s'] show ?thesis by auto
next
  case (Cons x ys)
  with assms zv_http_header_alloc_hit [of s x ys] show ?thesis by auto
qed

section \<open>Properties\<close>

text \<open>
  C7. However calls of \<^verbatim>\<open>zv_http_header_alloc\<close> and \<^verbatim>\<open>zv_http_header_free\<close> alternate, with
  \<^verbatim>\<open>malloc\<close> failing at any of them, an allocated header object is never one that somebody still holds and has
  all its pointers cleared; every object that exists is either held or on the free list and not both,
  and the free list never holds more than 8192 objects.
\<close>

theorem header_cache_unique_owner:
  assumes "cache_run zv_http_header_alloc zv_http_header_free (s0, {}) (s, own)"
    and "\<not> hc_inited s0" and "hdrs s0 = Map.empty" and "1 \<le> brk s0"
    and "zv_http_header_alloc s = (h, s')"
  shows "h \<notin> own \<and> (h \<noteq> NULL \<longrightarrow> hdrs s' h = Some null_header) \<and>
         (\<exists>xs. hc_inv s xs \<and> own \<inter> set xs = {} \<and> own \<union> set xs = dom (hdrs s) \<and> length xs \<le> 8192)"
proof -
  from assms(2-4) have s0: "hc_inv s0 []" by (rule hc_inv_start)
  have d: "dom (hdrs s0) = {}" using assms(3) by simp
  note run = hc.run_unique_owner [OF assms(1) s0 d assms(5)]
  then obtain xs where xs: "hc_inv s xs" "own \<inter> set xs = {}" "own \<union> set xs = dom (hdrs s)" "length xs \<le> 8192"
    by (auto simp: ZV_HEADER_FREELIST_MAX_def)
  with zv_http_header_alloc_null_header [OF xs(1) assms(5)] run(1) show ?thesis by auto
qed

definition hc_start :: header_mem where
  "hc_start = \<lparr>nxt = id, prv = id, mallocs = [True, False], brk = 1, hdrs = Map.empty, hc_free_count = 0, hc_inited = False\<rparr>"

theorem header_cache_unique_owner_witness:
  "let (h, s1) = zv_http_header_alloc hc_start; (h', s2) = zv_http_header_alloc (zv_http_header_free h s1)
   in h = 1 \<and> h' = 1 \<and> hdrs s2 h' = Some null_header"
proof -
  obtain h s1 where a: "zv_http_header_alloc hc_start = (h, s1)" by (cases "zv_http_header_alloc hc_start")
  obtain h' s2 where b: "zv_http_header_alloc (zv_http_header_free h s1) = (h', s2)"
    by (cases "zv_http_header_alloc (zv_http_header_free h s1)")
  have start: "\<not> hc_inited hc_start" "hdrs hc_start = Map.empty" "1 \<le> brk hc_start"
    by (simp_all add: hc_start_def)
  have h: "h = 1" using a by (simp add: hc_start_def zv_http_header_alloc_def hc_take_def hc_init_once_def
      malloc_def list_ops_defs split: if_splits)
  have "cache_run zv_http_header_alloc zv_http_header_free (hc_start, {}) (hc_start, {})"
    by (rule run_none)
  from run_get [OF this a] h
  have r: "cache_run zv_http_header_alloc zv_http_header_free (hc_start, {}) (s1, {1})" by simp
  from run_put [OF r, of 1] h
  have "cache_run zv_http_header_alloc zv_http_header_free (hc_start, {}) (zv_http_header_free h s1, {})" by simp
  note u = header_cache_unique_owner [OF this start b]
  have "hc_inv hc_start []" using start by (rule hc_inv_start)
  with a h have s1: "hc_inv s1 []" "1 \<in> dom (hdrs s1)"
    using zv_http_header_alloc_miss [of hc_start h s1] by auto
  with h have "hc_inv (zv_http_header_free h s1) [1]"
    using zv_http_header_free_room(1) [of s1 "[]" 1] by (simp add: ZV_HEADER_FREELIST_MAX_def)
  with b have "h' = 1" using zv_http_header_alloc_hit [of "zv_http_header_free h s1" 1 "[]"] by auto
  with a b h u show ?thesis by simp
qed

end
