(* ===== verification/Zv_Request.thy ===== *)
theory Zv_Request
  imports Zv_Header_Cache
begin

text \<open>
  The request object \<^verbatim>\<open>zv_http_request_t\<close> of \<^verbatim>\<open>src/src/http_request.h\<close>, in the order of its
  fields. It is declared in three steps, each extending the one before (the parser's fields, the
  output fields, the CGI fields), so that an operation of one component is stated over the fields it
  uses and applies to the whole object. Pointers into the request's own buffer are offsets
  (\<^const>\<open>None\<close> is null); C's \<^verbatim>\<open>int\<close> flags that are only tested are Booleans; file descriptors and
  process ids are integers; sizes are natural numbers.
\<close>

section \<open>Constants\<close>

definition MAX_BUF :: nat where "MAX_BUF = 8124"
definition ZV_OUT_HEADER_SIZE :: nat where "ZV_OUT_HEADER_SIZE = 8192"

text \<open>\<^verbatim>\<open>EAGAIN\<close> is 11 on Linux, the only platform of the program (it needs \<^verbatim>\<open>epoll\<close>).\<close>

definition EAGAIN :: int where "EAGAIN = 11"
definition ZV_AGAIN :: int where "ZV_AGAIN = EAGAIN"
definition ZV_ERROR :: int where "ZV_ERROR = -1"
definition ZV_HTTP_PARSE_INVALID_METHOD :: int where "ZV_HTTP_PARSE_INVALID_METHOD = 10"
definition ZV_HTTP_PARSE_INVALID_REQUEST :: int where "ZV_HTTP_PARSE_INVALID_REQUEST = 11"
definition ZV_HTTP_PARSE_INVALID_HEADER :: int where "ZV_HTTP_PARSE_INVALID_HEADER = 12"
definition ZV_HTTP_OK :: int where "ZV_HTTP_OK = 200"
definition ZV_HTTP_NOT_MODIFIED :: int where "ZV_HTTP_NOT_MODIFIED = 304"
definition ZV_HTTP_NOT_FOUND :: int where "ZV_HTTP_NOT_FOUND = 404"

section \<open>The request object\<close>

datatype http_method = ZV_HTTP_UNKNOWN | ZV_HTTP_GET | ZV_HTTP_HEAD | ZV_HTTP_POST

text \<open>The states of the two parsers (the local enums of \<^verbatim>\<open>src/src/http_parse.c\<close>).\<close>

datatype rl_state =
  rl_start | rl_method | rl_spaces_before_uri | rl_after_slash_in_uri | rl_http | rl_http_H
| rl_http_HT | rl_http_HTT | rl_http_HTTP | rl_first_major_digit | rl_major_digit
| rl_first_minor_digit | rl_minor_digit | rl_spaces_after_digit | rl_almost_done

datatype hd_state =
  hd_start | hd_key | hd_spaces_before_colon | hd_spaces_after_colon | hd_value | hd_cr | hd_crlf | hd_crlfcr

text \<open>\<^verbatim>\<open>src/src/ep_item.h\<close>: what an epoll registration points to.\<close>

datatype zv_ep_kind = ZV_EP_KIND_LISTEN | ZV_EP_KIND_CONN | ZV_EP_KIND_CGI_OUT | ZV_EP_KIND_CGI_IN

record zv_ep_item =
  it_kind :: zv_ep_kind
  it_fd :: int
  it_r :: addr

record zv_req_parse =
  r_root :: "string option"
  r_fd :: int
  r_epfd :: int
  r_buf :: "char list"
  r_last :: nat
  r_parse_pos :: nat
  r_request_line_state :: rl_state
  r_header_state :: hd_state
  r_parse_phase :: nat
  r_request_start :: "nat option"
  r_method_end :: "nat option"
  r_method :: http_method
  r_uri_start :: "nat option"
  r_uri_end :: "nat option"
  r_path_start :: "nat option"
  r_path_end :: "nat option"
  r_query_start :: "nat option"
  r_query_end :: "nat option"
  r_http_major :: u32
  r_http_minor :: u32
  r_request_end :: "nat option"
  r_cur_header_key_start :: "nat option"
  r_cur_header_key_end :: "nat option"
  r_cur_header_value_start :: "nat option"
  r_cur_header_value_end :: "nat option"

record zv_req_out = zv_req_parse +
  r_timer :: addr
  r_keep_alive_timeout_ms :: u64
  r_request_timeout_ms :: u64
  r_keep_alive :: bool
  r_writing :: bool
  r_out_header :: "char list"
  r_out_header_len :: nat
  r_out_header_sent :: nat
  r_out_body :: "char list option"
  r_out_body_len :: nat
  r_out_body_sent :: nat
  r_out_file_fd :: int
  r_out_file_offset :: nat
  r_out_file_size :: nat

record zv_http_request = zv_req_out +
  r_conn_item :: "zv_ep_item option"
  r_cgi_out_item :: "zv_ep_item option"
  r_cgi_in_item :: "zv_ep_item option"
  r_cgi_active :: bool
  r_cgi_pid :: int
  r_cgi_in_fd :: int
  r_cgi_out_fd :: int
  r_cgi_eof :: bool
  r_cgi_out_total :: nat
  r_cgi_out_limit :: nat
  r_cgi_headers_done :: bool
  r_cgi_hdr_buf :: "char list"
  r_cgi_hdr_len :: nat
  r_cgi_http_header :: "char list"
  r_cgi_http_header_len :: nat
  r_cgi_http_header_sent :: nat
  r_cgi_chunk_prefix :: "char list"
  r_cgi_chunk_prefix_len :: nat
  r_cgi_chunk_prefix_sent :: nat
  r_cgi_chunk_suffix_sent :: nat
  r_cgi_final_chunk :: "char list"
  r_cgi_final_chunk_len :: nat
  r_cgi_final_chunk_sent :: nat
  r_cgi_body_buf :: "char list"
  r_cgi_body_len :: nat
  r_cgi_body_sent :: nat

end
