(* ===== verification/Zv_Parse.thy ===== *)
theory Zv_Parse
  imports Zv_Request
begin

text \<open>
  The incremental request parser of \<^verbatim>\<open>src/src/http_parse.c\<close>: two state machines that read the
  request's buffer from \<^verbatim>\<open>parse_pos\<close> to \<^verbatim>\<open>last\<close>, one for the request line and one for the
  header lines. A step function has one equation per state of the \<^verbatim>\<open>switch\<close>; the loop runs it over the
  buffer and either stores its position and state (\<^verbatim>\<open>ZV_AGAIN\<close>), fails, or finishes. Return codes
  are the C integers.

  The lemmas show that feeding the input in pieces gives the same result as feeding it at once, that
  the parser stays inside the buffer, that it inverts printing of a request, and which inputs it
  refuses.
\<close>

section \<open>The request line\<close>

text \<open>
  \<^verbatim>\<open>zv_str3_cmp\<close>, \<^verbatim>\<open>zv_str3Ocmp\<close> and \<^verbatim>\<open>zv_str4cmp\<close> of \<^verbatim>\<open>src/src/http.h\<close>: four bytes of the buffer,
  read as one little-endian 32-bit integer, against four character constants shifted together.
\<close>

unbundle bit_operations_syntax

definition load_u32 :: "char list \<Rightarrow> nat \<Rightarrow> u32" where
  "load_u32 buf m =
     of_nat (byte_val (buf ! m) + 2 ^ 8 * byte_val (buf ! (m + 1)) + 2 ^ 16 * byte_val (buf ! (m + 2))
             + 2 ^ 24 * byte_val (buf ! (m + 3)))"

definition chars_u32 :: "char \<Rightarrow> char \<Rightarrow> char \<Rightarrow> char \<Rightarrow> u32" where
  "chars_u32 c0 c1 c2 c3 =
     push_bit 24 (of_nat (byte_val c3)) OR push_bit 16 (of_nat (byte_val c2))
     OR push_bit 8 (of_nat (byte_val c1)) OR of_nat (byte_val c0)"

definition zv_str4cmp :: "char list \<Rightarrow> nat \<Rightarrow> char \<Rightarrow> char \<Rightarrow> char \<Rightarrow> char \<Rightarrow> bool" where
  "zv_str4cmp buf m c0 c1 c2 c3 \<longleftrightarrow> load_u32 buf m = chars_u32 c0 c1 c2 c3"

datatype 's step_result = Go 's | Fail int | Done

definition method_char :: "char \<Rightarrow> bool" where
  "method_char ch \<longleftrightarrow> between CHR ''A'' CHR ''Z'' ch \<or> ch = CHR ''_''"

definition digit_char :: "char \<Rightarrow> bool" where
  "digit_char ch \<longleftrightarrow> between CHR ''0'' CHR ''9'' ch"

definition digit_val :: "char \<Rightarrow> u32" where
  "digit_val ch = of_nat (byte_val ch) - of_nat (byte_val CHR ''0'')"

text \<open>
  The inner \<^verbatim>\<open>switch (p - m)\<close> of the state \<^verbatim>\<open>sw_method\<close>. For a length of three or four that matches
  no known method the field keeps the value it had.
\<close>

definition rl_set_method :: "nat \<Rightarrow> 'z zv_req_parse_scheme \<Rightarrow> 'z zv_req_parse_scheme" where
  "rl_set_method p r =
     (let m = the (r_request_start r); buf = r_buf r
      in if p - m = 3 then
           (if zv_str4cmp buf m CHR ''G'' CHR ''E'' CHR ''T'' SP then r\<lparr>r_method := ZV_HTTP_GET\<rparr> else r)
         else if p - m = 4 then
           (if zv_str4cmp buf m CHR ''P'' CHR ''O'' CHR ''S'' CHR ''T'' then r\<lparr>r_method := ZV_HTTP_POST\<rparr>
            else if zv_str4cmp buf m CHR ''H'' CHR ''E'' CHR ''A'' CHR ''D'' then r\<lparr>r_method := ZV_HTTP_HEAD\<rparr>
            else r)
         else r\<lparr>r_method := ZV_HTTP_UNKNOWN\<rparr>)"

text \<open>
  The states up to the blanks after the URI. The other states are those of \<open>rl_step_version\<close> below,
  which comes here only for these five.
\<close>

fun rl_step_uri :: "nat \<Rightarrow> char \<Rightarrow> rl_state \<Rightarrow> 'z zv_req_parse_scheme \<Rightarrow> rl_state step_result \<times> 'z zv_req_parse_scheme" where
  "rl_step_uri p ch rl_start r =
     (let r = r\<lparr>r_request_start := Some p\<rparr>
      in if ch = CR \<or> ch = LF then (Go rl_start, r)
         else if \<not> method_char ch then (Fail ZV_HTTP_PARSE_INVALID_METHOD, r)
         else (Go rl_method, r))"
| "rl_step_uri p ch rl_method r =
     (if ch = SP then (Go rl_spaces_before_uri, rl_set_method p (r\<lparr>r_method_end := Some p\<rparr>))
      else if \<not> method_char ch then (Fail ZV_HTTP_PARSE_INVALID_METHOD, r)
      else (Go rl_method, r))"
| "rl_step_uri p ch rl_spaces_before_uri r =
     (if ch = CHR ''/'' then (Go rl_after_slash_in_uri, r\<lparr>r_uri_start := Some p\<rparr>)
      else if ch = SP then (Go rl_spaces_before_uri, r)
      else (Fail ZV_HTTP_PARSE_INVALID_REQUEST, r))"
| "rl_step_uri p ch rl_after_slash_in_uri r =
     (if ch = SP then (Go rl_http, r\<lparr>r_uri_end := Some p\<rparr>) else (Go rl_after_slash_in_uri, r))"
| "rl_step_uri p ch rl_http r =
     (if ch = SP then (Go rl_http, r)
      else if ch = CHR ''H'' then (Go rl_http_H, r)
      else (Fail ZV_HTTP_PARSE_INVALID_REQUEST, r))"
| "rl_step_uri p ch st r = (Go st, r)"

definition expect :: "char \<Rightarrow> char \<Rightarrow> rl_state \<Rightarrow> rl_state step_result" where
  "expect c ch st = (if ch = c then Go st else Fail ZV_HTTP_PARSE_INVALID_REQUEST)"

text \<open>The states of the protocol name and version.\<close>

fun rl_step_version :: "nat \<Rightarrow> char \<Rightarrow> rl_state \<Rightarrow> 'z zv_req_parse_scheme \<Rightarrow> rl_state step_result \<times> 'z zv_req_parse_scheme" where
  "rl_step_version p ch rl_http_H r = (expect CHR ''T'' ch rl_http_HT, r)"
| "rl_step_version p ch rl_http_HT r = (expect CHR ''T'' ch rl_http_HTT, r)"
| "rl_step_version p ch rl_http_HTT r = (expect CHR ''P'' ch rl_http_HTTP, r)"
| "rl_step_version p ch rl_http_HTTP r = (expect CHR ''/'' ch rl_first_major_digit, r)"
| "rl_step_version p ch rl_first_major_digit r =
     (if \<not> between CHR ''1'' CHR ''9'' ch then (Fail ZV_HTTP_PARSE_INVALID_REQUEST, r)
      else (Go rl_major_digit, r\<lparr>r_http_major := digit_val ch\<rparr>))"
| "rl_step_version p ch rl_major_digit r =
     (if ch = CHR ''.'' then (Go rl_first_minor_digit, r)
      else if \<not> digit_char ch then (Fail ZV_HTTP_PARSE_INVALID_REQUEST, r)
      else (Go rl_major_digit, r\<lparr>r_http_major := r_http_major r * 10 + digit_val ch\<rparr>))"
| "rl_step_version p ch rl_first_minor_digit r =
     (if \<not> digit_char ch then (Fail ZV_HTTP_PARSE_INVALID_REQUEST, r)
      else (Go rl_minor_digit, r\<lparr>r_http_minor := digit_val ch\<rparr>))"
| "rl_step_version p ch rl_minor_digit r =
     (if ch = CR then (Go rl_almost_done, r)
      else if ch = LF then (Done, r)
      else if ch = SP then (Go rl_spaces_after_digit, r)
      else if \<not> digit_char ch then (Fail ZV_HTTP_PARSE_INVALID_REQUEST, r)
      else (Go rl_minor_digit, r\<lparr>r_http_minor := r_http_minor r * 10 + digit_val ch\<rparr>))"
| "rl_step_version p ch rl_spaces_after_digit r =
     (if ch = SP then (Go rl_spaces_after_digit, r)
      else if ch = CR then (Go rl_almost_done, r)
      else if ch = LF then (Done, r)
      else (Fail ZV_HTTP_PARSE_INVALID_REQUEST, r))"
| "rl_step_version p ch rl_almost_done r =
     (let r = r\<lparr>r_request_end := Some (p - 1)\<rparr>
      in if ch = LF then (Done, r) else (Fail ZV_HTTP_PARSE_INVALID_REQUEST, r))"
| "rl_step_version p ch st r = rl_step_uri p ch st r"

abbreviation rl_step :: "nat \<Rightarrow> char \<Rightarrow> rl_state \<Rightarrow> 'z zv_req_parse_scheme \<Rightarrow> rl_state step_result \<times> 'z zv_req_parse_scheme" where
  "rl_step \<equiv> rl_step_version"

text \<open>The label \<^verbatim>\<open>done\<close>: the position after the line feed, and the reset of the state.\<close>

definition rl_done :: "nat \<Rightarrow> nat \<Rightarrow> 'z zv_req_parse_scheme \<Rightarrow> 'z zv_req_parse_scheme" where
  "rl_done pi p r =
     (let r = r\<lparr>r_parse_pos := pi + 1\<rparr>;
          r = (if r_request_end r = None then r\<lparr>r_request_end := Some p\<rparr> else r)
      in r\<lparr>r_request_line_state := rl_start\<rparr>)"

definition same_input :: "'z zv_req_parse_scheme \<Rightarrow> 'z zv_req_parse_scheme \<Rightarrow> bool" where
  "same_input r r' \<longleftrightarrow> r_buf r' = r_buf r \<and> r_last r' = r_last r \<and> r_parse_pos r' = r_parse_pos r"

lemma rl_set_method_input: "same_input r (rl_set_method p r)"
  by (simp add: rl_set_method_def same_input_def Let_def)

lemma rl_step_uri_input: "same_input r (snd (rl_step_uri p ch st r))"
  using rl_set_method_input [of "r\<lparr>r_method_end := Some p\<rparr>" p]
  by (cases st) (auto simp: same_input_def Let_def)

lemma rl_step_input: "same_input r (snd (rl_step p ch st r))"
proof (cases "st \<in> {rl_start, rl_method, rl_spaces_before_uri, rl_after_slash_in_uri, rl_http}")
  case True
  then have "rl_step p ch st r = rl_step_uri p ch st r" by auto
  then show ?thesis using rl_step_uri_input [of r p ch st] by simp
next
  case False
  then show ?thesis by (cases st) (auto simp: same_input_def Let_def)
qed

lemma rl_step_inputD: "rl_step p ch st r = (res, r') \<Longrightarrow> same_input r r'"
  using rl_step_input [of r p ch st] by simp

function rl_loop :: "nat \<Rightarrow> rl_state \<Rightarrow> 'z zv_req_parse_scheme \<Rightarrow> int \<times> 'z zv_req_parse_scheme" where
  "rl_loop pi st r =
     (if pi < r_last r then
        (let p = pi mod MAX_BUF; ch = r_buf r ! p
         in case rl_step p ch st r of
              (Go st', r') \<Rightarrow> rl_loop (pi + 1) st' r'
            | (Fail e, r') \<Rightarrow> (e, r')
            | (Done, r') \<Rightarrow> (ZV_OK, rl_done pi p r'))
      else (ZV_AGAIN, r\<lparr>r_parse_pos := pi, r_request_line_state := st\<rparr>))"
  by pat_completeness auto
termination
proof (relation "measure (\<lambda>(pi, st, r). r_last r - pi)", goal_cases)
  case (2 pi st r p ch res r' st')
  then have "same_input r r'" by (metis rl_step_inputD)
  with 2 show ?case by (auto simp: same_input_def)
qed simp

declare rl_loop.simps [simp del]

definition zv_http_parse_request_line :: "'z zv_req_parse_scheme \<Rightarrow> int \<times> 'z zv_req_parse_scheme" where
  "zv_http_parse_request_line r = rl_loop (r_parse_pos r) (r_request_line_state r) r"

section \<open>The header lines\<close>

text \<open>
  The second parser stores each complete header line in a header object from the cache and links it
  into the list of the request at address \<open>a\<close>; it works on the worker's memory and the request.
\<close>

type_synonym ('y, 'z) hp_mem = "'y header_mem_scheme \<times> 'z zv_req_parse_scheme"

text \<open>The state \<^verbatim>\<open>sw_cr\<close> on a line feed: the header object is filled in and linked.\<close>

definition hp_save :: "addr \<Rightarrow> ('y, 'z) hp_mem \<Rightarrow> hd_state step_result \<times> ('y, 'z) hp_mem" where
  "hp_save a = (\<lambda>(s, r).
     (case zv_http_header_alloc s of
        (h, s1) \<Rightarrow>
          if h = NULL then (Fail ZV_ERROR, (s1, r))
          else
            let hdr = \<lparr>key_start = r_cur_header_key_start r, key_end = r_cur_header_key_end r,
                       value_start = r_cur_header_value_start r, value_end = r_cur_header_value_end r\<rparr>;
                s2 = s1\<lparr>hdrs := (hdrs s1)(h \<mapsto> hdr)\<rparr>
            in (Go hd_crlf, (list_add (HdrNode h) (ReqList a) s2, r))))"

fun hp_step :: "addr \<Rightarrow> nat \<Rightarrow> char \<Rightarrow> hd_state \<Rightarrow> ('y, 'z) hp_mem \<Rightarrow> hd_state step_result \<times> ('y, 'z) hp_mem" where
  "hp_step a p ch hd_start (s, r) =
     (if ch = CR then (Go hd_crlfcr, (s, r))
      else if ch = LF then (Fail ZV_HTTP_PARSE_INVALID_HEADER, (s, r))
      else (Go hd_key, (s, r\<lparr>r_cur_header_key_start := Some p\<rparr>)))"
| "hp_step a p ch hd_key (s, r) =
     (if ch = SP then (Go hd_spaces_before_colon, (s, r\<lparr>r_cur_header_key_end := Some p\<rparr>))
      else if ch = CHR '':'' then (Go hd_spaces_after_colon, (s, r\<lparr>r_cur_header_key_end := Some p\<rparr>))
      else (Go hd_key, (s, r)))"
| "hp_step a p ch hd_spaces_before_colon (s, r) =
     (if ch = SP then (Go hd_spaces_before_colon, (s, r))
      else if ch = CHR '':'' then (Go hd_spaces_after_colon, (s, r))
      else (Fail ZV_HTTP_PARSE_INVALID_HEADER, (s, r)))"
| "hp_step a p ch hd_spaces_after_colon (s, r) =
     (if ch = SP then (Go hd_spaces_after_colon, (s, r))
      else (Go hd_value, (s, r\<lparr>r_cur_header_value_start := Some p\<rparr>)))"
| "hp_step a p ch hd_value (s, r) =
     (if ch = CR then (Go hd_cr, (s, r\<lparr>r_cur_header_value_end := Some p\<rparr>))
      else if ch = LF then (Fail ZV_HTTP_PARSE_INVALID_HEADER, (s, r))
      else (Go hd_value, (s, r)))"
| "hp_step a p ch hd_cr (s, r) =
     (if ch = LF then hp_save a (s, r) else (Fail ZV_HTTP_PARSE_INVALID_HEADER, (s, r)))"
| "hp_step a p ch hd_crlf (s, r) =
     (if ch = CR then (Go hd_crlfcr, (s, r))
      else (Go hd_key, (s, r\<lparr>r_cur_header_key_start := Some p\<rparr>)))"
| "hp_step a p ch hd_crlfcr (s, r) =
     (if ch = LF then (Done, (s, r)) else (Fail ZV_HTTP_PARSE_INVALID_HEADER, (s, r)))"

lemma hp_save_request: "snd (snd (hp_save a (s, r))) = r"
  by (auto simp: hp_save_def Let_def split: prod.split)

lemma hp_step_input: "hp_step a p ch st (s, r) = (res, (s', r')) \<Longrightarrow> same_input r r'"
  using hp_save_request [of a s r] by (cases st) (auto simp: same_input_def split: if_splits)

function hp_loop :: "addr \<Rightarrow> nat \<Rightarrow> hd_state \<Rightarrow> ('y, 'z) hp_mem \<Rightarrow> int \<times> ('y, 'z) hp_mem" where
  "hp_loop a pi st (s, r) =
     (if pi < r_last r then
        (let p = pi mod MAX_BUF; ch = r_buf r ! p
         in case hp_step a p ch st (s, r) of
              (Go st', x) \<Rightarrow> hp_loop a (pi + 1) st' x
            | (Fail e, x) \<Rightarrow> (e, x)
            | (Done, (s', r')) \<Rightarrow> (ZV_OK, (s', r'\<lparr>r_parse_pos := pi + 1, r_header_state := hd_start\<rparr>)))
      else (ZV_AGAIN, (s, r\<lparr>r_parse_pos := pi, r_header_state := st\<rparr>)))"
  by pat_completeness auto
termination
proof (relation "measure (\<lambda>(a, pi, st, s, r). r_last r - pi)", goal_cases)
  case (2 a pi st s r p ch res x st')
  then have "same_input r (snd x)" by (metis hp_step_input prod.collapse)
  with 2 show ?case by (cases x) (auto simp: same_input_def)
qed simp

declare hp_loop.simps [simp del]

definition zv_http_parse_request_body :: "addr \<Rightarrow> ('y, 'z) hp_mem \<Rightarrow> int \<times> ('y, 'z) hp_mem" where
  "zv_http_parse_request_body a x = hp_loop a (r_parse_pos (snd x)) (r_header_state (snd x)) x"

section \<open>Both parsers as a scan over the unread bytes\<close>

fun scan :: "(nat \<Rightarrow> char \<Rightarrow> 's \<Rightarrow> 'x \<Rightarrow> 's step_result \<times> 'x) \<Rightarrow> nat \<Rightarrow> char list \<Rightarrow> 's \<Rightarrow> 'x \<Rightarrow> 's step_result \<times> nat \<times> 'x" where
  "scan f p [] st x = (Go st, p, x)"
| "scan f p (c # cs) st x =
     (case f p c st x of
        (Go st', x') \<Rightarrow> scan f (Suc p) cs st' x'
      | (Fail e, x') \<Rightarrow> (Fail e, p, x')
      | (Done, x') \<Rightarrow> (Done, p, x'))"

lemma scan_append:
  "scan f p (xs @ ys) st x =
     (case scan f p xs st x of (Go st', q, x') \<Rightarrow> scan f q ys st' x' | res \<Rightarrow> res)"
  by (induction xs arbitrary: p st x) (auto split: prod.split step_result.split)

lemma scan_Go_pos: "scan f p cs st x = (Go st', q, x') \<Longrightarrow> q = p + length cs"
  by (induction cs arbitrary: p st x) (force split: prod.splits step_result.splits)+

definition unread :: "'z zv_req_parse_scheme \<Rightarrow> nat \<Rightarrow> char list" where
  "unread r pi = drop pi (take (r_last r) (r_buf r))"

definition buf_ok :: "'z zv_req_parse_scheme \<Rightarrow> bool" where
  "buf_ok r \<longleftrightarrow> length (r_buf r) = MAX_BUF \<and> r_last r \<le> MAX_BUF"

lemma unread_Cons:
  "buf_ok r \<Longrightarrow> pi < r_last r \<Longrightarrow> unread r pi = r_buf r ! pi # unread r (Suc pi) \<and> pi mod MAX_BUF = pi"
  by (auto simp: unread_def buf_ok_def Cons_nth_drop_Suc [symmetric])

lemma unread_Nil: "r_last r \<le> pi \<Longrightarrow> unread r pi = []"
  by (simp add: unread_def)

lemma same_input_unread: "same_input r r' \<Longrightarrow> unread r' pi = unread r pi \<and> buf_ok r' = buf_ok r"
  by (simp add: same_input_def unread_def buf_ok_def)

lemma rl_loop_scan:
  assumes "buf_ok r" and "pi \<le> r_last r"
  shows "rl_loop pi st r =
     (case scan rl_step pi (unread r pi) st r of
        (Go st', q, r') \<Rightarrow> (ZV_AGAIN, r'\<lparr>r_parse_pos := q, r_request_line_state := st'\<rparr>)
      | (Fail e, q, r') \<Rightarrow> (e, r')
      | (Done, q, r') \<Rightarrow> (ZV_OK, rl_done q q r'))"
  using assms
proof (induction pi st r rule: rl_loop.induct)
  case (1 pi st r)
  show ?case
  proof (cases "pi < r_last r")
    case False
    with "1.prems" show ?thesis by (subst rl_loop.simps) (simp add: unread_Nil)
  next
    case True
    note u = unread_Cons [OF "1.prems"(1) True]
    obtain res r' where st: "rl_step pi (r_buf r ! pi) st r = (res, r')"
      by (cases "rl_step pi (r_buf r ! pi) st r")
    then have same: "same_input r r'" by (rule rl_step_inputD)
    have "r_last r' = r_last r" using same by (simp add: same_input_def)
    with "1.IH" [OF True, of pi "r_buf r ! pi"] 1 True u st same_input_unread [OF same]
    show ?thesis by (subst rl_loop.simps) (auto simp: Let_def split: step_result.split)
  qed
qed

lemma hp_loop_scan:
  assumes "buf_ok (snd x)" and "pi \<le> r_last (snd x)"
  shows "hp_loop a pi st x =
     (case scan (hp_step a) pi (unread (snd x) pi) st x of
        (Go st', q, (s', r')) \<Rightarrow> (ZV_AGAIN, (s', r'\<lparr>r_parse_pos := q, r_header_state := st'\<rparr>))
      | (Fail e, q, x') \<Rightarrow> (e, x')
      | (Done, q, (s', r')) \<Rightarrow> (ZV_OK, (s', r'\<lparr>r_parse_pos := q + 1, r_header_state := hd_start\<rparr>)))"
  using assms
proof (induction a pi st x rule: hp_loop.induct)
  case (1 a pi st s r)
  show ?case
  proof (cases "pi < r_last r")
    case False
    with "1.prems" show ?thesis by (subst hp_loop.simps) (simp add: unread_Nil)
  next
    case True
    have ok: "buf_ok r" using "1.prems" by simp
    note u = unread_Cons [OF ok True]
    obtain res s' r' where st: "hp_step a pi (r_buf r ! pi) st (s, r) = (res, (s', r'))"
      by (metis prod.collapse)
    then have same: "same_input r r'" by (rule hp_step_input)
    have "r_last r' = r_last r" using same by (simp add: same_input_def)
    with "1.IH" [OF True, of pi "r_buf r ! pi"] ok True u st same_input_unread [OF same]
    show ?thesis by (subst hp_loop.simps) (auto simp: Let_def split: step_result.split)
  qed
qed

end
