(* ===== verification/Zv_Parse_Line.thy ===== *)
theory Zv_Parse_Line
  imports Zv_Parse
begin

text \<open>
  What the request-line parser of \<open>Zv_Parse\<close> computes: the 32-bit comparison of method names is string
  comparison, feeding the bytes in pieces gives the result of feeding them at once, an accepted line
  has the shape of a request line and its recorded positions delimit its parts, and a printed request
  line is accepted.
\<close>

unbundle bit_operations_syntax

section \<open>The four-byte comparison\<close>

lemma or_shifted_add:
  fixes x y :: nat
  assumes "x < 2 ^ n"
  shows "push_bit n y OR x = 2 ^ n * y + x"
proof -
  have x: "take_bit n x = x" using assms by (rule take_bit_nat_eq_self)
  have "push_bit n y AND take_bit n x = 0" by (rule bit_eqI) (auto simp: bit_simps)
  then show ?thesis by (simp add: x disjunctive_add_eq_or [symmetric] push_bit_eq_mult mult.commute)
qed

lemma low_byte_inject:
  assumes "(a::nat) + 256 * x = b + 256 * y" and "a < 256" and "b < 256"
  shows "a = b \<and> x = y"
proof -
  have "(a + 256 * x) mod 256 = (b + 256 * y) mod 256" by (simp add: assms(1))
  then have "a = b" using assms(2,3) by simp
  with assms(1) show ?thesis by simp
qed

lemma four_bytes_inject:
  fixes a b c d a' b' c' d' :: nat
  assumes "a + 2 ^ 8 * b + 2 ^ 16 * c + 2 ^ 24 * d = a' + 2 ^ 8 * b' + 2 ^ 16 * c' + 2 ^ 24 * d'"
    and "a < 256" "b < 256" "c < 256" "a' < 256" "b' < 256" "c' < 256"
  shows "a = a' \<and> b = b' \<and> c = c' \<and> d = d'"
  using low_byte_inject [of a "b + 256 * (c + 256 * d)" a' "b' + 256 * (c' + 256 * d')"]
    low_byte_inject [of b "c + 256 * d" b' "c' + 256 * d'"] low_byte_inject [of c d c' d'] assms
  by simp

lemma chars_u32_value:
  "chars_u32 c0 c1 c2 c3 =
     of_nat (byte_val c0 + 2 ^ 8 * byte_val c1 + 2 ^ 16 * byte_val c2 + 2 ^ 24 * byte_val c3)"
proof -
  have lt: "byte_val c0 + 2 ^ 8 * byte_val c1 < 2 ^ 16"
    "byte_val c0 + 2 ^ 8 * byte_val c1 + 2 ^ 16 * byte_val c2 < 2 ^ 24" "byte_val c0 < 2 ^ 8"
    using byte_val_less_256 [of c0] byte_val_less_256 [of c1] byte_val_less_256 [of c2]
    by (simp_all del: byte_val_less_256)
  have "chars_u32 c0 c1 c2 c3 =
      of_nat (push_bit 24 (byte_val c3) OR (push_bit 16 (byte_val c2) OR (push_bit 8 (byte_val c1) OR byte_val c0)))"
    by (simp add: chars_u32_def of_nat_or_eq of_nat_push_bit or.assoc)
  also have "push_bit 24 (byte_val c3) OR (push_bit 16 (byte_val c2) OR (push_bit 8 (byte_val c1) OR byte_val c0))
      = byte_val c0 + 2 ^ 8 * byte_val c1 + 2 ^ 16 * byte_val c2 + 2 ^ 24 * byte_val c3"
    using lt by (simp add: or_shifted_add add.commute)
  finally show ?thesis .
qed

lemma of_nat_u32_inject: "a < 2 ^ 32 \<Longrightarrow> b < 2 ^ 32 \<Longrightarrow> (of_nat a :: u32) = of_nat b \<longleftrightarrow> a = b"
  by (simp add: word_of_nat_eq_iff take_bit_nat_eq_self)

lemma zv_str4cmp_iff:
  "zv_str4cmp buf m c0 c1 c2 c3 \<longleftrightarrow>
     buf ! m = c0 \<and> buf ! (m + 1) = c1 \<and> buf ! (m + 2) = c2 \<and> buf ! (m + 3) = c3"
proof -
  have lt: "byte_val a + 2 ^ 8 * byte_val b + 2 ^ 16 * byte_val c + 2 ^ 24 * byte_val d < 2 ^ 32" for a b c d
    using byte_val_less_256 [of a] byte_val_less_256 [of b] byte_val_less_256 [of c] byte_val_less_256 [of d]
    by (simp del: byte_val_less_256)
  have eq: "zv_str4cmp buf m c0 c1 c2 c3 \<longleftrightarrow>
      byte_val (buf ! m) + 2 ^ 8 * byte_val (buf ! (m + 1)) + 2 ^ 16 * byte_val (buf ! (m + 2)) + 2 ^ 24 * byte_val (buf ! (m + 3))
      = byte_val c0 + 2 ^ 8 * byte_val c1 + 2 ^ 16 * byte_val c2 + 2 ^ 24 * byte_val c3"
    unfolding zv_str4cmp_def load_u32_def chars_u32_value using lt by (intro of_nat_u32_inject) auto
  show ?thesis
    using four_bytes_inject [of "byte_val (buf ! m)" "byte_val (buf ! (m + 1))" "byte_val (buf ! (m + 2))"
        "byte_val (buf ! (m + 3))" "byte_val c0" "byte_val c1" "byte_val c2" "byte_val c3"]
    unfolding eq by auto
qed

section \<open>Feeding the input in pieces\<close>

text \<open>
  \<open>feed b l r\<close> is the request after more bytes were read: the buffer now holds \<open>b\<close> with \<open>l\<close> bytes of
  it valid; \<open>extends b l r\<close> says that they continue what was there.
\<close>

definition feed :: "char list \<Rightarrow> nat \<Rightarrow> 'z zv_req_parse_scheme \<Rightarrow> 'z zv_req_parse_scheme" where
  "feed b l r = r\<lparr>r_buf := b, r_last := l\<rparr>"

definition extends :: "char list \<Rightarrow> nat \<Rightarrow> 'z zv_req_parse_scheme \<Rightarrow> bool" where
  "extends b l r \<longleftrightarrow> length b = MAX_BUF \<and> r_last r \<le> l \<and> l \<le> MAX_BUF \<and> take (r_last r) b = take (r_last r) (r_buf r)"

lemma feed_upd:
  "(feed b l r)\<lparr>r_request_line_state := v_request_line_state\<rparr> = feed b l (r\<lparr>r_request_line_state := v_request_line_state\<rparr>)"
  "(feed b l r)\<lparr>r_parse_pos := v_parse_pos\<rparr> = feed b l (r\<lparr>r_parse_pos := v_parse_pos\<rparr>)"
  "(feed b l r)\<lparr>r_header_state := v_header_state\<rparr> = feed b l (r\<lparr>r_header_state := v_header_state\<rparr>)"
  "(feed b l r)\<lparr>r_parse_phase := v_parse_phase\<rparr> = feed b l (r\<lparr>r_parse_phase := v_parse_phase\<rparr>)"
  "(feed b l r)\<lparr>r_request_start := v_request_start\<rparr> = feed b l (r\<lparr>r_request_start := v_request_start\<rparr>)"
  "(feed b l r)\<lparr>r_method_end := v_method_end\<rparr> = feed b l (r\<lparr>r_method_end := v_method_end\<rparr>)"
  "(feed b l r)\<lparr>r_method := v_method\<rparr> = feed b l (r\<lparr>r_method := v_method\<rparr>)"
  "(feed b l r)\<lparr>r_uri_start := v_uri_start\<rparr> = feed b l (r\<lparr>r_uri_start := v_uri_start\<rparr>)"
  "(feed b l r)\<lparr>r_uri_end := v_uri_end\<rparr> = feed b l (r\<lparr>r_uri_end := v_uri_end\<rparr>)"
  "(feed b l r)\<lparr>r_http_major := v_http_major\<rparr> = feed b l (r\<lparr>r_http_major := v_http_major\<rparr>)"
  "(feed b l r)\<lparr>r_http_minor := v_http_minor\<rparr> = feed b l (r\<lparr>r_http_minor := v_http_minor\<rparr>)"
  "(feed b l r)\<lparr>r_request_end := v_request_end\<rparr> = feed b l (r\<lparr>r_request_end := v_request_end\<rparr>)"
  "(feed b l r)\<lparr>r_cur_header_key_start := v_cur_header_key_start\<rparr> = feed b l (r\<lparr>r_cur_header_key_start := v_cur_header_key_start\<rparr>)"
  "(feed b l r)\<lparr>r_cur_header_key_end := v_cur_header_key_end\<rparr> = feed b l (r\<lparr>r_cur_header_key_end := v_cur_header_key_end\<rparr>)"
  "(feed b l r)\<lparr>r_cur_header_value_start := v_cur_header_value_start\<rparr> = feed b l (r\<lparr>r_cur_header_value_start := v_cur_header_value_start\<rparr>)"
  "(feed b l r)\<lparr>r_cur_header_value_end := v_cur_header_value_end\<rparr> = feed b l (r\<lparr>r_cur_header_value_end := v_cur_header_value_end\<rparr>)"
  by (cases r; simp add: feed_def)+

lemma feed_sel [simp]:
  "r_request_line_state (feed b l r) = r_request_line_state r"
  "r_parse_pos (feed b l r) = r_parse_pos r"
  "r_header_state (feed b l r) = r_header_state r"
  "r_parse_phase (feed b l r) = r_parse_phase r"
  "r_request_start (feed b l r) = r_request_start r"
  "r_method_end (feed b l r) = r_method_end r"
  "r_method (feed b l r) = r_method r"
  "r_uri_start (feed b l r) = r_uri_start r"
  "r_uri_end (feed b l r) = r_uri_end r"
  "r_http_major (feed b l r) = r_http_major r"
  "r_http_minor (feed b l r) = r_http_minor r"
  "r_request_end (feed b l r) = r_request_end r"
  "r_cur_header_key_start (feed b l r) = r_cur_header_key_start r"
  "r_cur_header_key_end (feed b l r) = r_cur_header_key_end r"
  "r_cur_header_value_start (feed b l r) = r_cur_header_value_start r"
  "r_cur_header_value_end (feed b l r) = r_cur_header_value_end r"
  "r_buf (feed b l r) = b" "r_last (feed b l r) = l"
  by (simp_all add: feed_def)

lemma scan_commute:
  assumes "\<And>p c st x st' x'. p < N \<Longrightarrow> I x \<Longrightarrow> f p c st x = (st', x') \<Longrightarrow> f p c st (g x) = (st', g x') \<and> I x'"
    and "p + length cs \<le> N" and "I x"
  shows "scan f p cs st (g x) = (case scan f p cs st x of (res, q, x') \<Rightarrow> (res, q, g x'))"
  using assms(2,3)
proof (induction cs arbitrary: p st x)
  case (Cons c cs)
  obtain res x' where s: "f p c st x = (res, x')" by (cases "f p c st x")
  from assms(1) [OF _ Cons.prems(2) s] Cons.prems(1) have g: "f p c st (g x) = (res, g x')" "I x'" by simp_all
  show ?case
  proof (cases res)
    case (Go st')
    with Cons.IH [of "Suc p" x' st'] Cons.prems s g show ?thesis by simp
  qed (use s g in simp_all)
qed simp

lemma scan_invariant:
  assumes "\<And>p c st x st' x'. I x \<Longrightarrow> f p c st x = (st', x') \<Longrightarrow> I x'"
    and "I x" and "scan f p cs st x = (res, q, x')"
  shows "I x'"
  using assms(2,3)
proof (induction cs arbitrary: p st x)
  case (Cons c cs)
  obtain r1 x1 where s: "f p c st x = (r1, x1)" by (cases "f p c st x")
  with assms(1) Cons.prems have "I x1" by blast
  with Cons s show ?case by (cases r1) auto
qed simp

lemma unread_feed:
  assumes "extends b l r" and "pi \<le> r_last r"
  shows "unread (feed b l r) pi = unread r pi @ drop (r_last r) (take l b)"
proof -
  let ?xs = "take (r_last r) b" and ?ys = "drop (r_last r) (take l b)"
  have split: "take l b = ?xs @ ?ys"
    using assms append_take_drop_id [of "r_last r" "take l b"] by (simp add: extends_def min_def split: if_splits)
  have "length ?xs = r_last r" using assms unfolding extends_def by (metis length_take min_absorb2 le_trans)
  then have "drop pi (?xs @ ?ys) = drop pi ?xs @ ?ys" using assms by (simp only: drop_append) simp
  with split have "drop pi (take l b) = drop pi (take (r_last r) b) @ drop (r_last r) (take l b)" by metis
  then show ?thesis using assms by (simp add: unread_def feed_def extends_def)
qed

lemma rl_set_method_feed:
  assumes "take n b = take n (r_buf r)" and "p < n"
  shows "rl_set_method p (feed b l r) = feed b l (rl_set_method p r)"
proof -
  have nth: "i < n \<Longrightarrow> b ! i = r_buf r ! i" for i using assms(1) by (metis nth_take)
  have "p - the (r_request_start r) = 3 \<or> p - the (r_request_start r) = 4 \<Longrightarrow> the (r_request_start r) + 3 < n"
    using assms(2) by linarith
  with nth have "p - the (r_request_start r) = 3 \<or> p - the (r_request_start r) = 4 \<Longrightarrow>
      zv_str4cmp b (the (r_request_start r)) c0 c1 c2 c3 = zv_str4cmp (r_buf r) (the (r_request_start r)) c0 c1 c2 c3"
    for c0 c1 c2 c3 by (simp add: zv_str4cmp_iff)
  then show ?thesis by (simp add: rl_set_method_def Let_def feed_upd)
qed

lemma rl_step_uri_feed:
  assumes "take n b = take n (r_buf r)" and "p < n"
  shows "rl_step_uri p ch st (feed b l r) = apsnd (feed b l) (rl_step_uri p ch st r)"
  using rl_set_method_feed [of n b "r\<lparr>r_method_end := Some p\<rparr>" p l] assms
  by (cases st) (simp_all add: Let_def feed_upd)

lemma rl_step_feed:
  assumes "take n b = take n (r_buf r)" and "p < n"
  shows "rl_step p ch st (feed b l r) = apsnd (feed b l) (rl_step p ch st r)"
proof (cases "st \<in> {rl_start, rl_method, rl_spaces_before_uri, rl_after_slash_in_uri, rl_http}")
  case True
  then have "rl_step p ch st r' = rl_step_uri p ch st r'" for r' :: "'a zv_req_parse_scheme" by auto
  then show ?thesis using rl_step_uri_feed [OF assms] by simp
next
  case False
  then show ?thesis by (cases st) (simp_all add: Let_def feed_upd)
qed

lemma rl_scan_feed:
  assumes "extends b l r" and "p + length cs \<le> r_last r"
  shows "scan rl_step p cs st (feed b l r) = (case scan rl_step p cs st r of (res, q, r') \<Rightarrow> (res, q, feed b l r'))"
proof (rule scan_commute [where N = "r_last r" and I = "\<lambda>r'. take (r_last r) b = take (r_last r) (r_buf r')"])
  fix p c st st' and x x' :: "'a zv_req_parse_scheme"
  assume *: "p < r_last r" "take (r_last r) b = take (r_last r) (r_buf x)" "rl_step p c st x = (st', x')"
  with rl_step_feed [OF *(2,1), of c st l] rl_step_inputD [OF *(3)]
  show "rl_step p c st (feed b l x) = (st', feed b l x') \<and> take (r_last r) b = take (r_last r) (r_buf x')"
    by (simp add: same_input_def)
qed (use assms in \<open>simp_all add: extends_def\<close>)

text \<open>The position and state fields are written at the end of a run and never read in between.\<close>

definition repos :: "nat \<Rightarrow> rl_state \<Rightarrow> 'z zv_req_parse_scheme \<Rightarrow> 'z zv_req_parse_scheme" where
  "repos p st r = r\<lparr>r_parse_pos := p, r_request_line_state := st\<rparr>"

lemma repos_upd:
  "(repos p st r)\<lparr>r_request_start := a\<rparr> = repos p st (r\<lparr>r_request_start := a\<rparr>)"
  "(repos p st r)\<lparr>r_method_end := a\<rparr> = repos p st (r\<lparr>r_method_end := a\<rparr>)"
  "(repos p st r)\<lparr>r_method := m\<rparr> = repos p st (r\<lparr>r_method := m\<rparr>)"
  "(repos p st r)\<lparr>r_uri_start := a\<rparr> = repos p st (r\<lparr>r_uri_start := a\<rparr>)"
  "(repos p st r)\<lparr>r_uri_end := a\<rparr> = repos p st (r\<lparr>r_uri_end := a\<rparr>)"
  "(repos p st r)\<lparr>r_http_major := v\<rparr> = repos p st (r\<lparr>r_http_major := v\<rparr>)"
  "(repos p st r)\<lparr>r_http_minor := v\<rparr> = repos p st (r\<lparr>r_http_minor := v\<rparr>)"
  "(repos p st r)\<lparr>r_request_end := a\<rparr> = repos p st (r\<lparr>r_request_end := a\<rparr>)"
  by (cases r; simp add: repos_def)+

lemma repos_sel [simp]:
  "r_buf (repos p st r) = r_buf r" "r_request_start (repos p st r) = r_request_start r"
  "r_http_major (repos p st r) = r_http_major r" "r_http_minor (repos p st r) = r_http_minor r"
  "r_request_end (repos p st r) = r_request_end r" "r_last (repos p st r) = r_last r"
  "r_parse_pos (repos p st r) = p" "r_request_line_state (repos p st r) = st"
  by (simp_all add: repos_def)

lemma repos_repos [simp]: "repos p st (repos q st' r) = repos p st r"
  by (simp add: repos_def)

lemma rl_done_repos: "rl_done pi p (repos q st r) = rl_done pi p r"
  by (cases r) (simp add: rl_done_def repos_def Let_def)

lemma rl_step_repos: "rl_step p ch st (repos q st' r) = apsnd (repos q st') (rl_step p ch st r)"
proof (cases "st \<in> {rl_start, rl_method, rl_spaces_before_uri, rl_after_slash_in_uri, rl_http}")
  case True
  then have "rl_step p ch st r' = rl_step_uri p ch st r'" for r' :: "'a zv_req_parse_scheme" by auto
  moreover have "rl_step_uri p ch st (repos q st' r) = apsnd (repos q st') (rl_step_uri p ch st r)"
    by (cases st) (simp_all add: Let_def repos_upd rl_set_method_def)
  ultimately show ?thesis by simp
next
  case False
  then show ?thesis by (cases st) (simp_all add: Let_def repos_upd)
qed

lemma rl_scan_repos:
  "scan rl_step p cs st (repos q st' r) = (case scan rl_step p cs st r of (res, k, r') \<Rightarrow> (res, k, repos q st' r'))"
  by (rule scan_commute [where N = "p + length cs" and I = "\<lambda>_. True"]) (simp_all add: rl_step_repos)

lemma rl_scan_input: "scan rl_step p cs st r = (res, q, r') \<Longrightarrow> same_input r r'"
  by (rule scan_invariant [where I = "same_input r" and f = rl_step and x = r])
     (auto simp: same_input_def dest!: rl_step_inputD)

lemma rl_step_Fail: "rl_step p ch st r = (Fail e, r') \<Longrightarrow> e \<in> {ZV_HTTP_PARSE_INVALID_METHOD, ZV_HTTP_PARSE_INVALID_REQUEST}"
  by (cases st) (auto simp: Let_def expect_def split: if_splits)

lemma scan_Fail:
  "scan f p cs st x = (Fail e, q, x') \<Longrightarrow> \<exists>c st' y. f q c st' y = (Fail e, x')"
  by (induction cs arbitrary: p st x) (auto split: prod.splits step_result.splits)

lemma rl_scan_Fail: "scan rl_step p cs st r = (Fail e, q, r') \<Longrightarrow> e \<noteq> ZV_OK"
  by (drule scan_Fail) (auto dest!: rl_step_Fail
      simp: ZV_HTTP_PARSE_INVALID_METHOD_def ZV_HTTP_PARSE_INVALID_REQUEST_def ZV_OK_def)

lemma parse_line_scan:
  assumes "buf_ok r" and "r_parse_pos r \<le> r_last r"
  shows "zv_http_parse_request_line r =
     (case scan rl_step (r_parse_pos r) (unread r (r_parse_pos r)) (r_request_line_state r) r of
        (Go st, q, r') \<Rightarrow> (ZV_AGAIN, repos q st r')
      | (Fail e, q, r') \<Rightarrow> (e, r')
      | (Done, q, r') \<Rightarrow> (ZV_OK, rl_done q q r'))"
  unfolding zv_http_parse_request_line_def rl_loop_scan [OF assms]
  by (simp add: repos_def split: prod.split step_result.split)

lemma parse_line_paused:
  assumes "buf_ok r" and "r_parse_pos r \<le> r_last r"
    and "zv_http_parse_request_line r = (ZV_AGAIN, r')" and "r_parse_pos r' = r_last r"
  shows "\<exists>st r1. scan rl_step (r_parse_pos r) (unread r (r_parse_pos r)) (r_request_line_state r) r = (Go st, r_last r, r1)
           \<and> r' = repos (r_last r) st r1"
proof -
  obtain res q r1 where s: "scan rl_step (r_parse_pos r) (unread r (r_parse_pos r)) (r_request_line_state r) r = (res, q, r1)"
    by (metis prod.collapse)
  note same = rl_scan_input [OF s]
  show ?thesis
  proof (cases res)
    case (Go st)
    with s scan_Go_pos have "q = r_parse_pos r + length (unread r (r_parse_pos r))" by fastforce
    with assms(1,2) have "q = r_last r" by (simp add: unread_def buf_ok_def)
    with Go s assms parse_line_scan [OF assms(1,2)] show ?thesis by simp
  next
    case (Fail e)
    with s assms same parse_line_scan [OF assms(1,2)] have "r_parse_pos r = r_last r" by (simp add: same_input_def)
    with Fail s show ?thesis by (simp add: unread_Nil)
  next
    case Done
    with s assms parse_line_scan [OF assms(1,2)] show ?thesis by (simp add: ZV_OK_def ZV_AGAIN_def EAGAIN_def)
  qed
qed

section \<open>The parts of an accepted line\<close>

definition bslice :: "char list \<Rightarrow> nat \<Rightarrow> nat \<Rightarrow> string" where
  "bslice buf i j = take (j - i) (drop i buf)"

lemma set_bslice: "j \<le> length buf \<Longrightarrow> set (bslice buf i j) = (\<lambda>k. buf ! k) ` {i..<j}"
proof (cases "i \<le> j")
  case True
  assume "j \<le> length buf"
  with True have "bslice buf i j = map (\<lambda>k. buf ! k) [i..<j]"
    by (intro nth_equalityI) (simp_all add: bslice_def)
  then show ?thesis by auto
qed (simp add: bslice_def)

lemma bslice_Suc: "i \<le> j \<Longrightarrow> j < length buf \<Longrightarrow> bslice buf i (Suc j) = bslice buf i j @ [buf ! j]"
  by (simp add: bslice_def Suc_diff_le take_Suc_conv_app_nth)

lemma bslice_3: "m + 3 < length buf \<Longrightarrow> bslice buf m (m + 3) = [buf ! m, buf ! (m + 1), buf ! (m + 2)]"
  by (simp add: bslice_def Cons_nth_drop_Suc [symmetric] numeral_3_eq_3)

lemma bslice_4: "m + 4 < length buf \<Longrightarrow> bslice buf m (m + 4) = [buf ! m, buf ! (m + 1), buf ! (m + 2), buf ! (m + 3)]"
  by (simp add: bslice_def Cons_nth_drop_Suc [symmetric] numeral_eq_Suc)

text \<open>The method that a method name stands for; \<open>m0\<close> is the value the field had before.\<close>

definition method_of :: "http_method \<Rightarrow> string \<Rightarrow> http_method" where
  "method_of m0 s =
     (if s = ''GET'' then ZV_HTTP_GET else if s = ''POST'' then ZV_HTTP_POST
      else if s = ''HEAD'' then ZV_HTTP_HEAD
      else if length s = 3 \<or> length s = 4 then m0 else ZV_HTTP_UNKNOWN)"

lemma rl_set_method_of:
  assumes "r_request_start r = Some m" and "m \<le> p" and "p < length (r_buf r)" and "r_buf r ! p = SP"
  shows "rl_set_method p r = r\<lparr>r_method := method_of (r_method r) (bslice (r_buf r) m p)\<rparr>"
proof -
  consider "p = m + 3" | "p = m + 4" | "p - m \<noteq> 3" "p - m \<noteq> 4" using assms(2) by linarith
  then show ?thesis
  proof cases
    case 1
    with assms bslice_3 [of m "r_buf r"] show ?thesis
      by (auto simp: rl_set_method_def method_of_def zv_str4cmp_iff Let_def)
  next
    case 2
    with assms bslice_4 [of m "r_buf r"] show ?thesis
      by (auto simp: rl_set_method_def method_of_def zv_str4cmp_iff Let_def)
  next
    case 3
    with assms have "length (bslice (r_buf r) m p) = p - m" by (simp add: bslice_def)
    with 3 have "method_of (r_method r) (bslice (r_buf r) m p) = ZV_HTTP_UNKNOWN"
      by (auto simp: method_of_def)
    with 3 assms(1) show ?thesis by (simp add: rl_set_method_def)
  qed
qed

text \<open>
  What holds in each state before the byte at \<open>p\<close> is read, for a parse that started at \<open>lo\<close> with the
  method field \<open>m0\<close>.
\<close>

definition has_method :: "nat \<Rightarrow> http_method \<Rightarrow> nat \<Rightarrow> 'z zv_req_parse_scheme \<Rightarrow> bool" where
  "has_method lo m0 p r \<longleftrightarrow>
     (\<exists>m e. r_request_start r = Some m \<and> r_method_end r = Some e \<and> lo \<le> m \<and> m < e \<and> e < p \<and>
        list_all method_char (bslice (r_buf r) m e) \<and> r_method r = method_of m0 (bslice (r_buf r) m e))"

definition has_uri :: "nat \<Rightarrow> 'z zv_req_parse_scheme \<Rightarrow> bool" where
  "has_uri p r \<longleftrightarrow>
     (\<exists>e u v. r_method_end r = Some e \<and> r_uri_start r = Some u \<and> r_uri_end r = Some v \<and> e < u \<and> u < v \<and> v < p \<and>
        r_buf r ! u = CHR ''/'' \<and> SP \<notin> set (bslice (r_buf r) u v))"

fun rl_inv :: "nat \<Rightarrow> http_method \<Rightarrow> nat \<Rightarrow> rl_state \<Rightarrow> 'z zv_req_parse_scheme \<Rightarrow> bool" where
  "rl_inv lo m0 p rl_start r \<longleftrightarrow> r_method r = m0"
| "rl_inv lo m0 p rl_method r \<longleftrightarrow>
     r_method r = m0 \<and>
     (\<exists>m. r_request_start r = Some m \<and> lo \<le> m \<and> m < p \<and> list_all method_char (bslice (r_buf r) m p))"
| "rl_inv lo m0 p rl_spaces_before_uri r \<longleftrightarrow> has_method lo m0 p r"
| "rl_inv lo m0 p rl_after_slash_in_uri r \<longleftrightarrow>
     has_method lo m0 p r \<and>
     (\<exists>e u. r_method_end r = Some e \<and> r_uri_start r = Some u \<and> e < u \<and> u < p \<and>
        r_buf r ! u = CHR ''/'' \<and> SP \<notin> set (bslice (r_buf r) u p))"
| "rl_inv lo m0 p st r \<longleftrightarrow> has_method lo m0 p r \<and> has_uri p r"

lemma has_method_mono: "has_method lo m0 p r \<Longrightarrow> has_method lo m0 (Suc p) r"
  by (force simp: has_method_def)

lemma has_uri_mono: "has_uri p r \<Longrightarrow> has_uri (Suc p) r"
  by (force simp: has_uri_def)

lemma bslice_single: "p < length buf \<Longrightarrow> bslice buf p (Suc p) = [buf ! p]"
  using bslice_Suc [of p p buf] by (simp add: bslice_def)

lemma bslice_singleD:
  assumes "bslice buf p (Suc p) = [c]"
  shows "buf ! p = c \<and> p < length buf"
proof (cases "p < length buf")
  case True
  with assms show ?thesis by (simp add: bslice_single)
qed (use assms in \<open>simp add: bslice_def\<close>)

lemma rl_inv_uri_step:
  assumes "rl_inv lo m0 p st r" and "p < length (r_buf r)" and "lo \<le> p"
    and "rl_step_uri p (r_buf r ! p) st r = (Go st', r')"
    and "st \<in> {rl_start, rl_method, rl_spaces_before_uri, rl_after_slash_in_uri, rl_http}"
  shows "rl_inv lo m0 (Suc p) st' r'"
proof (cases st)
  case rl_start
  with assms show ?thesis by (auto simp: Let_def bslice_single split: if_splits)
next
  case rl_method
  then obtain m where m: "r_request_start r = Some m" "lo \<le> m" "m < p" "list_all method_char (bslice (r_buf r) m p)" "r_method r = m0"
    using assms(1) by auto
  show ?thesis
  proof (cases "r_buf r ! p = SP")
    case True
    have "rl_set_method p (r\<lparr>r_method_end := Some p\<rparr>) =
        r\<lparr>r_method_end := Some p, r_method := method_of m0 (bslice (r_buf r) m p)\<rparr>"
      using rl_set_method_of [of "r\<lparr>r_method_end := Some p\<rparr>" m p] m assms(2) True by simp
    with True assms(4) rl_method have "st' = rl_spaces_before_uri \<and>
        r' = r\<lparr>r_method_end := Some p, r_method := method_of m0 (bslice (r_buf r) m p)\<rparr>"
      by simp
    with m show ?thesis by (simp add: has_method_def)
  next
    case False
    with m assms rl_method show ?thesis by (auto simp: bslice_Suc split: if_splits)
  qed
next
  case rl_spaces_before_uri
  with assms has_method_mono [of lo m0 p r] show ?thesis
    by (auto simp: bslice_single has_method_def split: if_splits)
next
  case rl_after_slash_in_uri
  with assms has_method_mono [of lo m0 p r] show ?thesis
    by (fastforce simp: bslice_Suc has_method_def has_uri_def split: if_splits)
next
  case rl_http
  with assms has_method_mono [of lo m0 p r] has_uri_mono [of p r] show ?thesis
    by (auto split: if_splits)
qed (use assms(5) in simp_all)

lemma rl_inv_version_step:
  assumes "rl_inv lo m0 p st r" and "rl_step p ch st r = (res, r')" and "\<nexists>e. res = Fail e"
    and "st \<notin> {rl_start, rl_method, rl_spaces_before_uri, rl_after_slash_in_uri, rl_http}"
  shows "has_method lo m0 (Suc p) r' \<and> has_uri (Suc p) r' \<and>
         (case res of Go st' \<Rightarrow> rl_inv lo m0 (Suc p) st' r' | _ \<Rightarrow> ch = LF)"
proof -
  have u: "has_method lo m0 (Suc p) r" "has_uri (Suc p) r"
    using assms(1,4) by (cases st; simp add: has_method_mono has_uri_mono)+
  then show ?thesis
    using assms(2-4) by (cases st) (auto simp: Let_def expect_def has_method_def has_uri_def split: if_splits)
qed

lemma rl_step_sound:
  assumes "rl_inv lo m0 p st r" and "p < length (r_buf r)" and "lo \<le> p"
    and "rl_step p (r_buf r ! p) st r = (res, r')" and "\<nexists>e. res = Fail e"
  shows "case res of Go st' \<Rightarrow> rl_inv lo m0 (Suc p) st' r'
         | _ \<Rightarrow> has_method lo m0 (Suc p) r' \<and> has_uri (Suc p) r' \<and> r_buf r ! p = LF"
proof (cases "st \<in> {rl_start, rl_method, rl_spaces_before_uri, rl_after_slash_in_uri, rl_http}")
  case True
  with assms(4) have uri: "rl_step_uri p (r_buf r ! p) st r = (res, r')" by auto
  with True assms(5) obtain st' where "res = Go st'"
    by (cases st) (auto simp: Let_def split: if_splits)
  with rl_inv_uri_step [OF assms(1-3) _ True] uri show ?thesis by simp
next
  case False
  with rl_inv_version_step [OF assms(1,4,5)] show ?thesis by (cases res) auto
qed

lemma rl_scan_sound:
  assumes "rl_inv lo m0 p st r" and "lo \<le> p" and "p + length cs \<le> length (r_buf r)"
    and "\<And>i. i < length cs \<Longrightarrow> cs ! i = r_buf r ! (p + i)"
    and "scan rl_step p cs st r = (Done, q, r')"
  shows "has_method lo m0 (Suc q) r' \<and> has_uri (Suc q) r' \<and> r_buf r ! q = LF \<and> q < p + length cs"
  using assms
proof (induction cs arbitrary: p st r)
  case (Cons c cs)
  have c: "c = r_buf r ! p" using Cons.prems(4) [of 0] by simp
  have p: "p < length (r_buf r)" using Cons.prems(3) by simp
  obtain res r1 where s: "rl_step p c st r = (res, r1)" by (cases "rl_step p c st r")
  have in1: "r_buf r1 = r_buf r" using rl_step_inputD [OF s] by (simp add: same_input_def)
  note sound = rl_step_sound [OF Cons.prems(1) p Cons.prems(2), of res r1]
  show ?case
  proof (cases res)
    case (Go st')
    have "cs ! i = r_buf r1 ! (Suc p + i)" if "i < length cs" for i
      using Cons.prems(4) [of "Suc i"] that in1 by simp
    with Cons.IH [of "Suc p" st' r1] Cons.prems s c sound Go in1 show ?thesis by simp
  next
    case Done
    with Cons.prems s c sound show ?thesis by auto
  qed (use Cons.prems s in simp)
qed simp

section \<open>Printed request lines\<close>

definition request_line :: "string \<Rightarrow> string \<Rightarrow> nat \<Rightarrow> string \<Rightarrow> nat \<Rightarrow> string \<Rightarrow> string \<Rightarrow> nat \<Rightarrow> string \<Rightarrow> string" where
  "request_line blanks meth i uri j major minor k eol =
     blanks @ meth @ replicate (Suc i) SP @ uri @ replicate (Suc j) SP @ ''HTTP/'' @ major @ ''.'' @ minor
     @ replicate k SP @ eol"

definition well_formed_line :: "string \<Rightarrow> string \<Rightarrow> string \<Rightarrow> string \<Rightarrow> string \<Rightarrow> string \<Rightarrow> bool" where
  "well_formed_line blanks meth uri major minor eol \<longleftrightarrow>
     set blanks \<subseteq> {CR, LF} \<and> meth \<noteq> [] \<and> list_all method_char meth \<and>
     (\<exists>tl. uri = CHR ''/'' # tl) \<and> SP \<notin> set uri \<and>
     list_all digit_char major \<and> major \<noteq> [] \<and> hd major \<noteq> CHR ''0'' \<and> list_all digit_char minor \<and> minor \<noteq> [] \<and>
     eol \<in> {[CR, LF], [LF]}"

definition dec_word :: "string \<Rightarrow> u32" where
  "dec_word ds = foldl (\<lambda>v d. v * 10 + digit_val d) 0 ds"

lemma method_char_simps [simp]:
  "method_char c \<Longrightarrow> c \<noteq> CR \<and> c \<noteq> LF \<and> c \<noteq> SP" "\<not> method_char SP" "\<not> method_char CR" "\<not> method_char LF"
  by (auto simp: method_char_def between_def byte_val_def)

lemma digit_char_simps [simp]:
  "digit_char c \<Longrightarrow> c \<noteq> CR \<and> c \<noteq> LF \<and> c \<noteq> SP \<and> c \<noteq> CHR ''.''"
  by (auto simp: digit_char_def between_def byte_val_def)

lemma first_major_digit:
  assumes "digit_char c" and "c \<noteq> CHR ''0''"
  shows "between CHR ''1'' CHR ''9'' c"
proof -
  have "byte_val c \<noteq> byte_val CHR ''0''" using assms(2) by simp
  with assms(1) show ?thesis unfolding digit_char_def between_def byte_val_def by simp
qed

lemma scan_blanks:
  "set bs \<subseteq> {CR, LF} \<Longrightarrow> method_char c \<Longrightarrow>
     scan rl_step p (bs @ c # cs) rl_start r =
     scan rl_step (Suc (p + length bs)) cs rl_method (r\<lparr>r_request_start := Some (p + length bs)\<rparr>)"
  by (induction bs arbitrary: p r) (auto simp: Let_def)

lemma scan_method:
  "list_all method_char ms \<Longrightarrow>
     scan rl_step p (ms @ SP # cs) rl_method r =
     scan rl_step (Suc (p + length ms)) cs rl_spaces_before_uri
       (rl_set_method (p + length ms) (r\<lparr>r_method_end := Some (p + length ms)\<rparr>))"
  by (induction ms arbitrary: p) auto

lemma scan_spaces:
  "st \<in> {rl_spaces_before_uri, rl_http} \<Longrightarrow>
     scan rl_step p (replicate n SP @ cs) st r = scan rl_step (p + n) cs st r"
  by (induction n arbitrary: p) auto

lemma scan_uri:
  "SP \<notin> set us \<Longrightarrow>
     scan rl_step p (us @ SP # cs) rl_after_slash_in_uri r =
     scan rl_step (Suc (p + length us)) cs rl_http (r\<lparr>r_uri_end := Some (p + length us)\<rparr>)"
  by (induction us arbitrary: p) auto

lemma scan_major:
  "list_all digit_char ds \<Longrightarrow>
     scan rl_step p (ds @ CHR ''.'' # cs) rl_major_digit r =
     scan rl_step (Suc (p + length ds)) cs rl_first_minor_digit
       (r\<lparr>r_http_major := foldl (\<lambda>v d. v * 10 + digit_val d) (r_http_major r) ds\<rparr>)"
  by (induction ds arbitrary: p r) auto

lemma scan_minor:
  "list_all digit_char ds \<Longrightarrow>
     scan rl_step p (ds @ cs) rl_minor_digit r =
     scan rl_step (p + length ds) cs rl_minor_digit
       (r\<lparr>r_http_minor := foldl (\<lambda>v d. v * 10 + digit_val d) (r_http_minor r) ds\<rparr>)"
  by (induction ds arbitrary: p r) auto

lemma scan_eol:
  assumes "eol \<in> {[CR, LF], [LF]}" and "st \<in> {rl_minor_digit, rl_spaces_after_digit}"
  shows "\<exists>r'. scan rl_step p (eol @ cs) st r = (Done, p + length eol - 1, r') \<and>
           (r' = r \<or> (\<exists>e. r' = r\<lparr>r_request_end := Some e\<rparr>))"
  using assms by (auto simp: Let_def)

lemma scan_version_end:
  assumes "eol \<in> {[CR, LF], [LF]}"
  shows "\<exists>r'. scan rl_step p (replicate k SP @ eol @ cs) rl_minor_digit r = (Done, p + k + length eol - 1, r') \<and>
           (r' = r \<or> (\<exists>e. r' = r\<lparr>r_request_end := Some e\<rparr>))"
proof (cases k)
  case 0
  with scan_eol [OF assms, of rl_minor_digit p cs r] show ?thesis by simp
next
  case (Suc n)
  have "scan rl_step q (replicate n SP @ eol @ cs) rl_spaces_after_digit r
      = scan rl_step (q + n) (eol @ cs) rl_spaces_after_digit r" for q
    by (induction n arbitrary: q) simp_all
  with Suc scan_eol [OF assms, of rl_spaces_after_digit "p + k" cs r] show ?thesis by simp
qed

lemma bslice_mid:
  assumes "take (length xs + length ys) (drop p buf) = xs @ ys"
  shows "bslice buf (p + length xs) (p + length xs + length ys) = ys"
proof -
  have "drop (length xs) (take (length xs + length ys) (drop p buf)) = ys" by (simp add: assms)
  then show ?thesis by (simp add: bslice_def drop_take add.commute)
qed

lemma unread_bslice:
  assumes "unread r p = xs @ ys @ zs"
  shows "bslice (r_buf r) (p + length xs) (p + length xs + length ys) = ys"
proof (rule bslice_mid)
  let ?n = "length xs + length ys" and ?t = "take (r_last r - p) (drop p (r_buf r))"
  have t: "?t = xs @ ys @ zs" using assms by (simp add: unread_def drop_take)
  then have "length (xs @ ys @ zs) \<le> r_last r - p" by (metis length_take min.cobounded2)
  then have "take ?n ?t = take ?n (drop p (r_buf r))" by (simp add: min_def)
  then show "take ?n (drop p (r_buf r)) = xs @ ys" by (simp add: t)
qed

text \<open>One run of the state machine over a printed line.\<close>

lemma scan_request_line:
  assumes "well_formed_line blanks meth uri major minor eol"
    and "m = p + length blanks" and "e = m + length meth" and "u = e + Suc i" and "v = u + length uri"
  shows "\<exists>r'. scan rl_step p (request_line blanks meth i uri j major minor k eol @ cs) rl_start r =
           (Done, p + length (request_line blanks meth i uri j major minor k eol) - 1, r') \<and>
         r_uri_start r' = Some u \<and> r_uri_end r' = Some v \<and> r_http_major r' = dec_word major \<and>
         r_http_minor r' = dec_word minor \<and> r_request_start r' = Some m \<and> r_method_end r' = Some e \<and>
         r_method r' = r_method (rl_set_method e (r\<lparr>r_request_start := Some m, r_method_end := Some e\<rparr>))"
proof -
  from assms(1) obtain c ms us d ds f fs where
    parts: "meth = c # ms" "uri = CHR ''/'' # us" "major = d # ds" "minor = f # fs"
    and wf: "set blanks \<subseteq> {CR, LF}" "method_char c" "list_all method_char ms" "SP \<notin> set us"
      "digit_char d" "d \<noteq> CHR ''0''" "list_all digit_char ds" "digit_char f" "list_all digit_char fs" "eol \<in> {[CR, LF], [LF]}"
    by (auto simp: well_formed_line_def neq_Nil_conv)
  define r1 where "r1 = rl_set_method e (r\<lparr>r_request_start := Some m, r_method_end := Some e\<rparr>)"
  have r1: "r_request_start r1 = Some m" "r_method_end r1 = Some e"
    by (simp_all add: r1_def rl_set_method_def Let_def)
  define r2 where "r2 = r1\<lparr>r_uri_start := Some u, r_uri_end := Some v, r_http_major := dec_word major,
      r_http_minor := dec_word minor\<rparr>"
  define q where "q = v + j + 7 + length major + length minor"
  have line: "request_line blanks meth i uri j major minor k eol @ cs =
      blanks @ c # ms @ SP # replicate i SP @ CHR ''/'' # us @ SP # replicate j SP @ ''HTTP/'' @ d # ds @ CHR ''.'' # f # fs
      @ replicate k SP @ eol @ cs"
    by (simp add: request_line_def parts)
  have "scan rl_step p (request_line blanks meth i uri j major minor k eol @ cs) rl_start r =
      scan rl_step q (replicate k SP @ eol @ cs) rl_minor_digit r2"
    unfolding line
    using wf first_major_digit [OF wf(5,6)]
    by (simp add: scan_blanks scan_method scan_spaces scan_uri scan_major scan_minor expect_def q_def r2_def r1_def
        dec_word_def parts assms(2-5) add.assoc eval_nat_numeral)
  moreover obtain r' where "scan rl_step q (replicate k SP @ eol @ cs) rl_minor_digit r2 = (Done, q + k + length eol - 1, r')"
    and r': "r' = r2 \<or> (\<exists>a. r' = r2\<lparr>r_request_end := Some a\<rparr>)"
    using scan_version_end [OF wf(10), of q k cs r2] by blast
  moreover have "q + k + length eol - 1 = p + length (request_line blanks meth i uri j major minor k eol) - 1"
    by (simp add: q_def request_line_def parts assms(2-5))
  ultimately show ?thesis using r' r1 by (auto simp: r2_def r1_def)
qed

section \<open>Properties\<close>

text \<open>
  C1. The request-line parser is incremental: when it has consumed all bytes so far and asked for more, calling
  it again after more bytes have arrived has the outcome of one call on the whole input (the same
  return code and the same request, apart from the position and state fields after a failure, which are
  then not used any more).
\<close>

theorem request_line_resume:
  assumes "buf_ok r" and "r_parse_pos r \<le> r_last r" and "extends b l r"
    and "zv_http_parse_request_line r = (ZV_AGAIN, r1)" and "r_parse_pos r1 = r_last r"
    and "zv_http_parse_request_line (feed b l r1) = (rc, r2)"
    and "zv_http_parse_request_line (feed b l r) = (rc', r2')"
  shows "rc = rc' \<and> repos 0 rl_start r2 = repos 0 rl_start r2' \<and> (rc = ZV_OK \<or> r_parse_pos r2' = l \<longrightarrow> r2 = r2')"
proof -
  let ?p = "r_parse_pos r" and ?N = "r_last r" and ?ys = "drop (r_last r) (take l b)"
  obtain st s1 where s1: "scan rl_step ?p (unread r ?p) (r_request_line_state r) r = (Go st, ?N, s1)"
    and r1: "r1 = repos ?N st s1"
    using parse_line_paused [OF assms(1,2,4,5)] by blast
  have same: "same_input r s1" using rl_scan_input [OF s1] .
  have feed1: "feed b l r1 = repos ?N st (feed b l s1)" by (cases s1) (simp add: r1 repos_def feed_def)
  have ok: "buf_ok (feed b l r)" "buf_ok (feed b l r1)" using assms(3) by (simp_all add: buf_ok_def extends_def)
  have N: "r_last r1 = ?N" "r_buf r1 = r_buf r" using same by (simp_all add: r1 same_input_def)
  have pos: "?p \<le> r_last (feed b l r)" "r_parse_pos (feed b l r1) \<le> r_last (feed b l r1)"
    using assms(2,3,5) by (simp_all add: extends_def)
  have ext1: "extends b l r1" using assms(3) N by (simp add: extends_def)
  have u1: "unread (feed b l r1) ?N = ?ys"
    using unread_feed [OF ext1, of ?N] N by (simp add: unread_Nil)
  have len: "?p + length (unread r ?p) \<le> ?N" using assms(2) by (simp add: unread_def)
  obtain res q s2 where s2: "scan rl_step ?N ?ys st (feed b l s1) = (res, q, s2)" by (metis prod.collapse)
  have whole: "scan rl_step ?p (unread (feed b l r) ?p) (r_request_line_state r) (feed b l r) = (res, q, s2)"
    unfolding unread_feed [OF assms(3,2)] scan_append rl_scan_feed [OF assms(3) len] using s1 s2 by simp
  have rest: "scan rl_step ?N ?ys st (feed b l r1) = (res, q, repos ?N st s2)"
    unfolding feed1 rl_scan_repos using s2 by simp
  note A = parse_line_scan [OF ok(2) pos(2)] and B = parse_line_scan [OF ok(1)]
  have st1: "r_request_line_state r1 = st" by (simp add: r1)
  show ?thesis
  proof (cases res)
    case (Fail e)
    have "r_parse_pos s2 = ?p" using rl_scan_input [OF whole] by (simp add: same_input_def)
    moreover have "?p \<noteq> l"
    proof
      assume "?p = l"
      with assms(2,3) have "unread (feed b l r) ?p = []" by (simp add: unread_Nil)
      with whole Fail show False by simp
    qed
    moreover have "e \<noteq> ZV_OK" using whole Fail rl_scan_Fail by fast
    ultimately show ?thesis using A B pos assms(5-7) whole rest u1 st1 Fail by auto
  qed (use A B pos assms(5-7) whole rest u1 st1 in \<open>auto simp: rl_done_repos\<close>)
qed

text \<open>A request whose buffer starts with the given bytes, with the parser at its start.\<close>

definition fresh_parse :: "string \<Rightarrow> zv_req_parse" where
  "fresh_parse s =
     \<lparr>r_root = None, r_fd = 5, r_epfd = 3, r_buf = s @ replicate (MAX_BUF - length s) CHR 0x00, r_last = length s,
      r_parse_pos = 0, r_request_line_state = rl_start, r_header_state = hd_start, r_parse_phase = 0,
      r_request_start = None, r_method_end = None, r_method = ZV_HTTP_UNKNOWN, r_uri_start = None, r_uri_end = None,
      r_path_start = None, r_path_end = None, r_query_start = None, r_query_end = None, r_http_major = 0,
      r_http_minor = 0, r_request_end = None, r_cur_header_key_start = None, r_cur_header_key_end = None,
      r_cur_header_value_start = None, r_cur_header_value_end = None\<rparr>"

lemma fresh_parse_ok:
  "length s \<le> MAX_BUF \<Longrightarrow> buf_ok (fresh_parse s) \<and> r_parse_pos (fresh_parse s) = 0 \<and> r_last (fresh_parse s) = length s \<and>
     unread (fresh_parse s) 0 = s \<and> r_request_line_state (fresh_parse s) = rl_start"
  by (simp add: fresh_parse_def buf_ok_def unread_def)

lemma feed_fresh_parse:
  "length s \<le> MAX_BUF \<Longrightarrow> prefix t s \<Longrightarrow>
     extends (r_buf (fresh_parse s)) (length s) (fresh_parse t) \<and>
     feed (r_buf (fresh_parse s)) (length s) (fresh_parse t) = fresh_parse s"
  by (auto simp: fresh_parse_def extends_def feed_def prefix_def)

theorem request_line_resume_witness:
  "let s = ''GET /a HTTP/1.1'' @ [CR, LF]; r1 = snd (zv_http_parse_request_line (fresh_parse ''GET /''));
       (rc, r2) = zv_http_parse_request_line (feed (r_buf (fresh_parse s)) (length s) r1)
   in rc = ZV_OK \<and> r2 = snd (zv_http_parse_request_line (fresh_parse s))"
proof -
  define s where "s = ''GET /a HTTP/1.1'' @ [CR, LF]"
  have ok: "buf_ok (fresh_parse ''GET /'')" "r_parse_pos (fresh_parse ''GET /'') \<le> r_last (fresh_parse ''GET /'')"
    "unread (fresh_parse ''GET /'') 0 = ''GET /''" and f: "r_parse_pos (fresh_parse ''GET /'') = 0" "r_last (fresh_parse ''GET /'') = 5"
      "r_request_line_state (fresh_parse ''GET /'') = rl_start"
    using fresh_parse_ok [of "''GET /''"] by (simp_all add: MAX_BUF_def)
  have oks: "buf_ok (fresh_parse s)" "r_parse_pos (fresh_parse s) = 0" "unread (fresh_parse s) 0 = s"
     "r_request_line_state (fresh_parse s) = rl_start"
    using fresh_parse_ok [of s] by (simp_all add: MAX_BUF_def s_def)
  have ext: "extends (r_buf (fresh_parse s)) (length s) (fresh_parse ''GET /'')"
    "feed (r_buf (fresh_parse s)) (length s) (fresh_parse ''GET /'') = fresh_parse s"
    using feed_fresh_parse [of s "''GET /''"] by (simp_all add: MAX_BUF_def s_def)
  obtain r1 where r1: "zv_http_parse_request_line (fresh_parse ''GET /'') = (ZV_AGAIN, r1)" "r_parse_pos r1 = 5"
    using parse_line_scan [OF ok(1,2)] ok(3) f by (simp add: Let_def method_char_def between_def byte_val_def)
  obtain rc r2 where r2: "zv_http_parse_request_line (feed (r_buf (fresh_parse s)) (length s) r1) = (rc, r2)"
    by (metis surj_pair)
  obtain r2' where r2': "zv_http_parse_request_line (fresh_parse s) = (ZV_OK, r2')"
    using parse_line_scan [OF oks(1)] oks(2-)
    by (simp add: Let_def method_char_def digit_char_def between_def byte_val_def expect_def)
       (simp add: s_def Let_def method_char_def digit_char_def between_def byte_val_def expect_def)
  have "rc = ZV_OK \<and> r2 = r2'"
    using request_line_resume [OF ok(1,2) ext(1) r1(1) _ r2, of ZV_OK r2'] r1(2) f ext(2) r2' by simp
  with r1 r2 r2' show ?thesis unfolding Let_def s_def by simp
qed

text \<open>
  C8. Soundness of the request-line parser: when it accepts, the positions it stored delimit, in this order and
  within the bytes received, a non-empty method of capital letters, and a URI that starts with a slash and
  contains no blank; the parse ends right after a line feed; the buffer is unchanged; and the method field is
  that of the method name, except that a name of three or four letters other than \<^verbatim>\<open>GET\<close>,
  \<^verbatim>\<open>POST\<close> and \<^verbatim>\<open>HEAD\<close> leaves the field as it was before the call.
\<close>

theorem request_line_sound:
  assumes "buf_ok r" and "r_parse_pos r \<le> r_last r" and "r_request_line_state r = rl_start"
    and "zv_http_parse_request_line r = (ZV_OK, r')"
  shows "\<exists>m e u v. r_request_start r' = Some m \<and> r_method_end r' = Some e \<and> r_uri_start r' = Some u \<and> r_uri_end r' = Some v \<and>
     r_parse_pos r \<le> m \<and> m < e \<and> e < u \<and> u < v \<and> v < r_parse_pos r' \<and> r_parse_pos r' \<le> r_last r \<and>
     list_all method_char (bslice (r_buf r) m e) \<and> r_method r' = method_of (r_method r) (bslice (r_buf r) m e) \<and>
     r_buf r ! u = CHR ''/'' \<and> SP \<notin> set (bslice (r_buf r) u v) \<and> r_buf r ! (r_parse_pos r' - 1) = LF \<and>
     r_buf r' = r_buf r \<and> r_last r' = r_last r \<and> r_request_line_state r' = rl_start"
proof -
  let ?p = "r_parse_pos r"
  obtain res q s where sc: "scan rl_step ?p (unread r ?p) rl_start r = (res, q, s)" by (metis prod.collapse)
  with parse_line_scan [OF assms(1,2)] assms(3,4) rl_scan_Fail [of ?p "unread r ?p" rl_start r] have "res = Done" and r': "r' = rl_done q q s"
    by (auto split: step_result.splits simp: ZV_OK_def ZV_AGAIN_def EAGAIN_def)
  with sc have sc: "scan rl_step ?p (unread r ?p) rl_start r = (Done, q, s)" by simp
  have len: "?p + length (unread r ?p) = r_last r" using assms(1,2) by (simp add: unread_def buf_ok_def)
  have "has_method ?p (r_method r) (Suc q) s \<and> has_uri (Suc q) s \<and> r_buf r ! q = LF \<and> q < ?p + length (unread r ?p)"
    by (rule rl_scan_sound [OF _ _ _ _ sc]) (use assms(1,2) len in \<open>auto simp: unread_def buf_ok_def\<close>)
  moreover have "same_input r s" by (rule rl_scan_input [OF sc])
  ultimately show ?thesis
    unfolding r' by (auto simp: has_method_def has_uri_def rl_done_def Let_def same_input_def len)
qed

theorem request_line_sound_witness:
  "r_method (snd (zv_http_parse_request_line (fresh_parse (''HEAD /i HTTP/1.0'' @ [LF])))) = ZV_HTTP_HEAD"
proof -
  define s where "s = ''HEAD /i HTTP/1.0'' @ [LF]"
  have ok: "buf_ok (fresh_parse s)" "r_parse_pos (fresh_parse s) = 0" "unread (fresh_parse s) 0 = s" "r_parse_pos (fresh_parse s) \<le> r_last (fresh_parse s)"
     "r_request_line_state (fresh_parse s) = rl_start"
    using fresh_parse_ok [of s] by (simp_all add: MAX_BUF_def s_def)
  obtain r' where r': "zv_http_parse_request_line (fresh_parse s) = (ZV_OK, r')"
      "r_request_start r' = Some 0" "r_method_end r' = Some 4"
    using parse_line_scan [OF ok(1,4)] ok(2-)
    by (simp add: Let_def method_char_def digit_char_def between_def byte_val_def expect_def)
       (simp add: s_def Let_def method_char_def digit_char_def between_def byte_val_def expect_def rl_set_method_def rl_done_def)
  have "bslice (r_buf (fresh_parse s)) 0 4 = ''HEAD''" by (simp add: fresh_parse_def s_def bslice_def)
  with request_line_sound [OF ok(1,4,5) r'(1)] r' show ?thesis unfolding s_def by (auto simp: method_of_def)
qed

text \<open>
  C9. Completeness of the request-line parser: a printed request line, with any number of line breaks before it, any
  number of blanks (at least one) between its parts, blanks at its end, and ended by CR LF or LF, is
  accepted whatever follows it; the method, the URI and the version read back are the printed ones (the
  version modulo \<open>2 ^ 32\<close>), and the next parse starts right after the line.
\<close>

theorem request_line_roundtrip:
  assumes "buf_ok r" and "r_parse_pos r \<le> r_last r" and "r_request_line_state r = rl_start"
    and "well_formed_line blanks meth uri major minor eol"
    and "unread r (r_parse_pos r) = request_line blanks meth i uri j major minor k eol @ rest"
  shows "\<exists>r' m e u v. zv_http_parse_request_line r = (ZV_OK, r') \<and>
     r_request_start r' = Some m \<and> r_method_end r' = Some e \<and> bslice (r_buf r') m e = meth \<and>
     r_method r' = method_of (r_method r) meth \<and>
     r_uri_start r' = Some u \<and> r_uri_end r' = Some v \<and> bslice (r_buf r') u v = uri \<and>
     r_http_major r' = dec_word major \<and> r_http_minor r' = dec_word minor \<and>
     unread r' (r_parse_pos r') = rest"
proof -
  let ?p = "r_parse_pos r" and ?line = "request_line blanks meth i uri j major minor k eol"
  define m where "m = ?p + length blanks"
  define e where "e = m + length meth"
  define u where "u = e + Suc i"
  define v where "v = u + length uri"
  obtain s where sc: "scan rl_step ?p (?line @ rest) rl_start r = (Done, ?p + length ?line - 1, s)"
    and s: "r_uri_start s = Some u" "r_uri_end s = Some v" "r_http_major s = dec_word major"
      "r_http_minor s = dec_word minor" "r_request_start s = Some m" "r_method_end s = Some e"
      "r_method s = r_method (rl_set_method e (r\<lparr>r_request_start := Some m, r_method_end := Some e\<rparr>))"
    using scan_request_line [OF assms(4) m_def e_def u_def v_def, of j k rest r] by blast
  have same: "same_input r s" by (rule rl_scan_input [OF sc])
  have "unread r ?p = blanks @ meth @ SP # drop (length blanks + length meth + 1) (?line @ rest)"
    by (simp add: assms(5) request_line_def)
  from unread_bslice [OF this] have me: "bslice (r_buf r) m e = meth" by (simp add: m_def e_def)
  have "unread r ?p = (blanks @ meth) @ [SP] @ drop (length blanks + length meth + 1) (?line @ rest)"
    by (simp add: assms(5) request_line_def)
  from unread_bslice [OF this] have "bslice (r_buf r) e (Suc e) = [SP]" by (simp add: m_def e_def add.assoc)
  then have e: "r_buf r ! e = SP" "e < length (r_buf r)"
    using bslice_singleD by blast+
  have "unread r ?p = (blanks @ meth @ replicate (Suc i) SP) @ uri @ drop (length blanks + length meth + Suc i + length uri) (?line @ rest)"
    by (simp add: assms(5) request_line_def)
  from unread_bslice [OF this] have uv: "bslice (r_buf r) u v = uri" by (simp add: m_def e_def u_def v_def add.assoc)
  have meth: "r_method s = method_of (r_method r) meth"
    using rl_set_method_of [of "r\<lparr>r_request_start := Some m, r_method_end := Some e\<rparr>" m e] e me s(7) by (simp add: e_def)
  have "unread r (?p + length ?line) = rest"
  proof -
    have "unread r (?p + length ?line) = drop (length ?line) (unread r ?p)" by (simp add: unread_def add.commute)
    then show ?thesis by (simp add: assms(5))
  qed
  moreover have "0 < length ?line" by (simp add: request_line_def)
  ultimately have rest: "unread (rl_done (?p + length ?line - 1) (?p + length ?line - 1) s) (?p + length ?line) = rest"
    using same by (simp add: rl_done_def Let_def unread_def same_input_def)
  have "zv_http_parse_request_line r = (ZV_OK, rl_done (?p + length ?line - 1) (?p + length ?line - 1) s)"
    using parse_line_scan [OF assms(1,2)] sc assms(3,5) by simp
  with s same me uv meth rest \<open>0 < length ?line\<close> show ?thesis
    by (auto simp: rl_done_def Let_def same_input_def)
qed

theorem request_line_roundtrip_witness:
  "fst (zv_http_parse_request_line (fresh_parse (request_line [CR, LF] ''GET'' 0 ''/a.html'' 1 ''1'' ''1'' 0 [CR, LF]))) = ZV_OK"
proof -
  define s where "s = request_line [CR, LF] ''GET'' 0 ''/a.html'' 1 ''1'' ''1'' 0 [CR, LF]"
  have len: "length s \<le> MAX_BUF" by (simp add: s_def request_line_def MAX_BUF_def)
  have wf: "well_formed_line [CR, LF] ''GET'' ''/a.html'' ''1'' ''1'' [CR, LF]"
    by (simp add: well_formed_line_def method_char_def digit_char_def between_def byte_val_def)
  have "unread (fresh_parse s) (r_parse_pos (fresh_parse s)) = request_line [CR, LF] ''GET'' 0 ''/a.html'' 1 ''1'' ''1'' 0 [CR, LF] @ []"
    using fresh_parse_ok [OF len] by (simp add: s_def)
  from request_line_roundtrip [OF _ _ _ wf this] fresh_parse_ok [OF len] show ?thesis by (auto simp: s_def)
qed

end
