(* ===== verification/Zv_Parse_Headers.thy ===== *)
theory Zv_Parse_Headers
  imports Zv_Parse_Line
begin

text \<open>
  What the header parser of \<open>Zv_Parse\<close> computes: it can be resumed like the request-line parser, it keeps
  the request's list of headers well formed whatever it reads, and it reads back printed headers.
\<close>

section \<open>The list of headers\<close>

text \<open>
  \<open>hdrs_ok a s hs\<close>: the list of the request at \<open>a\<close> holds the header objects \<open>hs\<close>, all allocated and none
  of them on the free list of the cache.
\<close>

definition hdrs_ok :: "addr \<Rightarrow> 'y header_mem_scheme \<Rightarrow> addr list \<Rightarrow> bool" where
  "hdrs_ok a s hs \<longleftrightarrow>
     (\<exists>xs. hc_inv s xs \<and> wf_list s (ReqList a) (map HdrNode hs) \<and> set hs \<inter> set xs = {} \<and> set hs \<subseteq> dom (hdrs s))"

lemma header_alloc_spec:
  assumes "hc_inv s xs" and "zv_http_header_alloc s = (h, s')"
  shows "\<exists>xs'. hc_inv s' xs' \<and> set xs' \<subseteq> set xs \<and>
     (h = NULL \<and> hdrs s' = hdrs s \<or>
      h \<noteq> NULL \<and> h \<notin> dom (hdrs s) - set xs \<and> h \<notin> set xs' \<and> hdrs s' = (hdrs s)(h \<mapsto> null_header))"
proof (cases xs)
  case Nil
  with zv_http_header_alloc_miss [of s h s'] assms have "hc_inv s' [] \<and> (h = NULL \<and> hdrs s' = hdrs s \<or>
      h = brk s \<and> hdrs s' = (hdrs s)(h \<mapsto> null_header))" by auto
  moreover from assms(1) have "brk s \<noteq> NULL" "brk s \<notin> dom (hdrs s)" by (auto simp: hc_inv_def)
  ultimately show ?thesis by (auto intro!: exI [of _ "[]"])
next
  case (Cons x ys)
  with zv_http_header_alloc_hit [of s x ys] assms have "h = x" "hc_inv s' ys" "hdrs s' = (hdrs s)(x \<mapsto> null_header)"
    by auto
  moreover from Cons assms(1) have "x \<noteq> NULL" "distinct xs" using hc.inv_free [OF assms(1)] by (auto intro: gr0I)
  ultimately show ?thesis using Cons by (intro exI [of _ ys]) auto
qed

lemma header_alloc_succeeds:
  assumes "hc_inv s xs" and "\<forall>m \<in> set (mallocs s). m" and "zv_http_header_alloc s = (h, s')"
  shows "h \<noteq> NULL \<and> (\<forall>m \<in> set (mallocs s'). m)"
proof (cases xs)
  case (Cons x ys)
  with zv_http_header_alloc_hit [of s x ys] assms have "h = x" "mallocs s' = mallocs s" by auto
  with Cons assms show ?thesis using hc.inv_free [OF assms(1)] by (auto intro: gr0I)
next
  case Nil
  let ?s = "hc_init_once s"
  have "wf_list ?s FreeHeaders []" "1 \<le> brk s" using Nil assms(1) by (simp_all add: hc_inv_def)
  then have "hc_take ?s = malloc ?s" using fl.empty_iff [of ?s] by (simp add: hc_take_def)
  with assms(2,3) \<open>1 \<le> brk s\<close> show ?thesis
    by (auto simp: zv_http_header_alloc_def malloc_def split: list.splits bool.splits if_splits)
qed

lemma header_alloc_inited: "zv_http_header_alloc s = (h, s') \<Longrightarrow> hc_inited s'"
  by (auto simp: zv_http_header_alloc_def hc_take_def Let_def malloc_def
      split: prod.splits if_splits list.splits bool.splits)

lemma hc_inv_list_add:
  assumes "hc_inited s" and "hc_inv s xs" and "wf_list s l ys"
    and "set (n # l # ys) \<inter> set (FreeHeaders # map HdrNode xs) = {}"
  shows "hc_inv (list_add n l s) xs"
proof -
  have "wf_list (list_add n l s) FreeHeaders (map HdrNode xs)"
    using assms by (intro list_add_frame [OF _ assms(3)]) (auto simp: hc_inv_inited)
  with assms show ?thesis by (simp add: hc_inv_inited)
qed

text \<open>One header line is stored: the object is new to the list, and the list is extended at its front.\<close>

lemma hp_save_spec:
  assumes "hdrs_ok a s hs" and "hp_save a (s, r) = (res, (s', r'))"
  shows "r' = r \<and> (\<exists>hs'. hdrs_ok a s' hs') \<and>
     (res = Fail ZV_ERROR \<and> hdrs_ok a s' hs \<or>
      (\<exists>h. res = Go hd_crlf \<and> h \<notin> set hs \<and> hdrs_ok a s' (h # hs) \<and>
         hdrs s' = (hdrs s)(h \<mapsto> \<lparr>key_start = r_cur_header_key_start r, key_end = r_cur_header_key_end r,
            value_start = r_cur_header_value_start r, value_end = r_cur_header_value_end r\<rparr>)))"
proof -
  obtain xs where xs: "hc_inv s xs" "wf_list s (ReqList a) (map HdrNode hs)" "set hs \<inter> set xs = {}" "set hs \<subseteq> dom (hdrs s)"
    using assms(1) by (auto simp: hdrs_ok_def)
  obtain h s1 where al: "zv_http_header_alloc s = (h, s1)" by (cases "zv_http_header_alloc s")
  obtain xs' where xs': "hc_inv s1 xs'" "set xs' \<subseteq> set xs"
    and h: "h = NULL \<and> hdrs s1 = hdrs s \<or> h \<noteq> NULL \<and> h \<notin> dom (hdrs s) - set xs \<and> h \<notin> set xs' \<and> hdrs s1 = (hdrs s)(h \<mapsto> null_header)"
    using header_alloc_spec [OF xs(1) al] by blast
  have hn: "h \<notin> set hs" using h xs(3,4) xs(1) by (auto simp: hc_inv_def)
  have "set (ReqList a # map HdrNode hs) \<inter> ({FreeHeaders, HdrNode h} \<union> HdrNode ` set xs) = {}"
    using xs(3) hn by auto
  with zv_http_header_alloc_frame [OF xs(1) al xs(2)] have wf: "wf_list s1 (ReqList a) (map HdrNode hs)" by simp
  show ?thesis
  proof (cases "h = NULL")
    case True
    with h xs xs' wf assms(2) al have "hdrs_ok a s' hs \<and> res = Fail ZV_ERROR \<and> r' = r"
      by (auto simp: hp_save_def hdrs_ok_def intro!: exI [of _ xs'])
    then show ?thesis by blast
  next
    case False
    let ?hdr = "\<lparr>key_start = r_cur_header_key_start r, key_end = r_cur_header_key_end r,
       value_start = r_cur_header_value_start r, value_end = r_cur_header_value_end r\<rparr>"
    let ?s2 = "s1\<lparr>hdrs := (hdrs s1)(h \<mapsto> ?hdr)\<rparr>"
    have eq: "res = Go hd_crlf" "r' = r" "s' = list_add (HdrNode h) (ReqList a) ?s2"
      using assms(2) al False by (auto simp: hp_save_def Let_def)
    have wf2: "wf_list ?s2 (ReqList a) (map HdrNode hs)" using wf by simp
    have "wf_list s' (ReqList a) (map HdrNode (h # hs))"
      unfolding eq using list_add_wf [OF wf2, of "HdrNode h"] hn by auto
    moreover have "hc_inv s' xs'"
    proof -
      have i: "hc_inited ?s2" using header_alloc_inited [OF al] by simp
      have h1: "h \<in> dom (hdrs s1)" using h False by auto
      then have "hc_inv ?s2 xs'" using xs'(1) i by (auto simp: hc_inv_inited)
      from hc_inv_list_add [OF i this wf2, of "HdrNode h"] show ?thesis
        unfolding eq using xs(3) xs'(2) h False by auto
    qed
    moreover have hd: "hdrs s' = (hdrs s)(h \<mapsto> ?hdr)" using h False by (simp add: eq)
    moreover have "set (h # hs) \<inter> set xs' = {}" "set (h # hs) \<subseteq> dom (hdrs s')" using h False xs xs' hd by auto
    ultimately have "hdrs_ok a s' (h # hs)" by (auto simp: hdrs_ok_def)
    with eq hn hd show ?thesis by blast
  qed
qed

lemma hp_step_hdrs:
  assumes "hdrs_ok a s hs" and "hp_step a p ch st (s, r) = (res, (s', r'))"
  shows "\<exists>new. hdrs_ok a s' (new @ hs)"
proof (cases "st = hd_cr \<and> ch = LF")
  case True
  with assms(2) hp_save_spec [OF assms(1), of r res s' r'] show ?thesis
    by (metis append_Cons append_Nil hp_step.simps(6))
next
  case False
  with assms(2) have "s' = s" by (cases st) (auto split: if_splits)
  with assms(1) show ?thesis by (metis append_Nil)
qed

lemma hp_scan_hdrs:
  assumes "hdrs_ok a s hs" and "scan (hp_step a) p cs st (s, r) = (res, q, (s', r'))"
  shows "\<exists>new. hdrs_ok a s' (new @ hs)"
proof -
  have "\<exists>new. hdrs_ok a (fst (s', r')) (new @ hs)"
  proof (rule scan_invariant [where I = "\<lambda>x. \<exists>new. hdrs_ok a (fst x) (new @ hs)", OF _ _ assms(2)])
    show "\<exists>new. hdrs_ok a (fst (s, r)) (new @ hs)" using assms(1) by (metis append_Nil fst_conv)
  next
    fix p c st res and x x' :: "('a, 'b) hp_mem"
    assume "\<exists>new. hdrs_ok a (fst x) (new @ hs)" "hp_step a p c st x = (res, x')"
    then show "\<exists>new. hdrs_ok a (fst x') (new @ hs)"
      by (cases x, cases x') (metis append_assoc fst_conv hp_step_hdrs)
  qed
  then show ?thesis by simp
qed

section \<open>Feeding the input in pieces\<close>

definition hp_repos :: "nat \<Rightarrow> hd_state \<Rightarrow> ('y, 'z) hp_mem \<Rightarrow> ('y, 'z) hp_mem" where
  "hp_repos p st = apsnd (\<lambda>r. r\<lparr>r_parse_pos := p, r_header_state := st\<rparr>)"

lemma hp_save_commute:
  assumes "r_cur_header_key_start r' = r_cur_header_key_start r" "r_cur_header_key_end r' = r_cur_header_key_end r"
    "r_cur_header_value_start r' = r_cur_header_value_start r" "r_cur_header_value_end r' = r_cur_header_value_end r"
  shows "hp_save a (s, r') = (case hp_save a (s, r) of (res, (s', _)) \<Rightarrow> (res, (s', r')))"
  using assms by (simp add: hp_save_def Let_def split: prod.split)

lemma hp_step_commute:
  assumes "\<And>v r. (g r)\<lparr>r_cur_header_key_start := v\<rparr> = g (r\<lparr>r_cur_header_key_start := v\<rparr>)"
    "\<And>v r. (g r)\<lparr>r_cur_header_key_end := v\<rparr> = g (r\<lparr>r_cur_header_key_end := v\<rparr>)"
    "\<And>v r. (g r)\<lparr>r_cur_header_value_start := v\<rparr> = g (r\<lparr>r_cur_header_value_start := v\<rparr>)"
    "\<And>v r. (g r)\<lparr>r_cur_header_value_end := v\<rparr> = g (r\<lparr>r_cur_header_value_end := v\<rparr>)"
    "\<And>r. r_cur_header_key_start (g r) = r_cur_header_key_start r" "\<And>r. r_cur_header_key_end (g r) = r_cur_header_key_end r"
    "\<And>r. r_cur_header_value_start (g r) = r_cur_header_value_start r" "\<And>r. r_cur_header_value_end (g r) = r_cur_header_value_end r"
  shows "hp_step a p ch st (apsnd g x) = (case hp_step a p ch st x of (res, x') \<Rightarrow> (res, apsnd g x'))"
proof -
  obtain s r where x: "x = (s, r)" by (cases x)
  have "hp_save a (s, g r) = (case hp_save a (s, r) of (res, x') \<Rightarrow> (res, apsnd g x'))"
    using hp_save_commute [of "g r" r a s] assms(5-8) hp_save_request [of a s r]
    by (auto split: prod.splits)
  then show ?thesis unfolding x by (cases st) (simp_all add: assms)
qed

lemma hp_step_feed:
  "hp_step a p ch st (apsnd (feed b l) x) = (case hp_step a p ch st x of (res, x') \<Rightarrow> (res, apsnd (feed b l) x'))"
  by (rule hp_step_commute) (simp_all add: feed_upd)

lemma hp_step_repos:
  "hp_step a p ch st (hp_repos q st' x) = (case hp_step a p ch st x of (res, x') \<Rightarrow> (res, hp_repos q st' x'))"
proof -
  have "(r\<lparr>r_parse_pos := q, r_header_state := st'\<rparr>)\<lparr>r_cur_header_key_start := v\<rparr>
        = (r\<lparr>r_cur_header_key_start := v\<rparr>)\<lparr>r_parse_pos := q, r_header_state := st'\<rparr>"
     "(r\<lparr>r_parse_pos := q, r_header_state := st'\<rparr>)\<lparr>r_cur_header_key_end := v\<rparr>
        = (r\<lparr>r_cur_header_key_end := v\<rparr>)\<lparr>r_parse_pos := q, r_header_state := st'\<rparr>"
     "(r\<lparr>r_parse_pos := q, r_header_state := st'\<rparr>)\<lparr>r_cur_header_value_start := v\<rparr>
        = (r\<lparr>r_cur_header_value_start := v\<rparr>)\<lparr>r_parse_pos := q, r_header_state := st'\<rparr>"
     "(r\<lparr>r_parse_pos := q, r_header_state := st'\<rparr>)\<lparr>r_cur_header_value_end := v\<rparr>
        = (r\<lparr>r_cur_header_value_end := v\<rparr>)\<lparr>r_parse_pos := q, r_header_state := st'\<rparr>"
    for r :: "'b zv_req_parse_scheme" and v
    by (cases r; simp)+
  then show ?thesis unfolding hp_repos_def by (intro hp_step_commute) simp_all
qed

lemma hp_scan_feed:
  "scan (hp_step a) p cs st (apsnd (feed b l) x) = (case scan (hp_step a) p cs st x of (res, q, x') \<Rightarrow> (res, q, apsnd (feed b l) x'))"
  by (rule scan_commute [where N = "p + length cs" and I = "\<lambda>_. True"]) (simp_all add: hp_step_feed)

lemma hp_scan_repos:
  "scan (hp_step a) p cs st (hp_repos k st' x) = (case scan (hp_step a) p cs st x of (res, q, x') \<Rightarrow> (res, q, hp_repos k st' x'))"
  by (rule scan_commute [where N = "p + length cs" and I = "\<lambda>_. True"]) (simp_all add: hp_step_repos)

lemma hp_scan_input: "scan (hp_step a) p cs st x = (res, q, x') \<Longrightarrow> same_input (snd x) (snd x')"
proof (rule scan_invariant [where I = "\<lambda>y. same_input (snd x) (snd y)" and f = "hp_step a" and x = x])
  fix p c st res and y y' :: "('a, 'b) hp_mem"
  assume "same_input (snd x) (snd y)" "hp_step a p c st y = (res, y')"
  then show "same_input (snd x) (snd y')" by (cases y, cases y') (auto simp: same_input_def dest!: hp_step_input)
qed (simp_all add: same_input_def)

lemma parse_body_scan:
  assumes "buf_ok (snd x)" and "r_parse_pos (snd x) \<le> r_last (snd x)"
  shows "zv_http_parse_request_body a x =
     (case scan (hp_step a) (r_parse_pos (snd x)) (unread (snd x) (r_parse_pos (snd x))) (r_header_state (snd x)) x of
        (Go st, q, x') \<Rightarrow> (ZV_AGAIN, hp_repos q st x')
      | (Fail e, q, x') \<Rightarrow> (e, x')
      | (Done, q, x') \<Rightarrow> (ZV_OK, hp_repos (q + 1) hd_start x'))"
  unfolding zv_http_parse_request_body_def hp_loop_scan [OF assms]
  by (simp add: hp_repos_def split: prod.split step_result.split)

lemma hp_step_Fail:
  "hp_step a p ch st x = (Fail e, x') \<Longrightarrow> e \<in> {ZV_HTTP_PARSE_INVALID_HEADER, ZV_ERROR}"
  by (cases x; cases st) (auto simp: hp_save_def Let_def split: if_splits prod.splits)

lemma hp_scan_Fail: "scan (hp_step a) p cs st x = (Fail e, q, x') \<Longrightarrow> e \<notin> {ZV_OK, ZV_AGAIN}"
  by (drule scan_Fail) (auto dest!: hp_step_Fail
      simp: ZV_HTTP_PARSE_INVALID_HEADER_def ZV_ERROR_def ZV_OK_def ZV_AGAIN_def EAGAIN_def)

lemma hp_repos_simps [simp]:
  "hp_repos p st (hp_repos q st' x) = hp_repos p st x"
  "snd (hp_repos p st x) = (snd x)\<lparr>r_parse_pos := p, r_header_state := st\<rparr>"
  by (cases x; simp add: hp_repos_def)+

section \<open>Printed headers\<close>

type_synonym header_line = "string \<times> nat \<times> nat \<times> string"

text \<open>A header line \<open>(k, i, j, v)\<close>: the key, blanks before and after the colon, the value.\<close>

fun header_line :: "header_line \<Rightarrow> string" where
  "header_line (k, i, j, v) = k @ replicate i SP @ CHR '':'' # replicate j SP @ v @ [CR, LF]"

definition header_block :: "header_line list \<Rightarrow> string" where
  "header_block ls = concat (map header_line ls) @ [CR, LF]"

fun well_formed_header :: "header_line \<Rightarrow> bool" where
  "well_formed_header (k, i, j, v) \<longleftrightarrow>
     k \<noteq> [] \<and> hd k \<notin> {CR, LF} \<and> set (tl k) \<inter> {SP, CHR '':''} = {} \<and>
     v \<noteq> [] \<and> hd v \<noteq> SP \<and> set v \<inter> {CR, LF} = {}"

text \<open>The header object \<open>h\<close> holds the key and the value of a line, as positions in the buffer.\<close>

definition holds_line :: "'y header_mem_scheme \<Rightarrow> char list \<Rightarrow> addr \<Rightarrow> header_line \<Rightarrow> bool" where
  "holds_line s buf h = (\<lambda>(k, _, _, v).
     \<exists>ks ke vs ve. hdrs s h = Some \<lparr>key_start = Some ks, key_end = Some ke, value_start = Some vs, value_end = Some ve\<rparr> \<and>
       bslice buf ks ke = k \<and> bslice buf vs ve = v)"

lemma scan_key:
  "set ks \<inter> {SP, CHR '':''} = {} \<Longrightarrow>
     scan (hp_step a) p (ks @ cs) hd_key (s, r) = scan (hp_step a) (p + length ks) cs hd_key (s, r)"
  by (induction ks arbitrary: p) auto

lemma scan_before_colon:
  "scan (hp_step a) p (replicate n SP @ CHR '':'' # cs) hd_spaces_before_colon (s, r) =
     scan (hp_step a) (Suc (p + n)) cs hd_spaces_after_colon (s, r)"
  by (induction n arbitrary: p) simp_all

lemma scan_colon:
  "scan (hp_step a) p (replicate i SP @ CHR '':'' # cs) hd_key (s, r) =
     scan (hp_step a) (Suc (p + i)) cs hd_spaces_after_colon (s, r\<lparr>r_cur_header_key_end := Some p\<rparr>)"
  by (cases i) (simp_all add: scan_before_colon)

lemma scan_gap:
  "c \<noteq> SP \<Longrightarrow> scan (hp_step a) p (replicate j SP @ c # cs) hd_spaces_after_colon (s, r) =
     scan (hp_step a) (Suc (p + j)) cs hd_value (s, r\<lparr>r_cur_header_value_start := Some (p + j)\<rparr>)"
  by (induction j arbitrary: p) auto

lemma scan_value:
  "set vs \<inter> {CR, LF} = {} \<Longrightarrow>
     scan (hp_step a) p (vs @ CR # cs) hd_value (s, r) =
     scan (hp_step a) (Suc (p + length vs)) cs hd_cr (s, r\<lparr>r_cur_header_value_end := Some (p + length vs)\<rparr>)"
  by (induction vs arbitrary: p) auto

lemma scan_header_line:
  assumes "well_formed_header (k, i, j, v)" and "st \<in> {hd_start, hd_crlf}"
    and "vs = p + length k + i + 1 + j"
    and "r' = r\<lparr>r_cur_header_key_start := Some p, r_cur_header_key_end := Some (p + length k),
           r_cur_header_value_start := Some vs, r_cur_header_value_end := Some (vs + length v)\<rparr>"
  shows "scan (hp_step a) p (header_line (k, i, j, v) @ cs) st (s, r) =
     scan (hp_step a) (vs + length v + 1) (LF # cs) hd_cr (s, r')"
proof -
  from assms(1) obtain c ks d ws where k: "k = c # ks" "v = d # ws" "c \<notin> {CR, LF}" "set ks \<inter> {SP, CHR '':''} = {}"
    "d \<noteq> SP" "set ws \<inter> {CR, LF} = {}"
    by (auto simp: neq_Nil_conv)
  have "scan (hp_step a) p (header_line (k, i, j, v) @ cs) st (s, r) =
      scan (hp_step a) (Suc p) (ks @ replicate i SP @ CHR '':'' # replicate j SP @ d # ws @ CR # LF # cs) hd_key
        (s, r\<lparr>r_cur_header_key_start := Some p\<rparr>)"
    using assms(2) k by (auto simp del: replicate.simps)
  also have "\<dots> = scan (hp_step a) (vs + length v + 1) (LF # cs) hd_cr (s, r')"
    unfolding scan_key [OF k(4)] scan_colon scan_gap [OF k(5)] scan_value [OF k(6)]
    by (simp only: k assms(3,4)) (simp add: add_ac del: scan.simps)
  finally show ?thesis .
qed

lemma bslice_part:
  assumes "take n (drop p buf) = xs @ ys @ zs"
  shows "bslice buf (p + length xs) (p + length xs + length ys) = ys"
proof (rule bslice_mid)
  let ?m = "length xs + length ys"
  have "length (xs @ ys @ zs) \<le> n" by (metis assms length_take min.cobounded2)
  then have "take ?m (take n (drop p buf)) = take ?m (drop p buf)" by (simp add: min_def)
  then show "take ?m (drop p buf) = xs @ ys" by (simp add: assms)
qed

lemma holds_header_line:
  assumes "take n (drop p buf) = header_line (k, i, j, v) @ zs" and "vs = p + length k + i + 1 + j"
    and "hdrs s h = Some \<lparr>key_start = Some p, key_end = Some (p + length k), value_start = Some vs, value_end = Some (vs + length v)\<rparr>"
  shows "holds_line s buf h (k, i, j, v)"
proof -
  have "take n (drop p buf) = [] @ k @ (replicate i SP @ CHR '':'' # replicate j SP @ v @ [CR, LF] @ zs)"
    using assms(1) by simp
  from bslice_part [OF this] have k: "bslice buf p (p + length k) = k" by simp
  have "take n (drop p buf) = (k @ replicate i SP @ CHR '':'' # replicate j SP) @ v @ ([CR, LF] @ zs)"
    using assms(1) by simp
  from bslice_part [OF this] have "bslice buf vs (vs + length v) = v" by (simp add: assms(2) add.assoc)
  with k assms(3) show ?thesis by (auto simp: holds_line_def)
qed

lemma scan_header_lines:
  assumes "list_all well_formed_header ls" and "hdrs_ok a s hs" and "\<forall>m \<in> set (mallocs s). m"
    and "st \<in> {hd_start, hd_crlf}" and "take n (drop p (r_buf r)) = concat (map header_line ls) @ zs"
  shows "\<exists>hs' s' r' st'. scan (hp_step a) p (concat (map header_line ls) @ cs) st (s, r) =
           scan (hp_step a) (p + length (concat (map header_line ls))) cs st' (s', r') \<and> st' \<in> {hd_start, hd_crlf} \<and>
         hdrs_ok a s' (rev hs' @ hs) \<and> list_all2 (holds_line s' (r_buf r)) hs' ls \<and> (\<forall>h \<in> set hs. hdrs s' h = hdrs s h)"
  using assms
proof (induction ls arbitrary: n p st s r hs)
  case Nil
  then show ?case by (auto intro!: exI [of _ "[]"])
next
  case (Cons l ls)
  obtain k i j v where l: "l = (k, i, j, v)" by (cases l)
  define vs where "vs = p + length k + i + 1 + j"
  define r1 where "r1 = r\<lparr>r_cur_header_key_start := Some p, r_cur_header_key_end := Some (p + length k),
      r_cur_header_value_start := Some vs, r_cur_header_value_end := Some (vs + length v)\<rparr>"
  let ?rest = "concat (map header_line ls)" and ?len = "length (header_line l)"
  have wf: "well_formed_header (k, i, j, v)" using Cons.prems(1) l by simp
  have line: "scan (hp_step a) p (header_line l @ ?rest @ cs) st (s, r) =
      scan (hp_step a) (vs + length v + 1) (LF # ?rest @ cs) hd_cr (s, r1)"
    unfolding l by (rule scan_header_line [OF wf Cons.prems(4) vs_def r1_def])
  obtain res s1 r1' where save: "hp_save a (s, r1) = (res, (s1, r1'))" by (metis prod.collapse)
  obtain h0 s0 where al: "zv_http_header_alloc s = (h0, s0)" by (cases "zv_http_header_alloc s")
  obtain xs where "hc_inv s xs" using Cons.prems(2) by (auto simp: hdrs_ok_def)
  from header_alloc_succeeds [OF this Cons.prems(3) al] have h0: "h0 \<noteq> NULL" "\<forall>m \<in> set (mallocs s0). m" by blast+
  from save al h0 have m1: "\<forall>m \<in> set (mallocs s1). m" and "res \<noteq> Fail ZV_ERROR"
    by (auto simp: hp_save_def Let_def)
  with hp_save_spec [OF Cons.prems(2) save] obtain h where h: "r1' = r1" "res = Go hd_crlf" "h \<notin> set hs" "hdrs_ok a s1 (h # hs)"
    "hdrs s1 = (hdrs s)(h \<mapsto> \<lparr>key_start = Some p, key_end = Some (p + length k), value_start = Some vs, value_end = Some (vs + length v)\<rparr>)"
    by (auto simp: r1_def)
  have pos: "vs + length v + 2 = p + ?len" by (simp add: l vs_def)
  have buf: "take n (drop p (r_buf r)) = header_line (k, i, j, v) @ ?rest @ zs" using Cons.prems(5) l by simp
  have holds: "holds_line s1 (r_buf r) h l" unfolding l by (rule holds_header_line [OF buf vs_def]) (simp add: h)
  have "take (n - ?len) (drop (p + ?len) (r_buf r)) = ?rest @ zs"
    using arg_cong [OF buf [folded l], of "drop ?len"] by (simp add: drop_take add.commute)
  with Cons.IH [OF _ h(4) m1, of hd_crlf "n - ?len" "p + ?len" r1] Cons.prems(1)
  obtain hs' s' r' st' where ih: "scan (hp_step a) (p + ?len) (?rest @ cs) hd_crlf (s1, r1) =
       scan (hp_step a) (p + ?len + length ?rest) cs st' (s', r')" "st' \<in> {hd_start, hd_crlf}" "hdrs_ok a s' (rev hs' @ h # hs)"
     "list_all2 (holds_line s' (r_buf r)) hs' ls" "\<forall>g \<in> set (h # hs). hdrs s' g = hdrs s1 g"
    by (auto simp: r1_def)
  have "scan (hp_step a) p (concat (map header_line (l # ls)) @ cs) st (s, r) =
      scan (hp_step a) (p + length (concat (map header_line (l # ls)))) cs st' (s', r')"
    using line save h(1,2) ih(1) pos by (simp add: add.assoc)
  moreover have "list_all2 (holds_line s' (r_buf r)) (h # hs') (l # ls)"
    using ih(4,5) holds by (simp add: holds_line_def l)
  moreover have "\<forall>g \<in> set hs. hdrs s' g = hdrs s g" using ih(5) h by auto
  ultimately show ?case using ih(2,3) by (intro exI [of _ "h # hs'"]) auto
qed

lemma scan_pos:
  "scan f p cs st x = (res, q, x') \<Longrightarrow> (case res of Go st' \<Rightarrow> q = p + length cs | _ \<Rightarrow> p \<le> q \<and> q < p + length cs)"
proof (induction cs arbitrary: p st x)
  case (Cons c cs)
  obtain r1 x1 where s: "f p c st x = (r1, x1)" by (cases "f p c st x")
  show ?case
  proof (cases r1)
    case (Go st')
    with Cons.IH [of "Suc p" st' x1] Cons.prems s show ?thesis by (auto split: step_result.splits)
  qed (use Cons.prems s in auto)
qed auto

section \<open>Properties\<close>

text \<open>
  C2. The header parser is incremental: when it asked for more bytes, calling it again after more have
  arrived has the outcome of one call on the whole input, including the header objects it allocated and
  linked, whether it accepts, asks for more, or fails (apart from the position and state fields after a
  failure, which are then not used any more).
\<close>

theorem request_headers_resume:
  assumes "buf_ok r" and "r_parse_pos r \<le> r_last r" and "extends b l r"
    and "zv_http_parse_request_body a (s, r) = (ZV_AGAIN, (s1, r1))"
    and "zv_http_parse_request_body a (s1, feed b l r1) = (rc, x2)"
    and "zv_http_parse_request_body a (s, feed b l r) = (rc', x2')"
  shows "rc = rc' \<and> hp_repos 0 hd_start x2 = hp_repos 0 hd_start x2' \<and> (rc \<in> {ZV_OK, ZV_AGAIN} \<longrightarrow> x2 = x2')"
proof -
  let ?p = "r_parse_pos r" and ?N = "r_last r" and ?ys = "drop (r_last r) (take l b)"
  obtain res q y where sc: "scan (hp_step a) ?p (unread r ?p) (r_header_state r) (s, r) = (res, q, y)"
    by (metis prod.collapse)
  have "res \<noteq> Fail ZV_AGAIN" using hp_scan_Fail [of a ?p "unread r ?p" "r_header_state r" "(s, r)" ZV_AGAIN q y] sc by auto
  with sc assms(4) parse_body_scan [of "(s, r)" a] assms(1,2)
  obtain st where st: "res = Go st" and y: "(s1, r1) = hp_repos q st y"
    by (cases res) (auto simp: ZV_OK_def ZV_AGAIN_def EAGAIN_def)
  have q: "q = ?N" using scan_Go_pos [of "hp_step a"] sc st assms(1,2) by (fastforce simp: unread_def buf_ok_def)
  have same: "same_input r (snd y)" using hp_scan_input [OF sc] by simp
  have "r1 = (snd y)\<lparr>r_parse_pos := q, r_header_state := st\<rparr>" using arg_cong [OF y, of snd] by simp
  then have r1: "r_last r1 = ?N" "r_buf r1 = r_buf r" "r_parse_pos r1 = ?N" "r_header_state r1 = st"
    using same q by (simp_all add: same_input_def)
  have feed1: "(s1, feed b l r1) = hp_repos ?N st (apsnd (feed b l) y)"
    using y q by (cases y; cases "snd y") (simp add: hp_repos_def feed_def)
  have ext1: "extends b l r1" using assms(3) r1 by (simp add: extends_def)
  have u1: "unread (feed b l r1) ?N = ?ys" using unread_feed [OF ext1, of ?N] r1 by (simp add: unread_Nil)
  have ok: "buf_ok (feed b l r)" "buf_ok (feed b l r1)" "?p \<le> l" "?N \<le> l"
    using assms(2,3) by (simp_all add: buf_ok_def extends_def)
  obtain res2 q2 y2 where s2: "scan (hp_step a) ?N ?ys st (apsnd (feed b l) y) = (res2, q2, y2)" by (metis prod.collapse)
  have feedx: "(s, feed b l r) = apsnd (feed b l) (s, r)" by simp
  have whole: "scan (hp_step a) ?p (unread (feed b l r) ?p) (r_header_state r) (s, feed b l r) = (res2, q2, y2)"
    unfolding unread_feed [OF assms(3,2)] scan_append feedx hp_scan_feed using sc st q s2 by simp
  have rest: "scan (hp_step a) ?N ?ys st (s1, feed b l r1) = (res2, q2, hp_repos ?N st y2)"
    unfolding feed1 hp_scan_repos using s2 by simp
  have A: "(rc, x2) = (case (res2, q2, hp_repos ?N st y2) of (Go st, q, x') \<Rightarrow> (ZV_AGAIN, hp_repos q st x')
      | (Fail e, q, x') \<Rightarrow> (e, x') | (Done, q, x') \<Rightarrow> (ZV_OK, hp_repos (q + 1) hd_start x'))"
    using parse_body_scan [of "(s1, feed b l r1)" a] ok r1 u1 rest assms(5) by simp
  have B: "(rc', x2') = (case (res2, q2, y2) of (Go st, q, x') \<Rightarrow> (ZV_AGAIN, hp_repos q st x')
      | (Fail e, q, x') \<Rightarrow> (e, x') | (Done, q, x') \<Rightarrow> (ZV_OK, hp_repos (q + 1) hd_start x'))"
    using parse_body_scan [of "(s, feed b l r)" a] ok whole assms(6) by simp
  have "res2 = Fail e \<Longrightarrow> e \<notin> {ZV_OK, ZV_AGAIN}" for e using hp_scan_Fail whole by fast
  then show ?thesis using A B by (cases res2) auto
qed

definition empty_mem :: header_mem where
  "empty_mem = INIT_LIST_HEAD (ReqList 1)
     \<lparr>nxt = id, prv = id, mallocs = [], brk = 2, hdrs = Map.empty, hc_free_count = 0, hc_inited = False\<rparr>"

lemma empty_mem_ok: "hdrs_ok 1 empty_mem [] \<and> mallocs empty_mem = []"
  by (auto simp: hdrs_ok_def empty_mem_def INIT_LIST_HEAD_wf intro!: exI [of _ "[]"] hc_inv_start)

lemma fresh_parse_body:
  assumes "length s \<le> MAX_BUF"
  shows "zv_http_parse_request_body a (m, fresh_parse s) =
     (case scan (hp_step a) 0 s hd_start (m, fresh_parse s) of
        (Go st, q, x') \<Rightarrow> (ZV_AGAIN, hp_repos q st x')
      | (Fail e, q, x') \<Rightarrow> (e, x')
      | (Done, q, x') \<Rightarrow> (ZV_OK, hp_repos (q + 1) hd_start x'))"
proof -
  have "r_header_state (fresh_parse s) = hd_start" by (simp add: fresh_parse_def)
  with parse_body_scan [of "(m, fresh_parse s)" a] fresh_parse_ok [OF assms] show ?thesis by simp
qed

theorem request_headers_resume_witness:
  "let s = ''Host: a'' @ [CR, LF, CR, LF]; (rc1, (m1, r1)) = zv_http_parse_request_body 1 (empty_mem, fresh_parse ''Host:'');
       (rc, x) = zv_http_parse_request_body 1 (m1, feed (r_buf (fresh_parse s)) (length s) r1)
   in rc1 = ZV_AGAIN \<and> rc = ZV_OK \<and> x = snd (zv_http_parse_request_body 1 (empty_mem, fresh_parse s))"
proof -
  define s where "s = ''Host: a'' @ [CR, LF, CR, LF]"
  have len: "length s \<le> MAX_BUF" "length ''Host:'' \<le> MAX_BUF" by (simp_all add: s_def MAX_BUF_def)
  have ext: "extends (r_buf (fresh_parse s)) (length s) (fresh_parse ''Host:'')"
    "feed (r_buf (fresh_parse s)) (length s) (fresh_parse ''Host:'') = fresh_parse s"
    using feed_fresh_parse [OF len(1), of "''Host:''"] by (simp_all add: s_def)
  obtain m1 r1 where r1: "zv_http_parse_request_body 1 (empty_mem, fresh_parse ''Host:'') = (ZV_AGAIN, (m1, r1))"
    using fresh_parse_body [OF len(2), of 1 empty_mem] by (simp add: hp_repos_def)
  obtain rc x where x: "zv_http_parse_request_body 1 (m1, feed (r_buf (fresh_parse s)) (length s) r1) = (rc, x)"
    by (metis surj_pair)
  obtain x' where x': "zv_http_parse_request_body 1 (empty_mem, fresh_parse s) = (ZV_OK, x')"
  proof -
    have "fst (zv_http_parse_request_body 1 (empty_mem, fresh_parse s)) = ZV_OK"
      unfolding fresh_parse_body [OF len(1)]
      by (simp add: s_def hp_save_def zv_http_header_alloc_def hc_take_def hc_init_once_def malloc_def list_ops_defs empty_mem_def)
    then show ?thesis using that by (metis prod.collapse)
  qed
  have "rc = ZV_OK \<and> x = x'"
    using request_headers_resume [OF _ _ ext(1) r1 x, of ZV_OK x'] fresh_parse_ok [OF len(2)] ext(2) x' by auto
  with r1 x x' show ?thesis unfolding Let_def s_def by simp
qed

text \<open>
  C10. Whatever bytes the header parser reads, and whether or not an allocation fails in the middle, the request's header
  list stays well formed: it consists of the headers it had and the new ones in front of them, all of them
  allocated objects that are not on the free list of the cache; the buffer is unchanged, and the parser
  stays inside the received bytes.
\<close>

theorem request_headers_safe:
  assumes "buf_ok r" and "r_parse_pos r \<le> r_last r" and "hdrs_ok a s hs"
    and "zv_http_parse_request_body a (s, r) = (rc, (s', r'))"
  shows "(\<exists>new. hdrs_ok a s' (new @ hs)) \<and> r_buf r' = r_buf r \<and> r_last r' = r_last r \<and> r_parse_pos r' \<le> r_last r \<and>
         rc \<in> {ZV_OK, ZV_AGAIN, ZV_HTTP_PARSE_INVALID_HEADER, ZV_ERROR}"
proof -
  let ?p = "r_parse_pos r"
  obtain res q y where sc: "scan (hp_step a) ?p (unread r ?p) (r_header_state r) (s, r) = (res, q, y)" by (metis prod.collapse)
  then have sc': "scan (hp_step a) ?p (unread r ?p) (r_header_state r) (s, r) = (res, q, (fst y, snd y))" by simp
  from hp_scan_hdrs [OF assms(3) sc'] obtain new where new: "hdrs_ok a (fst y) (new @ hs)" by blast
  have same: "same_input r (snd y)" using hp_scan_input [OF sc] by simp
  have len: "?p + length (unread r ?p) = r_last r" using assms(1,2) by (simp add: unread_def buf_ok_def)
  have ret: "(rc, (s', r')) = (case res of Go st \<Rightarrow> (ZV_AGAIN, hp_repos q st y) | Fail e \<Rightarrow> (e, y)
      | Done \<Rightarrow> (ZV_OK, hp_repos (q + 1) hd_start y))"
    using parse_body_scan [of "(s, r)" a] assms(1,2,4) sc by (simp split: step_result.splits)
  show ?thesis
  proof (cases res)
    case (Fail e)
    then have "e \<in> {ZV_HTTP_PARSE_INVALID_HEADER, ZV_ERROR}" using scan_Fail [of "hp_step a"] hp_step_Fail sc by metis
    with Fail ret new same assms(2) show ?thesis by (auto simp: same_input_def)
  qed (use ret new same scan_pos [OF sc] len in \<open>cases y, auto simp: hp_repos_def same_input_def\<close>)+
qed

theorem request_headers_safe_witness:
  "\<exists>new. hdrs_ok 1 (fst (snd (zv_http_parse_request_body 1 (empty_mem, fresh_parse (''Host: a'' @ [CR, LF, LF]))))) (new @ [])"
proof -
  have len: "length (''Host: a'' @ [CR, LF, LF]) \<le> MAX_BUF" by (simp add: MAX_BUF_def)
  obtain rc s' r' where p: "zv_http_parse_request_body 1 (empty_mem, fresh_parse (''Host: a'' @ [CR, LF, LF])) = (rc, (s', r'))"
    by (metis prod.collapse)
  from request_headers_safe [OF _ _ _ p, of "[]"] fresh_parse_ok [OF len] empty_mem_ok p show ?thesis by simp
qed

text \<open>
  C11. Reading back a printed header block: any number of header lines, each with a key, a colon with blanks
  around it and a non-empty value, then an empty line, is accepted when no allocation fails; the request's
  list then holds one header object per line, in reverse order, in front of the ones it had, and the stored
  positions delimit exactly the printed keys and values; what follows the block is left unread.
\<close>

theorem request_headers_roundtrip:
  assumes "buf_ok r" and "r_parse_pos r \<le> r_last r" and "r_header_state r = hd_start"
    and "hdrs_ok a s hs" and "\<forall>m \<in> set (mallocs s). m"
    and "list_all well_formed_header ls" and "unread r (r_parse_pos r) = header_block ls @ rest"
  shows "\<exists>s' r' hs'. zv_http_parse_request_body a (s, r) = (ZV_OK, (s', r')) \<and> hdrs_ok a s' (rev hs' @ hs) \<and>
     list_all2 (holds_line s' (r_buf r)) hs' ls \<and> unread r' (r_parse_pos r') = rest \<and> r_header_state r' = hd_start"
proof -
  let ?p = "r_parse_pos r" and ?cs = "concat (map header_line ls)"
  have "take (r_last r - ?p) (drop ?p (r_buf r)) = ?cs @ [CR, LF] @ rest"
    using assms(7) by (simp add: unread_def drop_take header_block_def)
  from scan_header_lines [OF assms(6,4,5) _ this, of hd_start "[CR, LF] @ rest"]
  obtain hs' s' r' st' where sc: "scan (hp_step a) ?p (?cs @ [CR, LF] @ rest) hd_start (s, r) =
      scan (hp_step a) (?p + length ?cs) ([CR, LF] @ rest) st' (s', r')" and st': "st' \<in> {hd_start, hd_crlf}"
    and res: "hdrs_ok a s' (rev hs' @ hs)" "list_all2 (holds_line s' (r_buf r)) hs' ls"
    by auto
  have fin: "scan (hp_step a) ?p (unread r ?p) hd_start (s, r) = (Done, ?p + length ?cs + 1, (s', r'))"
    using sc st' assms(7) by (auto simp: header_block_def)
  have same: "same_input r r'" using hp_scan_input [OF fin] by simp
  have "unread r (?p + length ?cs + 2) = drop (length (header_block ls)) (unread r ?p)"
    by (simp add: unread_def header_block_def add.commute add.left_commute)
  then have "unread r (?p + length ?cs + 2) = rest" by (simp add: assms(7))
  then have "unread (r'\<lparr>r_parse_pos := ?p + length ?cs + 2, r_header_state := hd_start\<rparr>) (?p + length ?cs + 2) = rest"
    using same by (simp add: unread_def same_input_def)
  with parse_body_scan [of "(s, r)" a] assms(1-3) fin res show ?thesis
    by (auto simp: hp_repos_def)
qed

theorem request_headers_roundtrip_witness:
  "fst (zv_http_parse_request_body 1 (empty_mem, fresh_parse (header_block [(''Host'', 0, 1, ''a''), (''X'', 2, 0, ''b:c'')]))) = ZV_OK"
proof -
  define ls :: "header_line list" where "ls = [(''Host'', 0, 1, ''a''), (''X'', 2, 0, ''b:c'')]"
  have len: "length (header_block ls) \<le> MAX_BUF" by (simp add: ls_def header_block_def MAX_BUF_def numeral_2_eq_2)
  note ok = fresh_parse_ok [OF len]
  have "list_all well_formed_header ls" by (simp add: ls_def)
  moreover have "r_header_state (fresh_parse (header_block ls)) = hd_start" by (simp add: fresh_parse_def)
  ultimately show ?thesis
    using request_headers_roundtrip [of "fresh_parse (header_block ls)" 1 empty_mem "[]" ls "[]"] ok empty_mem_ok
    by (auto simp: ls_def)
qed

end
