(* ===== verification/Zv_Path.thy ===== *)
theory Zv_Path
  imports Zv_Prelude
begin

text \<open>
  From the request URI to a file name: the functions \<^verbatim>\<open>hex_val\<close>, \<^verbatim>\<open>percent_decode\<close>,
  \<^verbatim>\<open>normalize_abs_path\<close>, \<^verbatim>\<open>is_path_under_root_real\<close>, \<^verbatim>\<open>parse_uri\<close> and \<^verbatim>\<open>get_file_type\<close> of
  \<^verbatim>\<open>src/src/http.c\<close>. A function that returns \<open>-1\<close> on failure and otherwise fills an output buffer is a
  function to \<^typ>\<open>string option\<close>; the capacity of the buffer is an argument. \<^verbatim>\<open>realpath\<close> of the C library
  reads the file system and is a parameter.

  The lemmas show that decoding inverts percent encoding, that normalisation computes the list of path
  segments with \<^verbatim>\<open>.\<close> and \<^verbatim>\<open>..\<close> resolved, within the bounds of the buffer and of the segment stack, that
  the file name never leaves the document root by its segments, and that the check on real paths is the
  prefix relation on their segments.
\<close>

unbundle bit_operations_syntax

definition SHORTLINE :: nat where "SHORTLINE = 512"

section \<open>Percent decoding\<close>

definition hex_val :: "char \<Rightarrow> int" where
  "hex_val c =
     (if between CHR ''0'' CHR ''9'' c then int (byte_val c) - int (byte_val CHR ''0'')
      else if between CHR ''a'' CHR ''f'' c then 10 + (int (byte_val c) - int (byte_val CHR ''a''))
      else if between CHR ''A'' CHR ''F'' c then 10 + (int (byte_val c) - int (byte_val CHR ''A''))
      else -1)"

definition forbidden_char :: "char \<Rightarrow> bool" where
  "forbidden_char ch \<longleftrightarrow> ch = CHR 0x00 \<or> ch = CHR 0x5C \<or> ch = CR \<or> ch = LF"

text \<open>The end of the loop body: the checks, and the byte appended to the output.\<close>

definition decode_emit :: "nat \<Rightarrow> string \<Rightarrow> char \<Rightarrow> string option" where
  "decode_emit out_cap out ch =
     (if forbidden_char ch then None
      else if length out + 1 \<ge> out_cap then None
      else Some (out @ [ch]))"

fun decode_loop :: "nat \<Rightarrow> string \<Rightarrow> string \<Rightarrow> string option" where
  "decode_loop out_cap [] out = Some out"
| "decode_loop out_cap (ch # cs) out =
     (if ch = CHR ''%'' then
        (case cs of
           c1 # c2 # cs' \<Rightarrow>
             (let hi = hex_val c1; lo = hex_val c2
              in if hi < 0 \<or> lo < 0 then None
                 else (case decode_emit out_cap out (char_of (nat (push_bit 4 hi OR lo))) of
                         None \<Rightarrow> None | Some out' \<Rightarrow> decode_loop out_cap cs' out'))
         | _ \<Rightarrow> None)
      else (case decode_emit out_cap out ch of None \<Rightarrow> None | Some out' \<Rightarrow> decode_loop out_cap cs out'))"

definition percent_decode :: "string \<Rightarrow> nat \<Rightarrow> string option" where
  "percent_decode inp out_cap = (if out_cap = 0 then None else decode_loop out_cap inp [])"

section \<open>Normalisation of absolute paths\<close>

definition STACK_SIZE :: nat where "STACK_SIZE = 256"

text \<open>The output position after dropping the last segment: \<^verbatim>\<open>(sp == 0) ? 1 : stack[sp - 1]\<close>.\<close>

definition stack_top :: "nat list \<Rightarrow> nat" where
  "stack_top stack = (case stack of [] \<Rightarrow> 1 | t # _ \<Rightarrow> t)"

text \<open>
  One segment of the path: the body of the loop after \<^verbatim>\<open>seg_len\<close> is known. \<open>out\<close> are the first
  \<^verbatim>\<open>out_len\<close> bytes of the output; the stack has its top first.
\<close>

definition norm_segment :: "nat \<Rightarrow> string \<Rightarrow> string \<Rightarrow> nat list \<Rightarrow> (string \<times> nat list) option" where
  "norm_segment out_cap seg out stack =
     (if seg = ''.'' then Some (out, stack)
      else if seg = ''..'' then
        (case stack of [] \<Rightarrow> None | _ # stack' \<Rightarrow> Some (take (stack_top stack') out, stack'))
      else if length out > 1 \<and> length out + 1 \<ge> out_cap then None
      else
        (let out1 = (if length out > 1 then out @ ''/'' else out)
         in if length out1 + length seg \<ge> out_cap then None
            else if length stack \<ge> STACK_SIZE then None
            else Some (out1 @ seg, length (out1 @ seg) # stack)))"

lemma dropWhile_segment_shorter:
  "dropWhile (\<lambda>c. c = x) path \<noteq> [] \<Longrightarrow>
     length (dropWhile (\<lambda>c. c \<noteq> x) (dropWhile (\<lambda>c. c = x) path)) < length path"
proof (induction path)
  case (Cons a path)
  then show ?case using length_dropWhile_le [of "\<lambda>c. c \<noteq> x" path] by auto
qed simp

function norm_loop :: "nat \<Rightarrow> string \<Rightarrow> string \<Rightarrow> nat list \<Rightarrow> string option" where
  "norm_loop out_cap path out stack =
     (let p = dropWhile (\<lambda>c. c = CHR ''/'') path
      in if p = [] then Some out
         else
           (case norm_segment out_cap (takeWhile (\<lambda>c. c \<noteq> CHR ''/'') p) out stack of
              None \<Rightarrow> None
            | Some (out', stack') \<Rightarrow> norm_loop out_cap (dropWhile (\<lambda>c. c \<noteq> CHR ''/'') p) out' stack'))"
  by pat_completeness auto
termination
  by (relation "measure (\<lambda>(_, path, _, _). length path)") (simp_all add: dropWhile_segment_shorter)

declare norm_loop.simps [simp del]

definition normalize_abs_path :: "string \<Rightarrow> nat \<Rightarrow> string option" where
  "normalize_abs_path path out_cap =
     (if out_cap < 2 then None
      else if path = [] \<or> hd path \<noteq> CHR ''/'' then None
      else
        (case norm_loop out_cap (tl path) ''/'' [] of
           None \<Rightarrow> None
         | Some out \<Rightarrow>
             if last path = CHR ''/'' \<and> length out > 1 \<and> last out \<noteq> CHR ''/'' then
               (if length out + 1 \<ge> out_cap then None else Some (out @ ''/''))
             else Some out))"

section \<open>The check on real paths\<close>

definition is_path_under_root_real :: "(string \<Rightarrow> string option) \<Rightarrow> string option \<Rightarrow> string \<Rightarrow> bool" where
  "is_path_under_root_real realpath root path =
     (case root of None \<Rightarrow> False | Some root \<Rightarrow>
     (case realpath root of None \<Rightarrow> False | Some root_real \<Rightarrow>
     (case realpath path of None \<Rightarrow> False | Some path_real \<Rightarrow>
        let rlen = length root_real
        in if take rlen path_real \<noteq> root_real then False
           else rlen = length path_real \<or> path_real ! rlen = CHR ''/'')))"

section \<open>The file name of a URI\<close>

text \<open>\<^verbatim>\<open>snprintf(buf, cap, ...)\<close> of a text: what the buffer then holds.\<close>

definition snprintf_text :: "nat \<Rightarrow> string \<Rightarrow> string" where
  "snprintf_text cap s = take (cap - 1) s"

definition after_last :: "char \<Rightarrow> string \<Rightarrow> string" where
  "after_last c s = rev (takeWhile (\<lambda>x. x \<noteq> c) (rev s))"

text \<open>The part of \<^verbatim>\<open>parse_uri\<close> that guesses whether the path names a directory.\<close>

definition path_final :: "string \<Rightarrow> string option" where
  "path_final norm =
     (if norm = [] then None
      else
        let pf = (if last norm = CHR ''/'' then snprintf_text SHORTLINE norm
                  else if CHR ''.'' \<notin> set (after_last CHR ''/'' norm) then snprintf_text SHORTLINE (norm @ ''/'')
                  else snprintf_text SHORTLINE norm)
        in if pf = [] then None
           else if last pf = CHR ''/'' then
             (if length pf + length ''index.html'' + 1 \<ge> SHORTLINE then None else Some (pf @ ''index.html''))
           else Some pf)"

definition parse_uri :: "string option \<Rightarrow> string \<Rightarrow> nat \<Rightarrow> string option" where
  "parse_uri ROOT uri filename_cap =
     (case ROOT of None \<Rightarrow> None | Some root \<Rightarrow>
      if filename_cap = 0 \<or> uri = [] \<or> length uri > SHORTLINE div 2 then None
      else
        let path = takeWhile (\<lambda>c. c \<noteq> CHR ''?'') uri
        in if path = [] then None
           else
             (case percent_decode path SHORTLINE of None \<Rightarrow> None | Some decoded \<Rightarrow>
              if decoded = [] \<or> hd decoded \<noteq> CHR ''/'' then None
              else
                (case normalize_abs_path decoded SHORTLINE of None \<Rightarrow> None | Some norm \<Rightarrow>
                 (case path_final norm of None \<Rightarrow> None | Some pf \<Rightarrow>
                    let path_part = (if root \<noteq> [] \<and> last root = CHR ''/'' \<and> hd pf = CHR ''/'' then tl pf else pf);
                        s = root @ path_part
                    in if length s \<ge> filename_cap then None else Some s))))"

section \<open>MIME types\<close>

definition zaver_mime :: "(string \<times> string) list" where
  "zaver_mime =
     [(''.html'', ''text/html''), (''.xml'', ''text/xml''), (''.xhtml'', ''application/xhtml+xml''),
      (''.txt'', ''text/plain''), (''.rtf'', ''application/rtf''), (''.pdf'', ''application/pdf''),
      (''.word'', ''application/msword''), (''.png'', ''image/png''), (''.gif'', ''image/gif''),
      (''.jpg'', ''image/jpeg''), (''.jpeg'', ''image/jpeg''), (''.au'', ''audio/basic''),
      (''.mpeg'', ''video/mpeg''), (''.mpg'', ''video/mpeg''), (''.avi'', ''video/x-msvideo''),
      (''.gz'', ''application/x-gzip''), (''.tar'', ''application/x-tar''), (''.css'', ''text/css'')]"

definition get_file_type :: "string option \<Rightarrow> string" where
  "get_file_type type =
     (case type of None \<Rightarrow> ''text/plain''
      | Some t \<Rightarrow> (case map_of zaver_mime t of None \<Rightarrow> ''text/plain'' | Some v \<Rightarrow> v))"

section \<open>Percent decoding inverts encoding\<close>

definition hex_digit :: "nat \<Rightarrow> char" where
  "hex_digit n = (if n < 10 then char_of (n + 48) else char_of (n + 55))"

text \<open>An encoder: \<open>f\<close> says which characters are written as percent escapes.\<close>

definition encode_char :: "(char \<Rightarrow> bool) \<Rightarrow> char \<Rightarrow> string" where
  "encode_char f c =
     (if f c \<or> c = CHR ''%'' then [CHR ''%'', hex_digit (byte_val c div 16), hex_digit (byte_val c mod 16)] else [c])"

definition percent_encode :: "(char \<Rightarrow> bool) \<Rightarrow> string \<Rightarrow> string" where
  "percent_encode f s = concat (map (encode_char f) s)"

lemma hex_val_digit: "n < 16 \<Longrightarrow> hex_val (hex_digit n) = int n"
  by (auto simp: hex_val_def hex_digit_def between_def byte_val_def)

lemma nibbles:
  assumes "n < 256"
  shows "nat (push_bit 4 (int (n div 16)) OR int (n mod 16)) = n"
proof -
  have "push_bit 4 (n div 16) OR (n mod 16) = n div 16 * 16 + n mod 16"
  proof -
    have m: "n mod 16 = take_bit 4 n" by (simp add: take_bit_eq_mod)
    have "push_bit 4 (n div 16) AND take_bit 4 n = 0" by (rule bit_eqI) (auto simp: bit_simps)
    then show ?thesis by (simp add: m disjunctive_add_eq_or [symmetric] push_bit_eq_mult)
  qed
  then have "push_bit 4 (n div 16) OR (n mod 16) = n" by simp
  moreover have "push_bit 4 (int (n div 16)) OR int (n mod 16) = int (push_bit 4 (n div 16) OR (n mod 16))"
    by (simp only: of_nat_or_eq of_nat_push_bit)
  ultimately show ?thesis by simp
qed

lemma decode_encode_char:
  "decode_loop cap (encode_char f c @ cs) out =
     (case decode_emit cap out c of None \<Rightarrow> None | Some out' \<Rightarrow> decode_loop cap cs out')"
proof -
  have "hex_val (hex_digit (byte_val c div 16)) = int (byte_val c div 16)"
    "hex_val (hex_digit (byte_val c mod 16)) = int (byte_val c mod 16)"
    using byte_val_less_256 [of c] by (simp_all add: hex_val_digit del: byte_val_less_256)
  moreover have "char_of (nat (push_bit 4 (int (byte_val c div 16)) OR int (byte_val c mod 16))) = c"
    by (simp only: nibbles [OF byte_val_less_256]) (simp add: byte_val_def)
  ultimately show ?thesis by (auto simp: encode_char_def Let_def)
qed

lemma decode_encode_loop:
  "list_all (\<lambda>c. \<not> forbidden_char c) s \<Longrightarrow> length out + length s < cap \<Longrightarrow>
     decode_loop cap (percent_encode f s @ cs) out = decode_loop cap cs (out @ s)"
  by (induction s arbitrary: out) (auto simp: percent_encode_def decode_encode_char decode_emit_def)

lemma decode_loop_bounds:
  "decode_loop cap s out = Some d \<Longrightarrow> length out < cap \<Longrightarrow>
     \<exists>d'. d = out @ d' \<and> length d < cap \<and> length d' \<le> length s \<and> list_all (\<lambda>c. \<not> forbidden_char c) d'"
proof (induction cap s out rule: decode_loop.induct)
  case (2 cap ch cs out)
  show ?case
  proof (cases "ch = CHR ''%''")
    case True
    then obtain c1 c2 cs' out' where "cs = c1 # c2 # cs'"
      and "\<not> (hex_val c1 < 0 \<or> hex_val c2 < 0)"
      and e: "decode_emit cap out (char_of (nat (push_bit 4 (hex_val c1) OR hex_val c2))) = Some out'"
      and d: "decode_loop cap cs' out' = Some d"
      using 2(3) by (auto simp: Let_def split: list.splits if_splits option.splits)
    with 2(1) True 2(4) show ?thesis by (fastforce simp: decode_emit_def split: if_splits)
  next
    case False
    then obtain out' where "decode_emit cap out ch = Some out'" "decode_loop cap cs out' = Some d"
      using 2(3) by (auto split: option.splits)
    with 2(2) False 2(4) show ?thesis by (fastforce simp: decode_emit_def split: if_splits)
  qed
qed simp

section \<open>Path segments\<close>

fun split_slash :: "string \<Rightarrow> string list" where
  "split_slash [] = [[]]"
| "split_slash (c # cs) =
     (if c = CHR ''/'' then [] # split_slash cs
      else (case split_slash cs of [] \<Rightarrow> [[c]] | s # ss \<Rightarrow> (c # s) # ss))"

definition segments :: "string \<Rightarrow> string list" where
  "segments p = filter (\<lambda>s. s \<noteq> []) (split_slash p)"

text \<open>The meaning of \<^verbatim>\<open>.\<close> and \<^verbatim>\<open>..\<close>, with failure above the root.\<close>

fun resolve :: "string list \<Rightarrow> string list \<Rightarrow> string list option" where
  "resolve [] acc = Some acc"
| "resolve (s # ss) acc =
     (if s = ''.'' then resolve ss acc
      else if s = ''..'' then (if acc = [] then None else resolve ss (butlast acc))
      else resolve ss (acc @ [s]))"

definition abs_path :: "string list \<Rightarrow> string" where
  "abs_path ss = (if ss = [] then ''/'' else concat (map (\<lambda>s. CHR ''/'' # s) ss))"

definition plain_segment :: "string \<Rightarrow> bool" where
  "plain_segment s \<longleftrightarrow> s \<noteq> [] \<and> CHR ''/'' \<notin> set s"

definition safe_segment :: "string \<Rightarrow> bool" where
  "safe_segment s \<longleftrightarrow> plain_segment s \<and> s \<noteq> ''.'' \<and> s \<noteq> ''..''"

lemma split_slash_not_Nil [simp]: "split_slash p \<noteq> []"
  by (cases p) (auto split: list.split)

lemma split_slash_takeWhile:
  "split_slash p = takeWhile (\<lambda>c. c \<noteq> CHR ''/'') p #
     (case dropWhile (\<lambda>c. c \<noteq> CHR ''/'') p of [] \<Rightarrow> [] | _ # q \<Rightarrow> split_slash q)"
  by (induction p) (auto split: list.split)

lemma segments_slash [simp]: "segments (CHR ''/'' # p) = segments p"
  by (simp add: segments_def)

lemma segments_Nil [simp]: "segments [] = []"
  by (simp add: segments_def)

lemma segments_dropWhile: "segments (dropWhile (\<lambda>c. c = CHR ''/'') p) = segments p"
  by (induction p) auto

lemma segments_rec:
  assumes "p \<noteq> []" and "hd p \<noteq> CHR ''/''"
  shows "segments p = takeWhile (\<lambda>c. c \<noteq> CHR ''/'') p # segments (dropWhile (\<lambda>c. c \<noteq> CHR ''/'') p)"
proof -
  have ne: "takeWhile (\<lambda>c. c \<noteq> CHR ''/'') p \<noteq> []" using assms by (cases p) auto
  show ?thesis
  proof (cases "dropWhile (\<lambda>c. c \<noteq> CHR ''/'') p")
    case Nil
    with ne show ?thesis unfolding segments_def split_slash_takeWhile [of p] Nil by simp
  next
    case (Cons c q)
    then have "c = CHR ''/''" using hd_dropWhile [of "\<lambda>c. c \<noteq> CHR ''/''" p] by simp
    with ne show ?thesis unfolding segments_def split_slash_takeWhile [of p] Cons by simp
  qed
qed

lemma segments_plain: "s \<in> set (segments p) \<Longrightarrow> plain_segment s"
proof -
  have "s \<in> set (split_slash p) \<Longrightarrow> CHR ''/'' \<notin> set s" for s
    by (induction p arbitrary: s) (auto split: if_splits list.splits)
  then show "s \<in> set (segments p) \<Longrightarrow> plain_segment s" by (auto simp: segments_def plain_segment_def)
qed

lemma split_slash_snoc: "split_slash (p @ ''/'') = split_slash p @ [[]]"
  by (induction p) (auto split: list.split)

lemma segments_snoc [simp]: "segments (p @ ''/'') = segments p"
  by (simp add: segments_def split_slash_snoc)

lemma split_slash_append: "split_slash (p @ CHR ''/'' # q) = split_slash p @ split_slash q"
  by (induction p) (auto split: list.split)

lemma split_slash_plain: "CHR ''/'' \<notin> set s \<Longrightarrow> split_slash s = [s]"
  by (induction s) auto

lemma segments_abs_path: "list_all plain_segment ss \<Longrightarrow> segments (abs_path ss) = ss"
proof -
  have "list_all plain_segment ss \<Longrightarrow> segments (concat (map (\<lambda>s. CHR ''/'' # s) ss)) = ss" for ss
  proof (induction ss rule: rev_induct)
    case (snoc s ss)
    then show ?case
      by (simp add: segments_def split_slash_append split_slash_plain plain_segment_def)
  qed simp
  moreover assume "list_all plain_segment ss"
  ultimately show ?thesis by (simp add: abs_path_def)
qed

lemma resolve_safe:
  "resolve ss acc = Some rs \<Longrightarrow> list_all plain_segment ss \<Longrightarrow> list_all safe_segment acc \<Longrightarrow> list_all safe_segment rs"
proof (induction ss arbitrary: acc)
  case (Cons s ss)
  have "list_all safe_segment (butlast acc)" using Cons.prems(3) by (auto simp: list_all_iff dest: in_set_butlastD)
  moreover have "s \<noteq> ''.'' \<Longrightarrow> s \<noteq> ''..'' \<Longrightarrow> list_all safe_segment (acc @ [s])"
    using Cons.prems(2,3) by (simp add: safe_segment_def [of s])
  ultimately show ?case using Cons by (auto split: if_splits)
qed simp

lemma resolve_safe_id: "list_all safe_segment ss \<Longrightarrow> resolve ss acc = Some (acc @ ss)"
  by (induction ss arbitrary: acc) (auto simp: safe_segment_def)

section \<open>Normalisation computes the resolved segments\<close>

text \<open>The output positions on the stack for a list of segments.\<close>

definition stack_of :: "string list \<Rightarrow> nat list" where
  "stack_of ss = rev (map (\<lambda>i. length (abs_path (take (Suc i) ss))) [0..<length ss])"

lemma stack_of_Nil [simp]: "stack_of [] = []"
  by (simp add: stack_of_def)

lemma stack_of_snoc [simp]: "stack_of (ss @ [s]) = length (abs_path (ss @ [s])) # stack_of ss"
proof -
  have "map (\<lambda>i. length (abs_path (take (Suc i) (ss @ [s])))) [0..<length ss]
      = map (\<lambda>i. length (abs_path (take (Suc i) ss))) [0..<length ss]"
    by (rule map_cong) auto
  then show ?thesis by (simp add: stack_of_def)
qed

lemma length_stack_of [simp]: "length (stack_of ss) = length ss"
  by (simp add: stack_of_def)

lemma stack_top_of: "stack_top (stack_of ss) = length (abs_path ss)"
  by (cases ss rule: rev_cases) (simp_all add: stack_top_def abs_path_def)

lemma abs_path_snoc:
  "abs_path (ss @ [s]) = (if ss = [] then CHR ''/'' # s else abs_path ss @ CHR ''/'' # s)"
  by (simp add: abs_path_def)

lemma abs_path_long: "list_all plain_segment ss \<Longrightarrow> length (abs_path ss) > 1 \<longleftrightarrow> ss \<noteq> []"
  by (cases ss) (auto simp: abs_path_def plain_segment_def)

lemma abs_path_length: "list_all plain_segment ss \<Longrightarrow> 2 * length ss \<le> length (abs_path ss)"
proof (induction ss rule: rev_induct)
  case (snoc s ss)
  then show ?case by (cases s) (auto simp: abs_path_snoc plain_segment_def)
qed simp

lemma norm_segment_resolve:
  assumes "list_all plain_segment acc" and "plain_segment seg" and "cap \<le> 514"
    and "length (abs_path acc) + length seg + (if acc = [] then 0 else 1) < cap"
  shows "norm_segment cap seg (abs_path acc) (stack_of acc) =
     (if seg = ''.'' then Some (abs_path acc, stack_of acc)
      else if seg = ''..'' then
        (if acc = [] then None else Some (abs_path (butlast acc), stack_of (butlast acc)))
      else Some (abs_path (acc @ [seg]), stack_of (acc @ [seg])))"
proof -
  have dots: "take (length (abs_path (butlast acc))) (abs_path acc) = abs_path (butlast acc)" if ne: "acc \<noteq> []"
  proof -
    obtain bs b where "acc = bs @ [b]" using ne by (metis append_butlast_last_id)
    then show ?thesis by (simp add: abs_path_snoc) (simp add: abs_path_def)
  qed
  have st: "stack_of acc = (if acc = [] then [] else length (abs_path acc) # stack_of (butlast acc))"
    by (cases acc rule: rev_cases) simp_all
  have "2 * length acc + 2 < 514"
    using abs_path_length [OF assms(1)] assms(2-4) by (cases seg; cases "acc = []") (auto simp: plain_segment_def)
  then have depth: "length acc < STACK_SIZE" by (simp add: STACK_SIZE_def)
  note long = abs_path_long [OF assms(1)]
  show ?thesis
  proof (cases "seg = ''.'' \<or> seg = ''..''")
    case True
    then show ?thesis using dots st by (auto simp: norm_segment_def stack_top_of)
  next
    case False
    show ?thesis
    proof (cases "acc = []")
      case True
      with False assms(4) depth stack_of_snoc [of "[]" seg] show ?thesis by (simp add: norm_segment_def abs_path_def)
    next
      case ne: False
      with False long assms(4) depth show ?thesis
        by (simp add: norm_segment_def abs_path_snoc Let_def)
    qed
  qed
qed

lemma path_step:
  assumes "p = dropWhile (\<lambda>c. c = CHR ''/'') path" and "p \<noteq> []"
    and "seg = takeWhile (\<lambda>c. c \<noteq> CHR ''/'') p" and "rest = dropWhile (\<lambda>c. c \<noteq> CHR ''/'') p"
  shows "segments path = seg # segments rest \<and> plain_segment seg \<and> (rest = [] \<or> hd rest = CHR ''/'') \<and>
     length seg + length rest + (if hd path = CHR ''/'' then 1 else 0) \<le> length path"
proof -
  have hd: "hd p \<noteq> CHR ''/''" using assms(1,2) hd_dropWhile by blast
  have seg: "segments path = seg # segments rest"
    using segments_rec [OF assms(2) hd] segments_dropWhile [of path] by (simp add: assms(1,3,4))
  have "length seg + length rest = length p"
    unfolding assms(3,4) by (metis length_append takeWhile_dropWhile_id)
  moreover have "length p + (if hd path = CHR ''/'' then 1 else 0) \<le> length path"
  proof (cases path)
    case Nil
    with assms(1,2) show ?thesis by simp
  next
    case (Cons c q)
    with assms(1) length_dropWhile_le [of "\<lambda>c. c = CHR ''/''" q] show ?thesis by auto
  qed
  moreover have "rest = [] \<or> hd rest = CHR ''/''"
    using hd_dropWhile [of "\<lambda>c. c \<noteq> CHR ''/''" p] by (auto simp: assms(4))
  moreover have "plain_segment seg" using segments_plain [of seg path] seg by simp
  ultimately show ?thesis using seg by simp
qed

lemma abs_path_snoc_length:
  "length (abs_path (ss @ [s])) = length (abs_path ss) + length s + (if ss = [] then 0 else 1)"
  by (simp add: abs_path_snoc) (simp add: abs_path_def)

lemma abs_path_butlast_length: "length (abs_path (butlast ss)) \<le> length (abs_path ss)"
  by (cases ss rule: rev_cases) (simp_all add: abs_path_snoc_length)

lemma list_all_butlast: "list_all P xs \<Longrightarrow> list_all P (butlast xs)"
  by (auto simp: list_all_iff dest: in_set_butlastD)

lemma norm_loop_resolve:
  assumes "list_all plain_segment acc" and "cap \<le> 514" and "length (abs_path acc) + length path < cap"
    and "acc \<noteq> [] \<longrightarrow> path = [] \<or> hd path = CHR ''/''"
  shows "norm_loop cap path (abs_path acc) (stack_of acc) = map_option abs_path (resolve (segments path) acc) \<and>
     (\<forall>ss. resolve (segments path) acc = Some ss \<longrightarrow> length (abs_path ss) \<le> length (abs_path acc) + length path)"
  using assms
proof (induction path arbitrary: acc rule: length_induct)
  case (1 path)
  define p where "p = dropWhile (\<lambda>c. c = CHR ''/'') path"
  show ?case
  proof (cases "p = []")
    case True
    then have "segments path = []" using segments_dropWhile [of path] unfolding p_def by (metis segments_Nil)
    with True show ?thesis by (subst norm_loop.simps) (simp add: p_def)
  next
    case False
    define seg where "seg = takeWhile (\<lambda>c. c \<noteq> CHR ''/'') p"
    define rest where "rest = dropWhile (\<lambda>c. c \<noteq> CHR ''/'') p"
    have ps: "segments path = seg # segments rest" "plain_segment seg" "rest = [] \<or> hd rest = CHR ''/''"
      "length seg + length rest + (if hd path = CHR ''/'' then 1 else 0) \<le> length path"
      using path_step [OF p_def False seg_def rest_def] by simp_all
    have path: "path \<noteq> []" using False by (auto simp: p_def)
    have seg: "length seg > 0" using ps(2) by (auto simp: plain_segment_def)
    have loop: "norm_loop cap path (abs_path acc) (stack_of acc) =
        (case norm_segment cap seg (abs_path acc) (stack_of acc) of None \<Rightarrow> None
         | Some (out', stack') \<Rightarrow> norm_loop cap rest out' stack')"
      using False unfolding norm_loop.simps [of cap path] Let_def p_def [symmetric] seg_def [symmetric] rest_def [symmetric]
      by simp
    have len: "length (abs_path acc) + length seg + (if acc = [] then 0 else 1) + length rest \<le> length (abs_path acc) + length path"
      using ps(4) "1.prems"(4) path by (auto split: if_splits)
    then have "length (abs_path acc) + length seg + (if acc = [] then 0 else 1) < cap" using "1.prems"(3) by linarith
    note ns = norm_segment_resolve [OF "1.prems"(1) ps(2) "1.prems"(2) this]
    have IH: "norm_loop cap rest (abs_path acc') (stack_of acc') = map_option abs_path (resolve (segments rest) acc') \<and>
       (\<forall>ss. resolve (segments rest) acc' = Some ss \<longrightarrow> length (abs_path ss) \<le> length (abs_path acc) + length path)"
      if "list_all plain_segment acc'" "length (abs_path acc') + length rest \<le> length (abs_path acc) + length path" for acc'
    proof -
      have "length seg + length rest \<le> length path" using ps(4) by linarith
      with seg have lt: "length rest < length path" by linarith
      have "length (abs_path acc') + length rest < cap" using that(2) "1.prems"(3) by linarith
      with "1.IH" lt that(1) "1.prems"(2) ps(3)
      have *: "norm_loop cap rest (abs_path acc') (stack_of acc') = map_option abs_path (resolve (segments rest) acc') \<and>
          (\<forall>ss. resolve (segments rest) acc' = Some ss \<longrightarrow> length (abs_path ss) \<le> length (abs_path acc') + length rest)"
        by blast
      then show ?thesis using that(2) le_trans by blast
    qed
    consider "seg = ''.''" | "seg = ''..''" | "seg \<noteq> ''.''" "seg \<noteq> ''..''" by blast
    then show ?thesis
    proof cases
      case 1
      with IH [of acc] "1.prems"(1) len show ?thesis unfolding loop ns ps(1) by simp
    next
      case 2
      with IH [of "butlast acc"] list_all_butlast [OF "1.prems"(1)] len abs_path_butlast_length [of acc]
      show ?thesis unfolding loop ns ps(1) by simp
    next
      case 3
      with IH [of "acc @ [seg]"] "1.prems"(1) ps(2) len show ?thesis
        unfolding loop ns ps(1) by (simp add: abs_path_snoc_length)
    qed
  qed
qed

text \<open>The specification of \<^verbatim>\<open>normalize_abs_path\<close>.\<close>

definition norm_spec :: "string \<Rightarrow> string option" where
  "norm_spec path =
     (if path = [] \<or> hd path \<noteq> CHR ''/'' then None
      else map_option (\<lambda>ss. if last path = CHR ''/'' \<and> ss \<noteq> [] then abs_path ss @ ''/'' else abs_path ss)
             (resolve (segments path) []))"

lemma last_abs_path: "list_all plain_segment ss \<Longrightarrow> ss \<noteq> [] \<Longrightarrow> last (abs_path ss) \<noteq> CHR ''/''"
  by (cases ss rule: rev_cases) (auto simp: abs_path_snoc plain_segment_def dest: last_in_set)

lemma resolve_length:
  assumes "resolve (segments path) [] = Some ss" and "length path \<le> 512"
  shows "length (abs_path ss) \<le> Suc (length path)"
  using norm_loop_resolve [of "[]" 514 path] assms by (simp add: abs_path_def)

lemma normalize_abs_path_spec:
  assumes "2 \<le> cap" and "cap \<le> 513" and "length path < cap"
  shows "normalize_abs_path path cap = norm_spec path"
proof (cases "path = [] \<or> hd path \<noteq> CHR ''/''")
  case True
  then show ?thesis by (auto simp: normalize_abs_path_def norm_spec_def)
next
  case False
  then obtain q where q: "path = CHR ''/'' # q" by (cases path) auto
  have loop: "norm_loop cap q ''/'' [] = map_option abs_path (resolve (segments q) [])"
    using norm_loop_resolve [of "[]" cap q] assms q by (simp add: abs_path_def)
  show ?thesis
  proof (cases "resolve (segments q) []")
    case None
    with loop q assms show ?thesis by (simp add: normalize_abs_path_def norm_spec_def)
  next
    case (Some ss)
    have safe: "list_all plain_segment ss"
      using resolve_safe [OF Some] segments_plain by (auto simp: list_all_iff safe_segment_def)
    have len: "length (abs_path ss) + 1 < cap" if tr: "last path = CHR ''/''" and ne: "ss \<noteq> []"
    proof -
      have "q \<noteq> []"
      proof
        assume "q = []"
        with Some ne show False by simp
      qed
      then obtain q' where q': "q = q' @ ''/''" using tr q append_butlast_last_id [of q] by (metis last_ConsR)
      then have "length (abs_path ss) \<le> Suc (length q')" using resolve_length [of q' ss] Some assms q by simp
      with q' q assms(3) show ?thesis by simp
    qed
    have norm: "normalize_abs_path path cap =
        (if last path = CHR ''/'' \<and> ss \<noteq> [] then
           (if length (abs_path ss) + 1 \<ge> cap then None else Some (abs_path ss @ ''/''))
         else Some (abs_path ss))"
      using assms(1) q loop Some abs_path_long [OF safe] last_abs_path [OF safe]
      by (simp add: normalize_abs_path_def)
    have spec: "norm_spec path = Some (if last path = CHR ''/'' \<and> ss \<noteq> [] then abs_path ss @ ''/'' else abs_path ss)"
      using q Some by (simp add: norm_spec_def)
    show ?thesis
    proof (cases "last path = CHR ''/'' \<and> ss \<noteq> []")
      case True
      with len have "\<not> length (abs_path ss) + 1 \<ge> cap" by auto
      with True show ?thesis unfolding norm spec by simp
    next
      case False
      then show ?thesis unfolding norm spec by auto
    qed
  qed
qed

lemma norm_spec_shape:
  assumes "norm_spec path = Some out"
  shows "\<exists>ss. list_all safe_segment ss \<and> (out = abs_path ss \<or> ss \<noteq> [] \<and> out = abs_path ss @ ''/'')"
proof -
  from assms obtain ss where r: "resolve (segments path) [] = Some ss" and out: "out = abs_path ss \<or> ss \<noteq> [] \<and> out = abs_path ss @ ''/''"
    by (auto simp: norm_spec_def split: if_splits)
  have "list_all safe_segment ss" using resolve_safe [OF r] segments_plain by (auto simp: list_all_iff)
  with out show ?thesis by blast
qed

lemma abs_path_Cons: "\<exists>t. abs_path ss = CHR ''/'' # t"
  by (cases ss) (auto simp: abs_path_def)

lemma safe_plain: "list_all safe_segment ss \<Longrightarrow> list_all plain_segment ss"
  by (auto simp: list_all_iff safe_segment_def)

lemma norm_spec_idem:
  assumes "norm_spec path = Some out"
  shows "norm_spec out = Some out"
proof -
  obtain ss where ss: "list_all safe_segment ss" "out = abs_path ss \<or> ss \<noteq> [] \<and> out = abs_path ss @ ''/''"
    using norm_spec_shape [OF assms] by blast
  obtain t where t: "abs_path ss = CHR ''/'' # t" using abs_path_Cons by blast
  have seg: "segments out = ss" using ss segments_abs_path [OF safe_plain [OF ss(1)]] by auto
  have last: "ss \<noteq> [] \<Longrightarrow> last (abs_path ss) \<noteq> CHR ''/''" using last_abs_path [OF safe_plain [OF ss(1)]] .
  have hd: "out \<noteq> []" "hd out = CHR ''/''" using ss(2) t by auto
  have spec: "norm_spec out = Some (if last out = CHR ''/'' \<and> ss \<noteq> [] then abs_path ss @ ''/'' else abs_path ss)"
    using hd seg resolve_safe_id [OF ss(1), of "[]"] by (simp add: norm_spec_def)
  from ss(2) show ?thesis
  proof
    assume "out = abs_path ss"
    with last show ?thesis unfolding spec by auto
  next
    assume "ss \<noteq> [] \<and> out = abs_path ss @ ''/''"
    then show ?thesis unfolding spec by simp
  qed
qed

lemma norm_spec_length:
  assumes "norm_spec path = Some out" and "length path \<le> 512"
  shows "length out \<le> Suc (length path)"
proof -
  from assms(1) obtain q where q: "path = CHR ''/'' # q" by (cases path) (auto simp: norm_spec_def split: if_splits)
  with assms(1) obtain ss where r: "resolve (segments q) [] = Some ss" and out: "length out \<le> Suc (length (abs_path ss))"
    by (auto simp: norm_spec_def split: if_splits)
  from resolve_length [OF r] assms(2) q out show ?thesis by simp
qed

section \<open>File names\<close>

lemma abs_path_prefix:
  assumes "list_all plain_segment rs" and "list_all plain_segment ps" and "rs \<noteq> []"
  shows "(\<exists>t. abs_path ps = abs_path rs @ t \<and> (t = [] \<or> hd t = CHR ''/'')) \<longleftrightarrow> prefix rs ps"
proof
  assume "\<exists>t. abs_path ps = abs_path rs @ t \<and> (t = [] \<or> hd t = CHR ''/'')"
  then obtain t where t: "abs_path ps = abs_path rs @ t" "t = [] \<or> hd t = CHR ''/''" by blast
  have "segments (abs_path rs @ t) = rs @ segments t"
  proof (cases t)
    case Nil
    with segments_abs_path [OF assms(1)] show ?thesis by simp
  next
    case (Cons c u)
    with t(2) have "t = CHR ''/'' # u" by simp
    then show ?thesis using segments_abs_path [OF assms(1)] by (simp add: segments_def split_slash_append)
  qed
  with t(1) segments_abs_path [OF assms(2)] show "prefix rs ps" by (metis prefixI)
next
  assume "prefix rs ps"
  then obtain us where "ps = rs @ us" by (auto simp: prefix_def)
  then have "abs_path ps = abs_path rs @ concat (map (\<lambda>s. CHR ''/'' # s) us)"
    using assms(3) by (simp add: abs_path_def)
  moreover have "concat (map (\<lambda>s. CHR ''/'' # s) us) = [] \<or> hd (concat (map (\<lambda>s. CHR ''/'' # s) us)) = CHR ''/''"
    by (cases us) simp_all
  ultimately show "\<exists>t. abs_path ps = abs_path rs @ t \<and> (t = [] \<or> hd t = CHR ''/'')" by blast
qed

lemma under_root_prefix:
  assumes "realpath root = Some r" and "realpath path = Some p"
  shows "is_path_under_root_real realpath (Some root) path \<longleftrightarrow> (\<exists>t. p = r @ t \<and> (t = [] \<or> hd t = CHR ''/''))"
proof -
  have "(take (length r) p = r \<and> (length r = length p \<or> p ! length r = CHR ''/'')) \<longleftrightarrow>
      (\<exists>t. p = r @ t \<and> (t = [] \<or> hd t = CHR ''/''))" if "length r \<le> length p"
  proof
    assume l: "take (length r) p = r \<and> (length r = length p \<or> p ! length r = CHR ''/'')"
    then have "p = r @ drop (length r) p" by (metis append_take_drop_id)
    moreover have "drop (length r) p = [] \<or> hd (drop (length r) p) = CHR ''/''"
    proof (cases "length r = length p")
      case False
      with that have "length r < length p" by simp
      with hd_drop_conv_nth [OF this] l show ?thesis by simp
    qed simp
    ultimately show "\<exists>t. p = r @ t \<and> (t = [] \<or> hd t = CHR ''/'')" by blast
  next
    assume "\<exists>t. p = r @ t \<and> (t = [] \<or> hd t = CHR ''/'')"
    then obtain t where "p = r @ t" "t = [] \<or> hd t = CHR ''/''" by blast
    then show "take (length r) p = r \<and> (length r = length p \<or> p ! length r = CHR ''/'')"
      by (cases t) (auto simp: nth_append)
  qed
  moreover have "\<not> length r \<le> length p \<Longrightarrow> take (length r) p \<noteq> r \<and> (\<forall>t. p \<noteq> r @ t)" by auto
  ultimately show ?thesis
    using assms by (cases "length r \<le> length p") (auto simp: is_path_under_root_real_def Let_def)
qed

lemma path_final_shape:
  assumes "list_all safe_segment ss" and "norm = abs_path ss \<or> ss \<noteq> [] \<and> norm = abs_path ss @ ''/''"
    and "length norm \<le> 300"
  shows "\<exists>ss'. ss' \<noteq> [] \<and> list_all safe_segment ss' \<and> path_final norm = Some (abs_path ss') \<and>
     (ss' = ss \<or> ss' = ss @ [''index.html''])"
proof -
  have cut: "snprintf_text SHORTLINE x = x" if "length x \<le> 301" for x
    using that by (simp add: snprintf_text_def SHORTLINE_def)
  obtain t where t: "abs_path ss = CHR ''/'' # t" using abs_path_Cons by blast
  have index: "safe_segment ''index.html''" by (simp add: safe_segment_def plain_segment_def)
  have last: "ss \<noteq> [] \<Longrightarrow> last (abs_path ss) \<noteq> CHR ''/''" using last_abs_path [OF safe_plain [OF assms(1)]] .
  consider "ss = []" | "ss \<noteq> []" "norm = abs_path ss @ ''/''" | "ss \<noteq> []" "norm = abs_path ss"
    using assms(2) by blast
  then show ?thesis
  proof cases
    case 1
    then have "norm = ''/''" using assms(2) by (simp add: abs_path_def)
    then have "path_final norm = Some (abs_path [''index.html''])"
      by (simp add: path_final_def cut Let_def abs_path_def) (simp add: SHORTLINE_def)
    with 1 index show ?thesis by (intro exI [of _ "ss @ [''index.html'']"]) simp
  next
    case 2
    then have "path_final norm = Some (abs_path (ss @ [''index.html'']))"
      using assms(3) by (simp add: path_final_def cut Let_def abs_path_snoc) (simp add: SHORTLINE_def)
    with assms(1) index show ?thesis by (intro exI [of _ "ss @ [''index.html'']"]) simp
  next
    case 3
    show ?thesis
    proof (cases "CHR ''.'' \<in> set (after_last CHR ''/'' norm)")
      case True
      with 3 last t assms(3) have "path_final norm = Some (abs_path ss)"
        by (simp add: path_final_def cut Let_def)
      with 3 assms(1) show ?thesis by (intro exI [of _ ss]) simp
    next
      case False
      with 3 last t assms(3) have "path_final norm = Some (abs_path (ss @ [''index.html'']))"
        by (simp add: path_final_def cut Let_def abs_path_snoc) (simp add: SHORTLINE_def)
      with assms(1) index show ?thesis by (intro exI [of _ "ss @ [''index.html'']"]) simp
    qed
  qed
qed

section \<open>Properties\<close>

text \<open>
  C14. Percent decoding inverts percent encoding, whichever characters the encoder chose to escape, for a text without the
  forbidden characters that fits the output buffer; and whatever the input, a decoded text fits the
  buffer with its terminator, is no longer than the input, and contains no NUL, backslash, CR or LF.
\<close>

theorem percent_decode_roundtrip:
  assumes "list_all (\<lambda>c. \<not> forbidden_char c) s" and "length s < cap"
  shows "percent_decode (percent_encode f s) cap = Some s \<and>
     (\<forall>inp d. percent_decode inp cap = Some d \<longrightarrow>
        length d < cap \<and> length d \<le> length inp \<and> list_all (\<lambda>c. \<not> forbidden_char c) d)"
proof -
  have "percent_decode (percent_encode f s) cap = Some s"
    using decode_encode_loop [OF assms(1), of "[]" cap f "[]"] assms(2) by (simp add: percent_decode_def)
  moreover have "length d < cap \<and> length d \<le> length inp \<and> list_all (\<lambda>c. \<not> forbidden_char c) d"
    if "percent_decode inp cap = Some d" for inp d
    using decode_loop_bounds [of cap inp "[]" d] that assms(2) by (auto simp: percent_decode_def)
  ultimately show ?thesis by blast
qed

theorem percent_decode_roundtrip_witness:
  "percent_decode ''a%20b%25'' 16 = Some ''a b%''"
proof -
  have "percent_encode (\<lambda>c. c = SP) ''a b%'' = ''a%20b%25''"
    by code_simp
  with percent_decode_roundtrip [of "''a b%''" 16 "\<lambda>c. c = SP"] show ?thesis
    by (simp add: forbidden_char_def)
qed

text \<open>
  C5. Path normalisation meets its specification: for every path that fits the buffer (capacities up to 513, the
  code uses 512) it returns exactly the path of the segments with empty segments and \<^verbatim>\<open>.\<close> removed and \<^verbatim>\<open>..\<close>
  resolved, and fails exactly when the path is not absolute or some \<^verbatim>\<open>..\<close> goes above the root; neither
  the output bound nor the stack of 256 positions is ever the reason to fail. The result has no segment
  that is empty, \<^verbatim>\<open>.\<close> or \<^verbatim>\<open>..\<close>, and normalising it again changes nothing.
\<close>

theorem normalize_abs_path_correct:
  assumes "2 \<le> cap" and "cap \<le> 513" and "length path < cap"
  shows "normalize_abs_path path cap = norm_spec path \<and>
     (\<forall>out. normalize_abs_path path cap = Some out \<longrightarrow>
        list_all safe_segment (segments out) \<and> norm_spec out = Some out)"
proof -
  have eq: "normalize_abs_path path cap = norm_spec path" using assms by (rule normalize_abs_path_spec)
  have "list_all safe_segment (segments out) \<and> norm_spec out = Some out" if *: "norm_spec path = Some out" for out
  proof -
    obtain ss where ss: "list_all safe_segment ss" "out = abs_path ss \<or> ss \<noteq> [] \<and> out = abs_path ss @ ''/''"
      using norm_spec_shape [OF *] by blast
    then have "segments out = ss" using segments_abs_path [OF safe_plain [OF ss(1)]] by auto
    with ss(1) norm_spec_idem [OF *] show ?thesis by simp
  qed
  with eq show ?thesis by simp
qed

theorem normalize_abs_path_correct_witness:
  "normalize_abs_path ''/a/./b//../c/'' 512 = Some ''/a/c/'' \<and> normalize_abs_path ''/a/../..'' 512 = None"
proof -
  have "norm_spec ''/a/./b//../c/'' = Some ''/a/c/''" "norm_spec ''/a/../..'' = None"
    by (simp_all add: norm_spec_def segments_def abs_path_def)
  with normalize_abs_path_correct [of 512 "''/a/./b//../c/''"] normalize_abs_path_correct [of 512 "''/a/../..''"]
  show ?thesis by simp
qed

text \<open>
  C4. No URI leads out of the document root by its segments: whenever \<^verbatim>\<open>parse_uri\<close> yields a file name, it is
  the root (without a trailing slash) followed by a non-empty list of segments, none of which is empty,
  \<^verbatim>\<open>.\<close> or \<^verbatim>\<open>..\<close>, whatever percent escapes the URI used, and it fits the buffer of the caller.
\<close>

theorem parse_uri_confined:
  assumes "parse_uri (Some root) uri cap = Some filename"
  shows "\<exists>ss. ss \<noteq> [] \<and> list_all safe_segment ss \<and> length filename < cap \<and>
     filename = (if root \<noteq> [] \<and> last root = CHR ''/'' then butlast root else root) @ abs_path ss"
proof -
  let ?path = "takeWhile (\<lambda>c. c \<noteq> CHR ''?'') uri"
  from assms obtain d n pf where len: "length uri \<le> 256" and d: "percent_decode ?path SHORTLINE = Some d"
    and n: "normalize_abs_path d SHORTLINE = Some n" and pf: "path_final n = Some pf"
    and f: "filename = root @ (if root \<noteq> [] \<and> last root = CHR ''/'' \<and> hd pf = CHR ''/'' then tl pf else pf)"
    and cap: "length filename < cap"
    by (auto simp: parse_uri_def Let_def SHORTLINE_def split: if_splits option.splits)
  have "length d \<le> length ?path" "length d < SHORTLINE"
    using decode_loop_bounds [of SHORTLINE ?path "[]" d] d by (auto simp: percent_decode_def SHORTLINE_def)
  moreover have "length ?path \<le> length uri" by (rule length_takeWhile_le)
  ultimately have dl: "length d \<le> 256" using len by linarith
  have spec: "norm_spec d = Some n" using normalize_abs_path_spec [of SHORTLINE d] n dl by (simp add: SHORTLINE_def)
  have nl: "length n \<le> 300" using norm_spec_length [OF spec] dl by simp
  obtain ss where ss: "list_all safe_segment ss" "n = abs_path ss \<or> ss \<noteq> [] \<and> n = abs_path ss @ ''/''"
    using norm_spec_shape [OF spec] by blast
  obtain ss' where ss': "ss' \<noteq> []" "list_all safe_segment ss'" "pf = abs_path ss'"
    using path_final_shape [OF ss nl] pf by auto
  obtain t where t: "abs_path ss' = CHR ''/'' # t" using abs_path_Cons by blast
  have "filename = (if root \<noteq> [] \<and> last root = CHR ''/'' then butlast root else root) @ abs_path ss'"
  proof (cases "root \<noteq> [] \<and> last root = CHR ''/''")
    case True
    then have "root = butlast root @ ''/''" by (metis append_butlast_last_id)
    with True f ss'(3) t have "filename = (butlast root @ ''/'') @ t" by simp
    with True t show ?thesis by simp
  next
    case False
    then show ?thesis using f ss'(3) by auto
  qed
  with ss' cap show ?thesis by blast
qed

theorem parse_uri_confined_witness:
  "parse_uri (Some ''/srv/'') ''/a/%2e%2e/img.png?x=1'' 512 = Some ''/srv/img.png'' \<and>
   (\<exists>ss. ss \<noteq> [] \<and> list_all safe_segment ss \<and> ''/srv/img.png'' = ''/srv'' @ abs_path ss)"
proof -
  have eq: "parse_uri (Some ''/srv/'') ''/a/%2e%2e/img.png?x=1'' 512 = Some ''/srv/img.png''"
    by code_simp
  from parse_uri_confined [OF eq] eq show ?thesis by auto
qed

text \<open>
  C15. The check on real paths: given that \<^verbatim>\<open>realpath\<close> returns canonical absolute paths (as its documentation
  says), a path passes exactly when the segments of the real root are a prefix of the segments of the real
  path; so a sibling directory whose name extends the root's name is refused. Only for the root directory \<^verbatim>\<open>/\<close>
  itself is the check wrong: there it refuses everything but \<^verbatim>\<open>/\<close>.
\<close>

theorem path_under_root_iff:
  assumes "realpath root = Some (abs_path rs)" and "realpath path = Some (abs_path ps)"
    and "list_all safe_segment rs" and "list_all safe_segment ps"
  shows "is_path_under_root_real realpath (Some root) path \<longleftrightarrow> (if rs = [] then ps = [] else prefix rs ps)"
proof (cases "rs = []")
  case False
  with under_root_prefix [OF assms(1,2)] abs_path_prefix [OF assms(3,4) [THEN safe_plain] False] show ?thesis by simp
next
  case True
  have "(\<exists>t. abs_path ps = ''/'' @ t \<and> (t = [] \<or> hd t = CHR ''/'')) \<longleftrightarrow> ps = []"
  proof (cases ps)
    case (Cons s ss)
    with assms(4) have "s \<noteq> []" "CHR ''/'' \<notin> set s" by (auto simp: safe_segment_def plain_segment_def)
    then have "hd s \<noteq> CHR ''/''" by (cases s) auto
    with Cons \<open>s \<noteq> []\<close> show ?thesis by (auto simp: abs_path_def)
  qed (simp add: abs_path_def)
  with True under_root_prefix [OF assms(1,2)] show ?thesis by (simp add: abs_path_def)
qed

definition realpath_example :: "string \<Rightarrow> string option" where
  "realpath_example p =
     map_of [(''/srv'', abs_path [''data'', ''web'']), (''/srv/a'', abs_path [''data'', ''web'', ''a'']),
             (''/srv/l'', abs_path [''data'', ''website'']), (''/'', ''/'')] p"

theorem path_under_root_iff_witness:
  "is_path_under_root_real realpath_example (Some ''/srv'') ''/srv/a'' \<and>
   \<not> is_path_under_root_real realpath_example (Some ''/srv'') ''/srv/l'' \<and>
   \<not> is_path_under_root_real realpath_example (Some ''/'') ''/srv/a''"
proof -
  have safe: "safe_segment ''data''" "safe_segment ''web''" "safe_segment ''a''" "safe_segment ''website''"
    by (simp_all add: safe_segment_def plain_segment_def)
  have r: "realpath_example ''/srv'' = Some (abs_path [''data'', ''web''])"
    "realpath_example ''/srv/a'' = Some (abs_path [''data'', ''web'', ''a''])"
    "realpath_example ''/srv/l'' = Some (abs_path [''data'', ''website''])"
    "realpath_example ''/'' = Some (abs_path [])"
    by (simp_all add: realpath_example_def abs_path_def)
  show ?thesis
    using path_under_root_iff [where realpath = realpath_example, OF r(1,2)]
      path_under_root_iff [where realpath = realpath_example, OF r(1,3)]
      path_under_root_iff [where realpath = realpath_example, OF r(4,2)] safe by simp
qed

end
