(* ===== verification/Zv_Kernel.thy ===== *)
theory Zv_Kernel
  imports Zv_Request
begin

text \<open>
  The operating system as the server sees it. What a peer sends and what the kernel accepts are
  scripts: each \<^verbatim>\<open>read\<close>, \<^verbatim>\<open>writev\<close>, \<^verbatim>\<open>sendfile\<close> or \<^verbatim>\<open>write\<close> on a descriptor takes the next answer of
  the script of that descriptor, and an empty script means that the call would block (\<^verbatim>\<open>EAGAIN\<close>). Since
  the theorems hold for every script, they hold for every behaviour of peers and kernel that a single
  worker process can observe. The state records the bytes accepted on each descriptor, the open regular
  files with their contents, the open descriptors, and the epoll registrations; closing a descriptor
  removes its registration. \<^verbatim>\<open>pipe\<close> and \<^verbatim>\<open>fcntl\<close> take their answers from scripts too and succeed when these are
  used up, \<^verbatim>\<open>fork\<close> returns the next process id and fails when there is none; the state records the programs
  started, the processes killed and the ones waited for. The epoll wrappers of \<^verbatim>\<open>src/src/epoll.c\<close> ignore errors apart from a log
  line, and are modelled on this state.
\<close>

datatype rd = Data string | Eof | RErr int

datatype wr = Accept nat | WErr int

definition EINTR :: int where "EINTR = 4"
definition EPIPE :: int where "EPIPE = 32"
definition ECONNRESET :: int where "ECONNRESET = 104"

datatype ep_events = EPOLLIN | EPOLLOUT

text \<open>The pointer stored with a registration: one of the three item objects of a request.\<close>

datatype ep_data = ConnItem addr | CgiOutItem addr | CgiInItem addr

record ep_reg =
  reg_events :: ep_events
  reg_oneshot :: bool
  reg_armed :: bool
  reg_data :: "ep_data option"

text \<open>A program started in a child process: its file, its environment, and what its standard input and output are.\<close>

record exec =
  ex_pid :: int
  ex_file :: string
  ex_env :: "string list"
  ex_stdin :: int
  ex_stdout :: int

record kio =
  k_in :: "int \<Rightarrow> rd list"
  k_out :: "int \<Rightarrow> wr list"
  k_sent :: "int \<Rightarrow> string"
  k_files :: "int \<Rightarrow> string option"
  k_fds :: "int list"
  k_epoll :: "int \<Rightarrow> ep_reg option"
  k_pipes :: "bool list"
  k_fcntls :: "bool list"
  k_forks :: "int list"
  k_execs :: "exec list"
  k_killed :: "int list"
  k_waited :: "int list"

section \<open>System calls\<close>

text \<open>A call returns \<open>Inl\<close> of the error number or \<open>Inr\<close> of its non-negative result.\<close>

definition sys_read :: "int \<Rightarrow> nat \<Rightarrow> kio \<Rightarrow> (int + string) \<times> kio" where
  "sys_read fd n k =
     (case k_in k fd of
        [] \<Rightarrow> (Inl EAGAIN, k)
      | RErr e # rs \<Rightarrow> (Inl e, k\<lparr>k_in := (k_in k)(fd := rs)\<rparr>)
      | Eof # rs \<Rightarrow> (Inr [], k)
      | Data bs # rs \<Rightarrow>
          (Inr (take n bs), k\<lparr>k_in := (k_in k)(fd := (if drop n bs = [] then rs else Data (drop n bs) # rs))\<rparr>))"

definition sys_write :: "int \<Rightarrow> string \<Rightarrow> kio \<Rightarrow> (int + nat) \<times> kio" where
  "sys_write fd bs k =
     (case k_out k fd of
        [] \<Rightarrow> (Inl EAGAIN, k)
      | WErr e # ws \<Rightarrow> (Inl e, k\<lparr>k_out := (k_out k)(fd := ws)\<rparr>)
      | Accept m # ws \<Rightarrow>
          (Inr (min m (length bs)),
           k\<lparr>k_out := (k_out k)(fd := ws), k_sent := (k_sent k)(fd := k_sent k fd @ take m bs)\<rparr>))"

text \<open>\<^verbatim>\<open>sendfile\<close> reads from the open file at the offset, and returns 0 at its end.\<close>

definition sys_sendfile :: "int \<Rightarrow> int \<Rightarrow> nat \<Rightarrow> nat \<Rightarrow> kio \<Rightarrow> (int + nat) \<times> kio" where
  "sys_sendfile fd file off n k =
     (let bs = take n (drop off (case k_files k file of None \<Rightarrow> [] | Some c \<Rightarrow> c))
      in if bs = [] then (Inr 0, k) else sys_write fd bs k)"

definition lowest_fd :: "int list \<Rightarrow> int" where
  "lowest_fd fds = hd (filter (\<lambda>i. i \<notin> set fds) (map int [0..<Suc (length fds)]))"

definition new_fd :: "kio \<Rightarrow> int \<times> kio" where
  "new_fd k = (let fd = lowest_fd (k_fds k) in (fd, k\<lparr>k_fds := fd # k_fds k\<rparr>))"

definition sys_open :: "string option \<Rightarrow> kio \<Rightarrow> int \<times> kio" where
  "sys_open content k =
     (case content of
        None \<Rightarrow> (-1, k)
      | Some c \<Rightarrow> (case new_fd k of (fd, k') \<Rightarrow> (fd, k'\<lparr>k_files := (k_files k')(fd := Some c)\<rparr>)))"

definition sys_close :: "int \<Rightarrow> kio \<Rightarrow> kio" where
  "sys_close fd k =
     k\<lparr>k_fds := filter (\<lambda>x. x \<noteq> fd) (k_fds k), k_files := (k_files k)(fd := None),
       k_epoll := (k_epoll k)(fd := None)\<rparr>"

definition sys_pipe :: "kio \<Rightarrow> (int \<times> int) option \<times> kio" where
  "sys_pipe k =
     (if k_pipes k \<noteq> [] \<and> \<not> hd (k_pipes k) then (None, k\<lparr>k_pipes := tl (k_pipes k)\<rparr>)
      else case new_fd (k\<lparr>k_pipes := tl (k_pipes k)\<rparr>) of (rfd, k) \<Rightarrow> case new_fd k of (wfd, k) \<Rightarrow> (Some (rfd, wfd), k))"

definition sys_fcntl :: "kio \<Rightarrow> bool \<times> kio" where
  "sys_fcntl k = (k_fcntls k = [] \<or> hd (k_fcntls k), k\<lparr>k_fcntls := tl (k_fcntls k)\<rparr>)"

definition sys_fork :: "kio \<Rightarrow> int \<times> kio" where
  "sys_fork k = (case k_forks k of [] \<Rightarrow> (-1, k) | pid # ps \<Rightarrow> (pid, k\<lparr>k_forks := ps\<rparr>))"

definition sys_kill :: "int \<Rightarrow> kio \<Rightarrow> kio" where
  "sys_kill pid k = k\<lparr>k_killed := pid # k_killed k\<rparr>"

definition sys_waitpid :: "int \<Rightarrow> kio \<Rightarrow> kio" where
  "sys_waitpid pid k = k\<lparr>k_waited := pid # k_waited k\<rparr>"

text \<open>A kernel state in which nothing happens.\<close>

definition quiet_kio :: "int list \<Rightarrow> kio" where
  "quiet_kio fds =
     \<lparr>k_in = \<lambda>_. [], k_out = \<lambda>_. [], k_sent = \<lambda>_. [], k_files = \<lambda>_. None, k_fds = fds, k_epoll = \<lambda>_. None, k_pipes = [],
      k_fcntls = [], k_forks = [], k_execs = [], k_killed = [], k_waited = []\<rparr>"

section \<open>The epoll wrappers\<close>

definition zv_epoll_add :: "int \<Rightarrow> ep_reg \<Rightarrow> kio \<Rightarrow> kio" where
  "zv_epoll_add fd reg k = (if k_epoll k fd = None then k\<lparr>k_epoll := (k_epoll k)(fd := Some reg)\<rparr> else k)"

definition zv_epoll_mod :: "int \<Rightarrow> ep_reg \<Rightarrow> kio \<Rightarrow> kio" where
  "zv_epoll_mod fd reg k = (if k_epoll k fd = None then k else k\<lparr>k_epoll := (k_epoll k)(fd := Some reg)\<rparr>)"

definition zv_epoll_del :: "int \<Rightarrow> kio \<Rightarrow> kio" where
  "zv_epoll_del fd k = k\<lparr>k_epoll := (k_epoll k)(fd := None)\<rparr>"

text \<open>The number of ready events; a wait that a signal interrupted counts as none.\<close>

definition zv_epoll_wait :: "int + nat \<Rightarrow> int" where
  "zv_epoll_wait res = (case res of Inl e \<Rightarrow> if e = EINTR then 0 else -1 | Inr n \<Rightarrow> int n)"

section \<open>Facts\<close>

lemma lowest_fd_spec: "lowest_fd fds \<notin> set fds \<and> 0 \<le> lowest_fd fds"
proof -
  let ?c = "filter (\<lambda>i. i \<notin> set fds) (map int [0..<Suc (length fds)])"
  have "?c \<noteq> []"
  proof
    assume "?c = []"
    then have "set (map int [0..<Suc (length fds)]) \<subseteq> set fds"
      unfolding filter_empty_conv by blast
    then have "card (set (map int [0..<Suc (length fds)])) \<le> card (set fds)" by (simp add: card_mono)
    also have "\<dots> \<le> length fds" by (rule card_length)
    also have "card (set (map int [0..<Suc (length fds)])) = Suc (length fds)"
      by (simp add: card_image del: upt_Suc)
    finally show False by simp
  qed
  then have "hd ?c \<in> set ?c" by (rule hd_in_set)
  then show ?thesis by (auto simp: lowest_fd_def)
qed

lemma sys_write_spec:
  "sys_write fd bs k = (res, k') \<Longrightarrow>
     (case res of
        Inl e \<Rightarrow> k_sent k' = k_sent k
      | Inr n \<Rightarrow> n \<le> length bs \<and> k_sent k' = (k_sent k)(fd := k_sent k fd @ take n bs)) \<and>
     k_files k' = k_files k \<and> k_fds k' = k_fds k \<and> k_epoll k' = k_epoll k \<and> k_in k' = k_in k \<and>
     length (k_out k' fd) \<le> length (k_out k fd) \<and>
     (res \<noteq> Inl EAGAIN \<longrightarrow> length (k_out k' fd) < length (k_out k fd))"
  by (auto simp: sys_write_def min_def split: list.splits wr.splits)

lemma sys_sendfile_spec:
  assumes "sys_sendfile fd file off n k = (res, k')"
  defines "bs \<equiv> take n (drop off (case k_files k file of None \<Rightarrow> [] | Some c \<Rightarrow> c))"
  shows "(case res of
        Inl e \<Rightarrow> k_sent k' = k_sent k
      | Inr m \<Rightarrow> m \<le> length bs \<and> k_sent k' = (k_sent k)(fd := k_sent k fd @ take m bs)) \<and>
     k_files k' = k_files k \<and> k_fds k' = k_fds k \<and> k_epoll k' = k_epoll k \<and> k_in k' = k_in k \<and>
     length (k_out k' fd) \<le> length (k_out k fd) \<and>
     (res \<noteq> Inl EAGAIN \<and> res \<noteq> Inr 0 \<longrightarrow> length (k_out k' fd) < length (k_out k fd))"
proof (cases "bs = []")
  case True
  with assms(1) show ?thesis by (auto simp: sys_sendfile_def bs_def Let_def)
next
  case False
  then have "sys_write fd bs k = (res, k')" using assms(1) by (simp add: sys_sendfile_def bs_def Let_def)
  from sys_write_spec [OF this] show ?thesis by auto
qed

section \<open>Input as a stream\<close>

text \<open>The amount of input still to come, and its bytes up to the end of the file; errors in between are skipped.\<close>

fun rd_weight :: "rd \<Rightarrow> nat" where
  "rd_weight (Data bs) = length bs + 1"
| "rd_weight _ = 1"

definition script_weight :: "rd list \<Rightarrow> nat" where
  "script_weight rs = sum_list (map rd_weight rs)"

lemma sys_read_weight:
  assumes "sys_read fd n k = (res, k')" and "0 < n" and "res \<noteq> Inl EAGAIN" and "res \<noteq> Inr []"
  shows "script_weight (k_in k' fd) < script_weight (k_in k fd)"
  using assms by (auto simp: sys_read_def script_weight_def split: list.splits rd.splits if_splits)

fun stream :: "rd list \<Rightarrow> string" where
  "stream [] = []"
| "stream (Data bs # rs) = (if bs = [] then [] else bs @ stream rs)"
| "stream (RErr e # rs) = stream rs"
| "stream (Eof # rs) = []"

lemma sys_read_stream:
  assumes "sys_read fd n k = (res, k')" and "0 < n"
  shows "res = Inr bs \<Longrightarrow> bs \<noteq> [] \<Longrightarrow> bs @ stream (k_in k' fd) = stream (k_in k fd)"
    and "res = Inl e \<Longrightarrow> stream (k_in k' fd) = stream (k_in k fd)"
    and "res = Inr bs \<Longrightarrow> length bs \<le> n" and "res = Inr [] \<Longrightarrow> stream (k_in k fd) = []"
    and "k_sent k' = k_sent k"
  using assms by (auto simp: sys_read_def split: list.splits rd.splits if_splits)

lemma sys_read_amount:
  assumes "sys_read fd n k = (Inr bs, k')" and "bs \<noteq> []"
  shows "script_weight (k_in k' fd) + length bs \<le> script_weight (k_in k fd)" and "length bs \<le> n"
  using assms by (auto simp: sys_read_def script_weight_def split: list.splits rd.splits if_splits)

end
