(* ===== verification/Zv_Format.thy ===== *)
theory Zv_Format
  imports Zv_Prelude
begin

text \<open>
  Text formatting: the number conversions of \<^verbatim>\<open>printf\<close> that the program uses (\<^verbatim>\<open>%d\<close>, \<^verbatim>\<open>%zu\<close>,
  \<^verbatim>\<open>%zx\<close>), and \<^verbatim>\<open>appendf\<close> of \<^verbatim>\<open>src/src/http.c\<close>, which appends formatted text to a buffer of a given
  capacity. A buffer is modelled by the text it holds; its \<^verbatim>\<open>len\<close> is the length of that text.

  The lemmas show that reading a printed number back gives the number, and that \<^verbatim>\<open>appendf\<close> never
  exceeds the capacity and appends exactly the text when it fits.
\<close>

section \<open>Numbers\<close>

definition digit :: "nat \<Rightarrow> char" where
  "digit d = (if d < 10 then char_of (d + 48) else char_of (d + 87))"

fun print_nat :: "nat \<Rightarrow> nat \<Rightarrow> string" where
  "print_nat base n =
     (if base < 2 \<or> n < base then [digit n] else print_nat base (n div base) @ [digit (n mod base)])"

declare print_nat.simps [simp del]

abbreviation dec_string :: "nat \<Rightarrow> string" where "dec_string \<equiv> print_nat 10"
abbreviation hex_string :: "nat \<Rightarrow> string" where "hex_string \<equiv> print_nat 16"

definition int_string :: "int \<Rightarrow> string" where
  "int_string i = (if i < 0 then CHR ''-'' # dec_string (nat (- i)) else dec_string (nat i))"

definition digit_value :: "char \<Rightarrow> nat" where
  "digit_value c =
     (if between CHR ''0'' CHR ''9'' c then byte_val c - 48
      else if between CHR ''a'' CHR ''f'' c then byte_val c - 87 else 0)"

definition read_nat :: "nat \<Rightarrow> string \<Rightarrow> nat" where
  "read_nat base s = foldl (\<lambda>v c. v * base + digit_value c) 0 s"

lemma digit_value_digit: "d < 16 \<Longrightarrow> digit_value (digit d) = d"
  by (auto simp: digit_value_def digit_def between_def byte_val_def)

lemma digit_graphic: "d < 16 \<Longrightarrow> digit d \<noteq> CR \<and> digit d \<noteq> LF \<and> digit d \<noteq> SP \<and> digit d \<noteq> CHR 0x00"
proof -
  assume "d < 16"
  then have "byte_val (digit d) \<ge> 48" by (auto simp: digit_def byte_val_def)
  then show ?thesis by (auto simp: byte_val_def)
qed

lemma read_print: "2 \<le> base \<Longrightarrow> base \<le> 16 \<Longrightarrow> read_nat base (print_nat base n) = n"
proof (induction base n rule: print_nat.induct)
  case (1 base n)
  show ?case
  proof (cases "n < base")
    case True
    with "1.prems" show ?thesis
      by (subst print_nat.simps) (simp add: read_nat_def digit_value_digit)
  next
    case False
    with 1 have ih: "read_nat base (print_nat base (n div base)) = n div base" by simp
    have "n mod base < 16" using "1.prems" mod_less_divisor [of base n] by linarith
    with False "1.prems" ih show ?thesis
      by (subst print_nat.simps) (simp add: read_nat_def digit_value_digit)
  qed
qed

lemma print_nat_digits:
  "2 \<le> base \<Longrightarrow> base \<le> 16 \<Longrightarrow> print_nat base n \<noteq> [] \<and> (\<forall>c \<in> set (print_nat base n). \<exists>d < 16. c = digit d)"
proof (induction base n rule: print_nat.induct)
  case (1 base n)
  have "n mod base < 16" using "1.prems" mod_less_divisor [of base n] by linarith
  with 1 show ?case by (subst print_nat.simps, subst print_nat.simps) auto
qed

lemma print_nat_length: "2 \<le> base \<Longrightarrow> n < base ^ k \<Longrightarrow> 0 < k \<Longrightarrow> length (print_nat base n) \<le> k"
proof (induction base n arbitrary: k rule: print_nat.induct)
  case (1 base n)
  show ?case
  proof (cases "n < base")
    case True
    with "1.prems" show ?thesis by (subst print_nat.simps) simp
  next
    case False
    obtain j where k: "k = Suc j" using "1.prems" by (cases k) auto
    have j: "0 < j" using False "1.prems" k by (cases j) auto
    have "n div base < base ^ j" using "1.prems" k by (simp add: less_mult_imp_div_less mult.commute)
    with 1 False j k have "length (print_nat base (n div base)) \<le> j" by simp
    with False "1.prems" k show ?thesis by (subst print_nat.simps) simp
  qed
qed

section \<open>Appending to a buffer\<close>

definition appendf :: "nat \<Rightarrow> string \<Rightarrow> string \<Rightarrow> int \<times> string" where
  "appendf cap buf s =
     (if length buf \<ge> cap then (-1, buf)
      else if length s \<ge> cap - length buf then (-1, take (cap - 1) (buf @ s))
      else (0, buf @ s))"

text \<open>A sequence of calls whose results are ignored, as the callers do.\<close>

fun appendfs :: "nat \<Rightarrow> string \<Rightarrow> string list \<Rightarrow> string" where
  "appendfs cap buf [] = buf"
| "appendfs cap buf (s # ss) = appendfs cap (snd (appendf cap buf s)) ss"

lemma appendf_bound: "length buf < cap \<Longrightarrow> length (snd (appendf cap buf s)) < cap"
  by (auto simp: appendf_def)

lemma appendfs_bound: "length buf < cap \<Longrightarrow> length (appendfs cap buf ss) < cap"
  by (induction ss arbitrary: buf) (simp_all add: appendf_bound)

lemma appendfs_exact:
  "length buf + length (concat ss) < cap \<Longrightarrow> appendfs cap buf ss = buf @ concat ss"
  by (induction ss arbitrary: buf) (auto simp: appendf_def)

lemma appendfs_prefix:
  "length buf < cap \<Longrightarrow> appendfs cap buf ss = take (cap - 1) (buf @ concat ss)"
proof (induction ss arbitrary: buf)
  case (Cons s ss)
  show ?case
  proof (cases "length s \<ge> cap - length buf")
    case True
    let ?b = "take (cap - 1) (buf @ s)"
    have l: "length ?b = cap - 1" using True Cons.prems by simp
    with Cons.IH [of ?b] Cons.prems have "appendfs cap ?b ss = take (cap - 1) (?b @ concat ss)" by simp
    also have "\<dots> = take (cap - 1) (buf @ s @ concat ss)" using l True Cons.prems by (simp add: take_append)
    finally show ?thesis using True Cons.prems by (simp add: appendf_def)
  next
    case False
    with Cons.prems Cons.IH [of "buf @ s"] show ?thesis by (simp add: appendf_def)
  qed
qed simp

end
