(* ===== verification/Zv_Output.thy ===== *)
theory Zv_Output
  imports Zv_Kernel Zv_Format Zv_Path
begin

text \<open>
  The output side of \<^verbatim>\<open>src/src/http.c\<close>: preparing a response in the request object
  (\<^verbatim>\<open>prepare_error\<close>, \<^verbatim>\<open>prepare_static\<close>), sending as much of it as the socket accepts
  (\<^verbatim>\<open>try_send\<close>), re-arming the connection in epoll, and releasing what a response holds
  (\<^verbatim>\<open>reset_output\<close>). The functions work on the request and the kernel state; \<^verbatim>\<open>errno\<close> only selects log
  messages here and is left out.

  The lemmas show that however the socket cuts the transfer, the bytes accepted so far followed by those
  still pending are always the prepared response, and that the prepared responses are what they should be,
  in particular that the announced length is the length of the body.
\<close>

section \<open>Output buffers\<close>

definition MAXLINE :: nat where "MAXLINE = 8192"

definition is_expected_disconnect_errno :: "int \<Rightarrow> bool" where
  "is_expected_disconnect_errno e \<longleftrightarrow> e = EPIPE \<or> e = ECONNRESET"

text \<open>The heap block of the body is the field \<^const>\<open>r_out_body\<close> itself, so \<^verbatim>\<open>free\<close> clears it.\<close>

definition reset_output :: "'z zv_req_out_scheme \<times> kio \<Rightarrow> 'z zv_req_out_scheme \<times> kio" where
  "reset_output = (\<lambda>(r, k).
     let r = r\<lparr>r_writing := False, r_out_header_len := 0, r_out_header_sent := 0, r_out_header := [],
               r_out_body := None, r_out_body_len := 0, r_out_body_sent := 0\<rparr>;
         (r, k) = (if r_out_file_fd r \<ge> 0 then (r\<lparr>r_out_file_fd := -1\<rparr>, sys_close (r_out_file_fd r) k) else (r, k))
     in (r\<lparr>r_out_file_offset := 0, r_out_file_size := 0\<rparr>, k))"

section \<open>Sending\<close>

definition header_rest :: "'z zv_req_out_scheme \<Rightarrow> string" where
  "header_rest r = take (r_out_header_len r - r_out_header_sent r) (drop (r_out_header_sent r) (r_out_header r))"

definition body_rest :: "'z zv_req_out_scheme \<Rightarrow> string" where
  "body_rest r =
     (case r_out_body r of None \<Rightarrow> []
      | Some b \<Rightarrow> take (r_out_body_len r - r_out_body_sent r) (drop (r_out_body_sent r) b))"

definition mem_pending :: "'z zv_req_out_scheme \<Rightarrow> bool" where
  "mem_pending r \<longleftrightarrow>
     r_out_header_sent r < r_out_header_len r \<or> r_out_body r \<noteq> None \<and> r_out_body_sent r < r_out_body_len r"

text \<open>The bookkeeping after \<^verbatim>\<open>writev\<close> accepted \<open>n\<close> bytes.\<close>

definition consume :: "nat \<Rightarrow> 'z zv_req_out_scheme \<Rightarrow> 'z zv_req_out_scheme" where
  "consume n r =
     (let hcons = (if r_out_header_sent r < r_out_header_len r then min n (r_out_header_len r - r_out_header_sent r) else 0);
          left = n - hcons;
          r1 = r\<lparr>r_out_header_sent := r_out_header_sent r + hcons\<rparr>
      in if left > 0 \<and> r_out_body r1 \<noteq> None \<and> r_out_body_sent r1 < r_out_body_len r1
         then r1\<lparr>r_out_body_sent := r_out_body_sent r1 + min left (r_out_body_len r1 - r_out_body_sent r1)\<rparr>
         else r1)"

lemma consume_fd [simp]: "r_fd (consume n r) = r_fd r"
  by (simp add: consume_def Let_def)

text \<open>The first loop: \<^const>\<open>None\<close> when header and body are out, else the value returned.\<close>

function send_mem :: "'z zv_req_out_scheme \<times> kio \<Rightarrow> int option \<times> ('z zv_req_out_scheme \<times> kio)" where
  "send_mem (r, k) =
     (if mem_pending r then
        (case sys_write (r_fd r) (header_rest r @ body_rest r) k of
           (Inr n, k') \<Rightarrow> if n > 0 then send_mem (consume n r, k') else (Some (-1), (r, k'))
         | (Inl e, k') \<Rightarrow>
             if e = EINTR then send_mem (r, k')
             else if e = EAGAIN then (Some 1, (r, k'))
             else (Some (-1), (r, k')))
      else (None, (r, k)))"
  by pat_completeness auto
termination
  by (relation "measure (\<lambda>(r, k). length (k_out k (r_fd r)))")
     (auto dest!: sys_write_spec [OF sym] simp: EINTR_def EAGAIN_def)

function send_file :: "'z zv_req_out_scheme \<times> kio \<Rightarrow> int \<times> ('z zv_req_out_scheme \<times> kio)" where
  "send_file (r, k) =
     (if r_out_file_fd r \<ge> 0 \<and> r_out_file_offset r < r_out_file_size r then
        (case sys_sendfile (r_fd r) (r_out_file_fd r) (r_out_file_offset r) (r_out_file_size r - r_out_file_offset r) k of
           (Inr n, k') \<Rightarrow>
             if n > 0 then send_file (r\<lparr>r_out_file_offset := r_out_file_offset r + n\<rparr>, k')
             else (0, (r, k'))
         | (Inl e, k') \<Rightarrow>
             if e = EINTR then send_file (r, k')
             else if e = EAGAIN then (1, (r, k'))
             else (-1, (r, k')))
      else (0, (r, k)))"
  by pat_completeness auto
termination
  by (relation "measure (\<lambda>(r, k). length (k_out k (r_fd r)))")
     (auto dest!: sys_sendfile_spec [OF sym] simp: EINTR_def EAGAIN_def)

declare send_mem.simps [simp del] send_file.simps [simp del]

definition try_send :: "'z zv_req_out_scheme \<times> kio \<Rightarrow> int \<times> ('z zv_req_out_scheme \<times> kio)" where
  "try_send x = (case send_mem x of (Some rc, y) \<Rightarrow> (rc, y) | (None, y) \<Rightarrow> send_file y)"

section \<open>Re-arming the connection\<close>

definition rearm_event :: "addr \<Rightarrow> ep_events \<Rightarrow> zv_http_request \<times> kio \<Rightarrow> kio" where
  "rearm_event a ev = (\<lambda>(r, k).
     zv_epoll_mod (r_fd r)
       \<lparr>reg_events = ev, reg_oneshot = True, reg_armed = True,
        reg_data = (if r_conn_item r = None then None else Some (ConnItem a))\<rparr> k)"

definition keep_alive_timeout_sec :: "'z zv_req_out_scheme \<Rightarrow> int" where
  "keep_alive_timeout_sec r =
     (let ms = r_keep_alive_timeout_ms r
      in if ms = 0 then 0
         else (let sec = sint (ucast ((ms + 999) div 1000) :: u32) in if sec < 1 then 1 else sec))"

section \<open>Preparing responses\<close>

definition CRLF :: string where "CRLF = [CR, LF]"

definition error_body :: "string \<Rightarrow> string \<Rightarrow> string \<Rightarrow> string \<Rightarrow> string list" where
  "error_body cause errnum shortmsg longmsg =
     [''<html><title>Zaver Error</title>'',
      ''<body bgcolor='' @ [CHR 0x22] @ ''ffffff'' @ [CHR 0x22] @ ''>'' @ [LF],
      errnum @ '': '' @ shortmsg @ [LF],
      ''<p>'' @ longmsg @ '': '' @ cause @ [LF] @ ''</p>'',
      ''<hr><em>Zaver web server</em>'' @ [LF] @ ''</body></html>'']"

definition connection_lines :: "bool \<Rightarrow> int \<Rightarrow> string list" where
  "connection_lines keep_alive sec =
     (if keep_alive then [''Connection: keep-alive'' @ CRLF, ''Keep-Alive: timeout='' @ int_string sec @ CRLF]
      else [''Connection: close'' @ CRLF])"

definition error_header :: "string \<Rightarrow> string \<Rightarrow> bool \<Rightarrow> int \<Rightarrow> nat \<Rightarrow> string list" where
  "error_header errnum shortmsg keep_alive sec body_len =
     [''HTTP/1.1 '' @ errnum @ '' '' @ shortmsg @ CRLF, ''Server: Zaver'' @ CRLF, ''Content-type: text/html'' @ CRLF]
     @ connection_lines keep_alive sec
     @ [''Content-length: '' @ dec_string body_len @ CRLF @ CRLF]"

text \<open>The Boolean is the answer of the one \<^verbatim>\<open>malloc\<close>.\<close>

definition prepare_error ::
  "bool \<Rightarrow> string \<Rightarrow> string \<Rightarrow> string \<Rightarrow> string \<Rightarrow> bool \<Rightarrow> 'z zv_req_out_scheme \<times> kio \<Rightarrow> int \<times> ('z zv_req_out_scheme \<times> kio)" where
  "prepare_error malloc_ok cause errnum shortmsg longmsg keep_alive x =
     (case reset_output x of (r, k) \<Rightarrow>
        let r = r\<lparr>r_keep_alive := keep_alive\<rparr>;
            body = appendfs MAXLINE [] (error_body cause errnum shortmsg longmsg)
        in if \<not> malloc_ok then (-1, (r, k))
           else
             let r = r\<lparr>r_out_body := Some body, r_out_body_len := length body, r_out_body_sent := 0\<rparr>;
                 hdr = appendfs ZV_OUT_HEADER_SIZE []
                         (error_header errnum shortmsg keep_alive (keep_alive_timeout_sec r) (length body))
             in (0, (r\<lparr>r_out_header := hdr, r_out_header_len := length hdr, r_out_header_sent := 0,
                       r_out_file_fd := -1\<rparr>, k)))"

text \<open>The response descriptor \<^verbatim>\<open>zv_http_out_t\<close>.\<close>

record zv_http_out =
  o_fd :: int
  o_keep_alive :: bool
  o_mtime :: int
  o_modified :: bool
  o_status :: int

definition get_shortmsg_from_status_code :: "int \<Rightarrow> string" where
  "get_shortmsg_from_status_code c =
     (if c = ZV_HTTP_OK then ''OK'' else if c = ZV_HTTP_NOT_MODIFIED then ''Not Modified''
      else if c = ZV_HTTP_NOT_FOUND then ''Not Found'' else ''Unknown'')"

text \<open>\<^verbatim>\<open>strrchr(filename, '.')\<close>: the text from the last dot on.\<close>

definition dot_suffix :: "string \<Rightarrow> string option" where
  "dot_suffix s = (if CHR ''.'' \<in> set s then Some (CHR ''.'' # after_last CHR ''.'' s) else None)"

definition static_header :: "string \<Rightarrow> string \<Rightarrow> nat \<Rightarrow> int \<Rightarrow> zv_http_out \<Rightarrow> string list" where
  "static_header date file_type filesize sec out =
     [''HTTP/1.1 '' @ int_string (o_status out) @ '' '' @ get_shortmsg_from_status_code (o_status out) @ CRLF]
     @ connection_lines (o_keep_alive out) sec
     @ (if o_modified out
        then [''Content-type: '' @ file_type @ CRLF, ''Content-length: '' @ dec_string filesize @ CRLF,
              ''Last-Modified: '' @ date @ CRLF]
        else [])
     @ [''Server: Zaver'' @ CRLF, CRLF]"

text \<open>
  The file system and the calendar are parameters: \<open>content\<close> gives what \<^verbatim>\<open>open\<close> finds under a name (\<^const>\<open>None\<close>
  if it fails) and \<open>strftime\<close> the date text of a time stamp.
\<close>

definition prepare_static ::
  "(string \<Rightarrow> string option) \<Rightarrow> (int \<Rightarrow> string) \<Rightarrow> string \<Rightarrow> nat \<Rightarrow> zv_http_out \<Rightarrow> 'z zv_req_out_scheme \<times> kio
    \<Rightarrow> int \<times> ('z zv_req_out_scheme \<times> kio)" where
  "prepare_static content strftime filename filesize out x =
     (case reset_output x of (r, k) \<Rightarrow>
        let r = r\<lparr>r_keep_alive := o_keep_alive out\<rparr>;
            hdr = appendfs ZV_OUT_HEADER_SIZE []
                    (static_header (strftime (o_mtime out)) (get_file_type (dot_suffix filename)) filesize
                       (keep_alive_timeout_sec r) out);
            r = r\<lparr>r_out_header := hdr, r_out_header_len := length hdr, r_out_header_sent := 0\<rparr>
        in if \<not> o_modified out then (0, (r\<lparr>r_out_file_fd := -1, r_out_file_offset := 0, r_out_file_size := 0\<rparr>, k))
           else
             (case sys_open (content filename) k of
                (srcfd, k') \<Rightarrow>
                  if srcfd < 0 then (-1, (r, k'))
                  else (0, (r\<lparr>r_out_file_fd := srcfd, r_out_file_offset := 0, r_out_file_size := filesize\<rparr>, k'))))"

section \<open>What is still to be sent\<close>

definition file_rest :: "'z zv_req_out_scheme \<Rightarrow> kio \<Rightarrow> string" where
  "file_rest r k =
     (if r_out_file_fd r \<ge> 0
      then take (r_out_file_size r - r_out_file_offset r)
             (drop (r_out_file_offset r) (case k_files k (r_out_file_fd r) of None \<Rightarrow> [] | Some c \<Rightarrow> c))
      else [])"

definition pending :: "'z zv_req_out_scheme \<Rightarrow> kio \<Rightarrow> string" where
  "pending r k = header_rest r @ body_rest r @ file_rest r k"

definition out_ok :: "'z zv_req_out_scheme \<Rightarrow> bool" where
  "out_ok r \<longleftrightarrow>
     r_out_header_sent r \<le> r_out_header_len r \<and> r_out_header_len r = length (r_out_header r) \<and>
     (\<forall>b. r_out_body r = Some b \<longrightarrow> r_out_body_sent r \<le> r_out_body_len r \<and> r_out_body_len r = length b)"

definition same_file :: "'z zv_req_out_scheme \<Rightarrow> 'z zv_req_out_scheme \<Rightarrow> bool" where
  "same_file r r' \<longleftrightarrow> r_fd r' = r_fd r \<and> r_out_file_fd r' = r_out_file_fd r \<and> r_out_file_size r' = r_out_file_size r"

lemma mem_pending_iff: "out_ok r \<Longrightarrow> mem_pending r \<longleftrightarrow> header_rest r @ body_rest r \<noteq> []"
  by (auto simp: mem_pending_def header_rest_def body_rest_def out_ok_def split: option.splits)

lemma consume_spec:
  assumes "out_ok r" and "n \<le> length (header_rest r @ body_rest r)"
  shows "header_rest (consume n r) @ body_rest (consume n r) = drop n (header_rest r @ body_rest r) \<and>
     out_ok (consume n r) \<and> same_file r (consume n r) \<and> r_out_file_offset (consume n r) = r_out_file_offset r"
proof -
  let ?h = "r_out_header_len r - r_out_header_sent r"
  have hl: "length (header_rest r) = ?h" using assms(1) by (simp add: header_rest_def out_ok_def)
  show ?thesis
  proof (cases "n \<le> ?h")
    case True
    then have "consume n r = r\<lparr>r_out_header_sent := r_out_header_sent r + n\<rparr>"
      using assms(1) by (auto simp: consume_def Let_def out_ok_def)
    with True assms(1) hl show ?thesis
      by (cases "r_out_body r") (auto simp: header_rest_def body_rest_def out_ok_def same_file_def drop_take add.commute)
  next
    case False
    with assms(2) hl obtain b where b: "r_out_body r = Some b" by (auto simp: body_rest_def split: option.splits)
    have n: "n - ?h \<le> r_out_body_len r - r_out_body_sent r"
      using assms b hl by (auto simp: body_rest_def out_ok_def)
    with False have lt: "r_out_body_sent r < r_out_body_len r" by linarith
    have hc: "(if r_out_header_sent r < r_out_header_len r then min n ?h else 0) = ?h" using False by auto
    have c: "consume n r = r\<lparr>r_out_header_sent := r_out_header_sent r + ?h,
        r_out_body_sent := r_out_body_sent r + (n - ?h)\<rparr>"
      unfolding consume_def hc Let_def using False n b lt by (simp add: min_def)
    have "header_rest (consume n r) = []" using assms(1) by (simp add: c header_rest_def out_ok_def)
    moreover have "body_rest (consume n r) = drop (n - ?h) (body_rest r)"
      using b by (simp add: c body_rest_def drop_take add.commute)
    moreover have "drop n (header_rest r @ body_rest r) = drop (n - ?h) (body_rest r)" using False hl by simp
    moreover have "out_ok (consume n r)" using assms(1) b n by (auto simp: c out_ok_def)
    ultimately show ?thesis by (simp add: c same_file_def)
  qed
qed

lemma send_mem_spec:
  assumes "send_mem (r, k) = (res, (r', k'))" and "out_ok r"
  shows "\<exists>n \<le> length (header_rest r @ body_rest r).
     k_sent k' = (k_sent k)(r_fd r := k_sent k (r_fd r) @ take n (header_rest r @ body_rest r)) \<and>
     header_rest r' @ body_rest r' = drop n (header_rest r @ body_rest r) \<and>
     out_ok r' \<and> same_file r r' \<and> r_out_file_offset r' = r_out_file_offset r \<and> k_files k' = k_files k \<and>
     set (k_out k' (r_fd r)) \<subseteq> set (k_out k (r_fd r)) \<and>
     (res = None \<longleftrightarrow> header_rest r' @ body_rest r' = []) \<and> res \<in> {None, Some 1, Some (-1)}"
  using assms
proof (induction "(r, k)" arbitrary: r k res r' k' rule: send_mem.induct)
  case (1 r k)
  let ?bs = "header_rest r @ body_rest r"
  show ?case
  proof (cases "mem_pending r")
    case False
    with "1.prems" mem_pending_iff [OF "1.prems"(2)] show ?thesis
      by (subst (asm) send_mem.simps) (auto simp: same_file_def)
  next
    case True
    obtain wr k1 where w: "sys_write (r_fd r) ?bs k = (wr, k1)" by (cases "sys_write (r_fd r) ?bs k")
    note ws = sys_write_spec [OF w]
    have sub: "set (k_out k1 (r_fd r)) \<subseteq> set (k_out k (r_fd r))"
      using w by (auto simp: sys_write_def split: list.splits wr.splits)
    have ne: "?bs \<noteq> []" using True mem_pending_iff [OF "1.prems"(2)] by simp
    show ?thesis
    proof (cases wr)
      case (Inr n)
      show ?thesis
      proof (cases "n > 0")
        case True
        have n: "n \<le> length ?bs" using ws Inr by simp
        note c = consume_spec [OF "1.prems"(2) n]
        have "send_mem (consume n r, k1) = (res, (r', k'))"
          using "1.prems"(1) \<open>mem_pending r\<close> w Inr True by (subst (asm) send_mem.simps) simp
        from "1.hyps"(2) [OF \<open>mem_pending r\<close> w [symmetric] Inr True this] c
        have "\<exists>m \<le> length (drop n ?bs).
          k_sent k' = (k_sent k1)(r_fd r := k_sent k1 (r_fd r) @ take m (drop n ?bs)) \<and>
          header_rest r' @ body_rest r' = drop m (drop n ?bs) \<and> out_ok r' \<and> same_file (consume n r) r' \<and>
          r_out_file_offset r' = r_out_file_offset (consume n r) \<and> k_files k' = k_files k1 \<and>
          set (k_out k' (r_fd r)) \<subseteq> set (k_out k1 (r_fd r)) \<and>
          (res = None \<longleftrightarrow> header_rest r' @ body_rest r' = []) \<and> res \<in> {None, Some 1, Some (-1)}"
          by (simp only: consume_fd)
        then obtain m where m: "m \<le> length (drop n ?bs)"
          "k_sent k' = (k_sent k1)(r_fd r := k_sent k1 (r_fd r) @ take m (drop n ?bs))"
          "header_rest r' @ body_rest r' = drop m (drop n ?bs)" "out_ok r'" "same_file (consume n r) r'"
          "r_out_file_offset r' = r_out_file_offset (consume n r)" "k_files k' = k_files k1"
          "set (k_out k' (r_fd r)) \<subseteq> set (k_out k1 (r_fd r))"
          "res = None \<longleftrightarrow> header_rest r' @ body_rest r' = []" "res \<in> {None, Some 1, Some (-1)}"
          by blast
        have "k_sent k' = (k_sent k)(r_fd r := k_sent k (r_fd r) @ take (n + m) ?bs)"
          using m(2) ws Inr by (simp add: take_add del: take_append drop_append)
        moreover have "header_rest r' @ body_rest r' = drop (n + m) ?bs"
          using m(3) by (simp add: add.commute del: drop_append)
        moreover have "n + m \<le> length ?bs" using m(1) n by simp
        moreover have "same_file r r'" using m(5) c by (simp add: same_file_def)
        moreover have "k_files k' = k_files k" "r_out_file_offset r' = r_out_file_offset r" using m(6,7) c ws by simp_all
        moreover have "set (k_out k' (r_fd r)) \<subseteq> set (k_out k (r_fd r))" using m(8) sub by blast
        ultimately show ?thesis using m(4,9,10) by blast
      next
        case False
        then have "res = Some (-1)" "r' = r" "k' = k1"
          using "1.prems"(1) \<open>mem_pending r\<close> w Inr by (auto simp: send_mem.simps)
        moreover have "n = 0" "k_sent k1 = k_sent k" "k_files k1 = k_files k" using False ws Inr by simp_all
        ultimately show ?thesis using sub ne "1.prems"(2) by (intro exI [of _ 0]) (auto simp: same_file_def)
      qed
    next
      case (Inl e)
      show ?thesis
      proof (cases "e = EINTR")
        case True
        have "send_mem (r, k1) = (res, (r', k'))"
          using "1.prems"(1) \<open>mem_pending r\<close> w Inl True by (subst (asm) send_mem.simps) simp
        note IH = "1.hyps"(1) [OF \<open>mem_pending r\<close> w [symmetric] Inl True this "1.prems"(2)]
        have eq: "k_sent k1 = k_sent k" "k_files k1 = k_files k" using ws Inl by simp_all
        show ?thesis using IH sub unfolding eq by (meson subset_trans)
      next
        case False
        then have "r' = r \<and> k' = k1 \<and> res \<in> {Some 1, Some (-1)}"
          using "1.prems"(1) \<open>mem_pending r\<close> w Inl by (auto simp: send_mem.simps split: if_splits)
        moreover have "k_sent k1 = k_sent k" "k_files k1 = k_files k" using ws Inl by simp_all
        ultimately show ?thesis using sub ne "1.prems"(2) by (intro exI [of _ 0]) (auto simp: same_file_def)
      qed
    qed
  qed
qed

lemma offset_rest [simp]:
  "header_rest (r\<lparr>r_out_file_offset := off\<rparr>) = header_rest r" "body_rest (r\<lparr>r_out_file_offset := off\<rparr>) = body_rest r"
  "out_ok (r\<lparr>r_out_file_offset := off\<rparr>) = out_ok r" "same_file r1 (r\<lparr>r_out_file_offset := off\<rparr>) = same_file r1 r"
  by (simp_all add: header_rest_def body_rest_def out_ok_def same_file_def split: option.split)

lemma send_file_spec:
  assumes "send_file (r, k) = (rc, (r', k'))"
  shows "\<exists>n \<le> length (file_rest r k).
     k_sent k' = (k_sent k)(r_fd r := k_sent k (r_fd r) @ take n (file_rest r k)) \<and>
     file_rest r' k' = drop n (file_rest r k) \<and> (\<exists>off. r' = r\<lparr>r_out_file_offset := off\<rparr>) \<and> k_files k' = k_files k \<and>
     set (k_out k' (r_fd r)) \<subseteq> set (k_out k (r_fd r)) \<and> rc \<in> {0, 1, -1} \<and>
     (rc = 1 \<longrightarrow> file_rest r' k' \<noteq> []) \<and>
     (rc = 0 \<and> Accept 0 \<notin> set (k_out k (r_fd r)) \<longrightarrow> file_rest r' k' = [])"
  using assms
proof (induction "(r, k)" arbitrary: r k rc r' k' rule: send_file.induct)
  case (1 r k)
  let ?more = "r_out_file_fd r \<ge> 0 \<and> r_out_file_offset r < r_out_file_size r"
  show ?case
  proof (cases ?more)
    case False
    then have eq: "rc = 0" "r' = r" "k' = k" using "1.prems" by (auto simp: send_file.simps)
    have "\<exists>off. r = r\<lparr>r_out_file_offset := off\<rparr>" by (intro exI [of _ "r_out_file_offset r"]) simp
    with False eq show ?thesis by (auto simp: file_rest_def intro!: exI [of _ 0])
  next
    case True
    let ?bs = "file_rest r k"
    obtain res k1 where w: "sys_sendfile (r_fd r) (r_out_file_fd r) (r_out_file_offset r) (r_out_file_size r - r_out_file_offset r) k = (res, k1)"
      by (metis surj_pair)
    have bs: "?bs = take (r_out_file_size r - r_out_file_offset r)
        (drop (r_out_file_offset r) (case k_files k (r_out_file_fd r) of None \<Rightarrow> [] | Some c \<Rightarrow> c))"
      using True by (simp add: file_rest_def)
    note ws = sys_sendfile_spec [OF w, folded bs]
    have sub: "set (k_out k1 (r_fd r)) \<subseteq> set (k_out k (r_fd r))"
      using w by (auto simp: sys_sendfile_def sys_write_def Let_def split: list.splits wr.splits if_splits)
    have same: "\<exists>off. r = r\<lparr>r_out_file_offset := off\<rparr>" by (intro exI [of _ "r_out_file_offset r"]) simp
    have files: "k_files k1 = k_files k" using ws by simp
    show ?thesis
    proof (cases res)
      case (Inr n)
      show ?thesis
      proof (cases "n > 0")
        case pos: True
        let ?r = "r\<lparr>r_out_file_offset := r_out_file_offset r + n\<rparr>"
        have n: "n \<le> length ?bs" using ws Inr by simp
        have rest: "file_rest ?r k1 = drop n ?bs"
          using True n files by (simp add: file_rest_def bs drop_take add.commute)
        have "send_file (?r, k1) = (rc, (r', k'))"
          using "1.prems" True w Inr pos by (subst (asm) send_file.simps) simp
        note IH = "1.hyps"(2) [OF True w [symmetric] Inr pos this]
        have fd: "r_fd ?r = r_fd r" by simp
        from IH [unfolded rest fd] obtain m where m: "m \<le> length (drop n ?bs)"
          "k_sent k' = (k_sent k1)(r_fd r := k_sent k1 (r_fd r) @ take m (drop n ?bs))"
          "file_rest r' k' = drop m (drop n ?bs)" "\<exists>off. r' = ?r\<lparr>r_out_file_offset := off\<rparr>" "k_files k' = k_files k1"
          "set (k_out k' (r_fd r)) \<subseteq> set (k_out k1 (r_fd r))" "rc \<in> {0, 1, -1}"
          "rc = 1 \<longrightarrow> file_rest r' k' \<noteq> []"
          "rc = 0 \<and> Accept 0 \<notin> set (k_out k1 (r_fd r)) \<longrightarrow> file_rest r' k' = []"
          by blast
        have "k_sent k' = (k_sent k)(r_fd r := k_sent k (r_fd r) @ take (n + m) ?bs)"
          using m(2) ws Inr by (simp add: take_add)
        moreover have "file_rest r' k' = drop (n + m) ?bs" using m(3) by (simp add: add.commute)
        moreover have "n + m \<le> length ?bs" using m(1) n by simp
        moreover have "\<exists>off. r' = r\<lparr>r_out_file_offset := off\<rparr>" using m(4) by auto
        moreover have "k_files k' = k_files k" "set (k_out k' (r_fd r)) \<subseteq> set (k_out k (r_fd r))"
          "rc = 0 \<and> Accept 0 \<notin> set (k_out k (r_fd r)) \<longrightarrow> file_rest r' k' = []"
          using m(5,6,9) files sub by auto
        ultimately show ?thesis using m(7,8) by blast
      next
        case False
        then have eq: "rc = 0" "r' = r" "k' = k1" using "1.prems" True w Inr by (auto simp: send_file.simps)
        have rest: "file_rest r k1 = ?bs" by (simp add: file_rest_def files)
        have sent: "k_sent k1 = k_sent k" using False ws Inr by simp
        have "?bs = []" if "Accept 0 \<notin> set (k_out k (r_fd r))"
        proof (rule ccontr)
          assume "?bs \<noteq> []"
          then have "sys_write (r_fd r) ?bs k = (Inr 0, k1)"
            using w Inr False unfolding sys_sendfile_def bs [symmetric] Let_def by simp
          then show False using that \<open>?bs \<noteq> []\<close>
            by (auto simp: sys_write_def min_def split: list.splits wr.splits if_splits)
        qed
        with eq rest sent sub files same show ?thesis by (intro exI [of _ 0]) auto
      qed
    next
      case (Inl e)
      have sent: "k_sent k1 = k_sent k" using ws Inl by simp
      have rest: "file_rest r k1 = ?bs" by (simp add: file_rest_def files)
      have ne: "?bs \<noteq> []" using w Inl unfolding sys_sendfile_def bs [symmetric] Let_def by (auto split: if_splits)
      show ?thesis
      proof (cases "e = EINTR")
        case eintr: True
        have "send_file (r, k1) = (rc, (r', k'))"
          using "1.prems" True w Inl eintr by (subst (asm) send_file.simps) simp
        note IH = "1.hyps"(1) [OF True w [symmetric] Inl eintr this, unfolded rest sent files]
        have "Accept 0 \<notin> set (k_out k (r_fd r)) \<Longrightarrow> Accept 0 \<notin> set (k_out k1 (r_fd r))" using sub by blast
        with IH sub show ?thesis by (elim exE conjE) (intro exI conjI; (assumption | blast))
      next
        case False
        then have "r' = r \<and> k' = k1 \<and> rc \<in> {1, -1}"
          using "1.prems" True w Inl by (auto simp: send_file.simps split: if_splits)
        with rest sent sub files same ne show ?thesis by (intro exI [of _ 0]) auto
      qed
    qed
  qed
qed

text \<open>One call of \<^verbatim>\<open>try_send\<close>: a part of what is pending goes out, in order, and the rest stays pending.\<close>

lemma try_send_spec:
  assumes "out_ok r" and "try_send (r, k) = (rc, (r', k'))"
  shows "\<exists>n \<le> length (pending r k).
     k_sent k' = (k_sent k)(r_fd r := k_sent k (r_fd r) @ take n (pending r k)) \<and>
     pending r' k' = drop n (pending r k) \<and> out_ok r' \<and> same_file r r' \<and> k_files k' = k_files k \<and>
     rc \<in> {0, 1, -1} \<and> (rc = 1 \<longrightarrow> pending r' k' \<noteq> []) \<and>
     (rc = 0 \<and> Accept 0 \<notin> set (k_out k (r_fd r)) \<longrightarrow> pending r' k' = [])"
proof -
  let ?m = "header_rest r @ body_rest r"
  obtain res r1 k1 where sm: "send_mem (r, k) = (res, (r1, k1))" by (metis prod.collapse)
  from send_mem_spec [OF sm assms(1)] obtain n where n: "n \<le> length ?m"
    "k_sent k1 = (k_sent k)(r_fd r := k_sent k (r_fd r) @ take n ?m)" "header_rest r1 @ body_rest r1 = drop n ?m"
    "out_ok r1" "same_file r r1" "r_out_file_offset r1 = r_out_file_offset r" "k_files k1 = k_files k"
    "set (k_out k1 (r_fd r)) \<subseteq> set (k_out k (r_fd r))" "res = None \<longleftrightarrow> header_rest r1 @ body_rest r1 = []"
    "res \<in> {None, Some 1, Some (-1)}"
    by blast
  have p: "pending r k = ?m @ file_rest r k" by (simp add: pending_def)
  have fr: "file_rest r1 k1 = file_rest r k" using n(5-7) by (simp add: file_rest_def same_file_def)
  have p1: "pending r1 k1 = drop n (pending r k)" "take n (pending r k) = take n ?m" "n \<le> length (pending r k)"
    using n(1,3) fr unfolding p by (simp_all add: pending_def)
  show ?thesis
  proof (cases res)
    case (Some c)
    then have eq: "rc = c" "r' = r1" "k' = k1" using assms(2) sm by (auto simp: try_send_def)
    have "pending r1 k1 \<noteq> []" using n(9) Some by (auto simp: pending_def)
    moreover have "rc \<in> {1, -1}" using n(10) Some eq by auto
    ultimately show ?thesis using n(2,4,5,7) p1 unfolding eq by (intro exI [of _ n]) (simp only: p1, auto)
  next
    case None
    have all: "?m = take n ?m" "header_rest r1 = []" "body_rest r1 = []" "n = length ?m"
      using n(1,3,9) None by (auto simp del: append_is_Nil_conv drop_append take_append)
    have sf: "send_file (r1, k1) = (rc, (r', k'))" using assms(2) sm None by (simp add: try_send_def)
    have fd: "r_fd r1 = r_fd r" using n(5) by (simp add: same_file_def)
    from send_file_spec [OF sf, unfolded fr fd] obtain j where j: "j \<le> length (file_rest r k)"
      "k_sent k' = (k_sent k1)(r_fd r := k_sent k1 (r_fd r) @ take j (file_rest r k))"
      "file_rest r' k' = drop j (file_rest r k)" "\<exists>off. r' = r1\<lparr>r_out_file_offset := off\<rparr>" "k_files k' = k_files k1"
      "rc \<in> {0, 1, -1}" "rc = 1 \<longrightarrow> file_rest r' k' \<noteq> []"
      "rc = 0 \<and> Accept 0 \<notin> set (k_out k1 (r_fd r)) \<longrightarrow> file_rest r' k' = []"
      by blast
    have r': "header_rest r' = []" "body_rest r' = []" "out_ok r'" "same_file r r'"
      using j(4) all(2,3) n(4,5) by auto
    then have pr: "pending r' k' = drop j (file_rest r k)" using j(3) by (simp add: pending_def)
    have "k_sent k' = (k_sent k)(r_fd r := k_sent k (r_fd r) @ take (n + j) (pending r k))"
      using j(2) n(2) all by (simp add: p)
    moreover have "pending r' k' = drop (n + j) (pending r k)" using pr all(4) by (simp add: p)
    moreover have "n + j \<le> length (pending r k)" using j(1) all(4) by (simp add: p)
    moreover have "k_files k' = k_files k" "rc = 1 \<longrightarrow> pending r' k' \<noteq> []"
      "rc = 0 \<and> Accept 0 \<notin> set (k_out k (r_fd r)) \<longrightarrow> pending r' k' = []"
      using j(3,5,7,8) n(7,8) pr by auto
    ultimately show ?thesis using r'(3,4) j(6) by blast
  qed
qed

text \<open>
  A transfer over several calls: before each call the socket has a new script of answers (as after each
  \<^verbatim>\<open>EPOLLOUT\<close> event), and the calls go on while they return 1.
\<close>

fun send_rounds :: "wr list list \<Rightarrow> 'z zv_req_out_scheme \<times> kio \<Rightarrow> int \<times> ('z zv_req_out_scheme \<times> kio)" where
  "send_rounds [] x = (1, x)"
| "send_rounds (ws # wss) (r, k) =
     (case try_send (r, k\<lparr>k_out := (k_out k)(r_fd r := ws)\<rparr>) of
        (rc, y) \<Rightarrow> if rc = 1 then send_rounds wss y else (rc, y))"

lemma pending_script [simp]: "pending r (k\<lparr>k_out := f\<rparr>) = pending r k"
  by (simp add: pending_def file_rest_def)

lemma send_rounds_spec:
  assumes "out_ok r" and "send_rounds wss (r, k) = (rc, (r', k'))"
    and "\<forall>ws \<in> set wss. Accept 0 \<notin> set ws"
  shows "\<exists>n \<le> length (pending r k).
     k_sent k' = (k_sent k)(r_fd r := k_sent k (r_fd r) @ take n (pending r k)) \<and>
     pending r' k' = drop n (pending r k) \<and> out_ok r' \<and> r_fd r' = r_fd r \<and> rc \<in> {0, 1, -1} \<and> (rc = 0 \<longrightarrow> pending r' k' = [])"
  using assms
proof (induction wss arbitrary: r k)
  case Nil
  then show ?case by (auto intro!: exI [of _ 0])
next
  case (Cons ws wss)
  let ?k = "k\<lparr>k_out := (k_out k)(r_fd r := ws)\<rparr>"
  obtain rc1 r1 k1 where t: "try_send (r, ?k) = (rc1, (r1, k1))" by (metis prod.collapse)
  from try_send_spec [OF Cons.prems(1) t] Cons.prems(3) obtain n where n: "n \<le> length (pending r k)"
    "k_sent k1 = (k_sent k)(r_fd r := k_sent k (r_fd r) @ take n (pending r k))" "pending r1 k1 = drop n (pending r k)"
    "out_ok r1" "same_file r r1" "rc1 \<in> {0, 1, -1}" "rc1 = 0 \<longrightarrow> pending r1 k1 = []"
    by auto
  have fd: "r_fd r1 = r_fd r" using n(5) by (simp add: same_file_def)
  show ?case
  proof (cases "rc1 = 1")
    case True
    with Cons.prems(2) t have "send_rounds wss (r1, k1) = (rc, (r', k'))" by simp
    moreover have "\<forall>ws \<in> set wss. Accept 0 \<notin> set ws" using Cons.prems(3) by simp
    ultimately have IH: "\<exists>m \<le> length (pending r1 k1).
       k_sent k' = (k_sent k1)(r_fd r1 := k_sent k1 (r_fd r1) @ take m (pending r1 k1)) \<and>
       pending r' k' = drop m (pending r1 k1) \<and> out_ok r' \<and> r_fd r' = r_fd r1 \<and> rc \<in> {0, 1, -1} \<and>
       (rc = 0 \<longrightarrow> pending r' k' = [])"
      by (rule Cons.IH [OF n(4)])
    from IH [unfolded n(3) fd] obtain m where m: "m \<le> length (drop n (pending r k))"
      "k_sent k' = (k_sent k1)(r_fd r := k_sent k1 (r_fd r) @ take m (drop n (pending r k)))"
      "pending r' k' = drop m (drop n (pending r k))" "out_ok r'" "r_fd r' = r_fd r" "rc \<in> {0, 1, -1}" "rc = 0 \<longrightarrow> pending r' k' = []"
      by blast
    have "k_sent k' = (k_sent k)(r_fd r := k_sent k (r_fd r) @ take (n + m) (pending r k))"
      using m(2) n(2) by (simp add: take_add)
    moreover have "pending r' k' = drop (n + m) (pending r k)" using m(3) by (simp add: add.commute)
    moreover have "n + m \<le> length (pending r k)" using m(1) n(1) by simp
    ultimately show ?thesis using m(4-7) by blast
  next
    case False
    with Cons.prems(2) t have "rc = rc1" "r' = r1" "k' = k1" by simp_all
    with n fd show ?thesis by blast
  qed
qed

section \<open>The prepared responses\<close>

lemma reset_output_spec:
  assumes "reset_output (r, k) = (r', k')"
  shows "out_ok r' \<and> pending r' k' = [] \<and> r_out_file_fd r' < 0 \<and> \<not> r_writing r' \<and> r_out_body r' = None \<and> r_fd r' = r_fd r \<and>
     r_keep_alive_timeout_ms r' = r_keep_alive_timeout_ms r \<and> k_sent k' = k_sent k \<and>
     k' = (if r_out_file_fd r \<ge> 0 then sys_close (r_out_file_fd r) k else k)"
  using assms by (auto simp: reset_output_def Let_def out_ok_def pending_def header_rest_def body_rest_def file_rest_def
      sys_close_def split: if_splits)

lemma keep_alive_timeout_sec_range: "0 \<le> keep_alive_timeout_sec r \<and> keep_alive_timeout_sec r < 2 ^ 31"
proof -
  have "sint (w :: u32) < 2 ^ 31" for w using sint_lt [of w] by simp
  then show ?thesis by (auto simp: keep_alive_timeout_sec_def Let_def not_less)
qed

lemma int_string_length: "0 \<le> i \<Longrightarrow> i < 2 ^ 31 \<Longrightarrow> length (int_string i) \<le> 10"
proof -
  assume "0 \<le> i" "i < 2 ^ 31"
  then have "nat i < 10 ^ 10" by simp
  with print_nat_length [of 10 "nat i" 10] \<open>0 \<le> i\<close> show ?thesis by (simp add: int_string_def)
qed

lemma connection_lines_length: "0 \<le> sec \<Longrightarrow> sec < 2 ^ 31 \<Longrightarrow> length (concat (connection_lines ka sec)) \<le> 60"
  using int_string_length [of sec] by (simp add: connection_lines_def CRLF_def)

lemma prepare_error_spec:
  assumes "prepare_error True cause errnum shortmsg longmsg ka (r, k) = (rc, (r', k'))"
    and "length cause + length errnum + length shortmsg + length longmsg \<le> 7000"
  defines "body \<equiv> concat (error_body cause errnum shortmsg longmsg)"
  shows "rc = 0 \<and> out_ok r' \<and> r_keep_alive r' = ka \<and> r_fd r' = r_fd r \<and> k_sent k' = k_sent k \<and> r_out_file_fd r' < 0 \<and>
     pending r' k' = concat (error_header errnum shortmsg ka (keep_alive_timeout_sec r) (length body)) @ body"
proof -
  obtain r1 k1 where rs: "reset_output (r, k) = (r1, k1)" by (cases "reset_output (r, k)")
  note r1 = reset_output_spec [OF rs]
  have bl: "length body \<le> 7200" using assms(2) by (simp add: body_def error_body_def)
  have b: "appendfs MAXLINE [] (error_body cause errnum shortmsg longmsg) = body"
    using appendfs_exact [of "[]" "error_body cause errnum shortmsg longmsg" MAXLINE] bl by (simp add: body_def MAXLINE_def)
  define sec where "sec = keep_alive_timeout_sec r"
  have sec: "0 \<le> sec" "sec < 2 ^ 31" using keep_alive_timeout_sec_range [of r] by (simp_all add: sec_def)
  have sec': "keep_alive_timeout_sec (r1\<lparr>r_keep_alive := ka, r_out_body := Some body, r_out_body_len := length body, r_out_body_sent := 0\<rparr>) = sec"
    using r1 by (simp add: keep_alive_timeout_sec_def sec_def)
  have "length (dec_string (length body)) \<le> 4" using print_nat_length [of 10 "length body" 4] bl by simp
  then have hl: "length (concat (error_header errnum shortmsg ka sec (length body))) < ZV_OUT_HEADER_SIZE"
    using assms(2) connection_lines_length [OF sec, of ka] by (simp add: error_header_def ZV_OUT_HEADER_SIZE_def CRLF_def)
  have h: "appendfs ZV_OUT_HEADER_SIZE [] (error_header errnum shortmsg ka sec (length body)) =
      concat (error_header errnum shortmsg ka sec (length body))"
    using appendfs_exact [of "[]"] hl by simp
  from assms(1) rs b sec' h r1 show ?thesis
    by (auto simp: prepare_error_def Let_def out_ok_def pending_def header_rest_def body_rest_def file_rest_def sec_def [symmetric])
qed

lemma prepare_error_no_memory:
  "prepare_error False cause errnum shortmsg longmsg ka x = (rc, y) \<Longrightarrow> rc = -1"
  by (auto simp: prepare_error_def Let_def split: prod.splits)

lemma get_file_type_length: "length (get_file_type t) \<le> 30"
proof -
  have "list_all (\<lambda>(_, v). length v \<le> 30) zaver_mime" by (simp add: zaver_mime_def)
  then have "map_of zaver_mime x = Some v \<Longrightarrow> length v \<le> 30" for x v
    by (auto simp: list_all_iff dest: map_of_SomeD)
  then show ?thesis by (auto simp: get_file_type_def split: option.splits)
qed

lemma static_header_fits:
  assumes "o_status out \<in> {200, 304}" and "length date \<le> 511" and "filesize < 2 ^ 64" and "0 \<le> sec" and "sec < 2 ^ 31"
  shows "length (concat (static_header date (get_file_type t) filesize sec out)) < ZV_OUT_HEADER_SIZE"
proof -
  have "length (dec_string filesize) \<le> 20" using print_nat_length [of 10 filesize 20] assms(3) by simp
  moreover have "length (int_string (o_status out)) \<le> 10" using assms(1) by (intro int_string_length) auto
  moreover have "length (get_shortmsg_from_status_code (o_status out)) \<le> 12"
    using assms(1) by (auto simp: get_shortmsg_from_status_code_def)
  ultimately show ?thesis
    using connection_lines_length [OF assms(4,5), of "o_keep_alive out"] get_file_type_length [of t] assms(2)
    by (simp add: static_header_def ZV_OUT_HEADER_SIZE_def CRLF_def)
qed

lemma sys_open_spec:
  "sys_open c k = (fd, k') \<Longrightarrow>
     (case c of None \<Rightarrow> fd = -1 \<and> k' = k
      | Some x \<Rightarrow> 0 \<le> fd \<and> fd \<notin> set (k_fds k) \<and> k_files k' = (k_files k)(fd := Some x) \<and> k_fds k' = fd # k_fds k) \<and>
     k_sent k' = k_sent k \<and> k_epoll k' = k_epoll k \<and> k_out k' = k_out k \<and> k_in k' = k_in k"
  using lowest_fd_spec [of "k_fds k"] by (auto simp: sys_open_def new_fd_def Let_def split: option.splits)

lemma prepare_static_spec:
  assumes "prepare_static content strftime filename filesize out (r, k) = (rc, (r', k'))"
    and "o_status out \<in> {200, 304}" and "length (strftime (o_mtime out)) \<le> 511" and "filesize < 2 ^ 64"
  defines "hdr \<equiv> concat (static_header (strftime (o_mtime out)) (get_file_type (dot_suffix filename)) filesize
      (keep_alive_timeout_sec r) out)"
  shows "out_ok r' \<and> r_fd r' = r_fd r \<and> k_sent k' = k_sent k \<and> r_keep_alive r' = o_keep_alive out \<and>
     (if o_modified out then
        (case content filename of
           None \<Rightarrow> rc = -1 \<and> pending r' k' = hdr
         | Some c \<Rightarrow> rc = 0 \<and> pending r' k' = hdr @ take filesize c)
      else rc = 0 \<and> pending r' k' = hdr)"
proof -
  obtain r1 k1 where rs: "reset_output (r, k) = (r1, k1)" by (cases "reset_output (r, k)")
  note r1 = reset_output_spec [OF rs]
  define sec where "sec = keep_alive_timeout_sec r"
  have sec: "0 \<le> sec" "sec < 2 ^ 31" using keep_alive_timeout_sec_range [of r] by (simp_all add: sec_def)
  have sec': "keep_alive_timeout_sec (r1\<lparr>r_keep_alive := o_keep_alive out\<rparr>) = sec"
    using r1 by (simp add: keep_alive_timeout_sec_def sec_def)
  have h: "appendfs ZV_OUT_HEADER_SIZE [] (static_header (strftime (o_mtime out)) (get_file_type (dot_suffix filename)) filesize sec out) = hdr"
    using appendfs_exact [of "[]"] static_header_fits [OF assms(2-4) sec, of "dot_suffix filename"]
    by (simp add: hdr_def sec_def)
  define r2 where "r2 = r1\<lparr>r_keep_alive := o_keep_alive out, r_out_header := hdr, r_out_header_len := length hdr, r_out_header_sent := 0\<rparr>"
  have r2: "out_ok r2" "header_rest r2 = hdr" "body_rest r2 = []" "r_out_file_fd r2 < 0" "r_fd r2 = r_fd r" "r_keep_alive r2 = o_keep_alive out"
    using r1 by (simp_all add: r2_def out_ok_def header_rest_def body_rest_def)
  have eq: "prepare_static content strftime filename filesize out (r, k) =
      (if \<not> o_modified out then (0, (r2\<lparr>r_out_file_fd := -1, r_out_file_offset := 0, r_out_file_size := 0\<rparr>, k1))
       else case sys_open (content filename) k1 of (srcfd, k') \<Rightarrow>
         if srcfd < 0 then (-1, (r2, k'))
         else (0, (r2\<lparr>r_out_file_fd := srcfd, r_out_file_offset := 0, r_out_file_size := filesize\<rparr>, k')))"
    by (simp only: prepare_static_def rs prod.case Let_def sec' h r2_def)
  have upd: "header_rest (r2\<lparr>r_out_file_fd := a, r_out_file_offset := b, r_out_file_size := c\<rparr>) = hdr"
    "body_rest (r2\<lparr>r_out_file_fd := a, r_out_file_offset := b, r_out_file_size := c\<rparr>) = []"
    "out_ok (r2\<lparr>r_out_file_fd := a, r_out_file_offset := b, r_out_file_size := c\<rparr>)" for a b c
    using r1 by (simp_all add: r2_def out_ok_def header_rest_def body_rest_def)
  obtain fd k2 where op: "sys_open (content filename) k1 = (fd, k2)" by (cases "sys_open (content filename) k1")
  have sent: "k_sent k1 = k_sent k" using r1 by blast
  show ?thesis
  proof (cases "o_modified out")
    case False
    with eq assms(1) upd r2 sent show ?thesis by (auto simp: pending_def file_rest_def)
  next
    case True
    with eq assms(1) op upd r2 sys_open_spec [OF op] sent show ?thesis
      by (cases "content filename") (auto simp: pending_def file_rest_def)
  qed
qed

section \<open>Properties\<close>

text \<open>
  C3. Responses are delivered exactly: over any number of \<^verbatim>\<open>try_send\<close> calls, with the socket accepting any
  part of each write, signals interrupting, and errors in between, the bytes accepted on the connection are
  a prefix of the prepared response (header, body, file), what remains pending is exactly the rest, and no
  other descriptor receives anything; when the transfer ends with 0 the whole response has been
  delivered. (Assumed of the kernel: a write of a non-empty buffer does not accept zero bytes.)
\<close>

theorem response_delivery:
  assumes "out_ok r" and "send_rounds wss (r, k) = (rc, (r', k'))"
    and "\<forall>ws \<in> set wss. Accept 0 \<notin> set ws"
  shows "\<exists>sent. k_sent k' = (k_sent k)(r_fd r := k_sent k (r_fd r) @ sent) \<and> pending r k = sent @ pending r' k' \<and>
     rc \<in> {0, 1, -1} \<and> (rc = 0 \<longrightarrow> sent = pending r k) \<and> out_ok r'"
proof -
  from send_rounds_spec [OF assms] obtain n where n:
    "k_sent k' = (k_sent k)(r_fd r := k_sent k (r_fd r) @ take n (pending r k))"
    "pending r' k' = drop n (pending r k)" "out_ok r'" "rc \<in> {0, 1, -1}" "rc = 0 \<longrightarrow> pending r' k' = []"
    by blast
  then have "rc = 0 \<longrightarrow> take n (pending r k) = pending r k" by auto
  with n show ?thesis by (intro exI [of _ "take n (pending r k)"]) auto
qed

definition sample_out :: "zv_req_out" where
  "sample_out =
     \<lparr>r_root = None, r_fd = 5, r_epfd = 3, r_buf = [], r_last = 0,
      r_parse_pos = 0, r_request_line_state = rl_start, r_header_state = hd_start, r_parse_phase = 0,
      r_request_start = None, r_method_end = None, r_method = ZV_HTTP_UNKNOWN, r_uri_start = None, r_uri_end = None,
      r_path_start = None, r_path_end = None, r_query_start = None, r_query_end = None, r_http_major = 1,
      r_http_minor = 1, r_request_end = None, r_cur_header_key_start = None, r_cur_header_key_end = None,
      r_cur_header_value_start = None, r_cur_header_value_end = None,
      r_timer = 0, r_keep_alive_timeout_ms = 5000, r_request_timeout_ms = 5000, r_keep_alive = False, r_writing = False,
      r_out_header = ''HEAD'', r_out_header_len = 4, r_out_header_sent = 0, r_out_body = Some ''body'', r_out_body_len = 4,
      r_out_body_sent = 0, r_out_file_fd = -1, r_out_file_offset = 0, r_out_file_size = 0\<rparr>"

definition sample_kio :: kio where
  "sample_kio = quiet_kio [0, 1, 2, 3, 5]"

theorem response_delivery_witness:
  "let (rc, (r', k')) = send_rounds [[Accept 6, WErr EINTR], [Accept 1, Accept 9]] (sample_out, sample_kio)
   in rc = 0 \<and> k_sent k' 5 = ''HEADbody''"
proof -
  obtain rc r' k' where s: "send_rounds [[Accept 6, WErr EINTR], [Accept 1, Accept 9]] (sample_out, sample_kio) = (rc, (r', k'))"
    by (metis prod.collapse)
  have ok: "out_ok sample_out" "r_fd sample_out = 5" "k_sent sample_kio 5 = []" "pending sample_out sample_kio = ''HEADbody''"
    by (simp_all add: sample_out_def sample_kio_def quiet_kio_def out_ok_def pending_def header_rest_def body_rest_def file_rest_def)
  have "rc = 0"
    using s by (simp add: sample_out_def sample_kio_def quiet_kio_def try_send_def send_mem.simps send_file.simps mem_pending_def sys_write_def
        header_rest_def body_rest_def consume_def Let_def EINTR_def EAGAIN_def)
  with response_delivery [OF ok(1) s] ok s show ?thesis by auto
qed

text \<open>
  C12. An error response announces its body correctly: when memory is available and the texts together have at most
  7000 characters (the program's file names have at most 511), the prepared response is the status line, the
  headers and an empty line, with \<^verbatim>\<open>Content-length\<close> the number of body bytes that follow, nothing truncated
  although both buffers are bounded; without memory the call fails and the connection is closed by the caller.
\<close>

theorem error_response_exact:
  assumes "length cause + length errnum + length shortmsg + length longmsg \<le> 7000"
    and "prepare_error ok cause errnum shortmsg longmsg ka (r, k) = (rc, (r', k'))"
  shows "if ok then
       \<exists>head body. rc = 0 \<and> out_ok r' \<and> r_keep_alive r' = ka \<and> pending r' k' = head @ body \<and>
         head = ''HTTP/1.1 '' @ errnum @ '' '' @ shortmsg @ CRLF @ ''Server: Zaver'' @ CRLF @ ''Content-type: text/html'' @ CRLF
           @ concat (connection_lines ka (keep_alive_timeout_sec r)) @ ''Content-length: '' @ dec_string (length body) @ CRLF @ CRLF \<and>
         body = concat (error_body cause errnum shortmsg longmsg) \<and> k_sent k' = k_sent k
     else rc = -1"
proof (cases ok)
  case True
  with prepare_error_spec [of cause errnum shortmsg longmsg ka r k rc r' k'] assms show ?thesis
    by (auto simp: error_header_def)
next
  case False
  with prepare_error_no_memory assms(2) show ?thesis by auto
qed

theorem error_response_exact_witness:
  "let (rc, (r', k')) = prepare_error True ''x'' ''404'' ''Not Found'' ''zaver'' False (sample_out, sample_kio)
   in rc = 0 \<and> out_ok r' \<and> prefix ''HTTP/1.1 404 Not Found'' (pending r' k')"
proof -
  obtain rc r' k' where p: "prepare_error True ''x'' ''404'' ''Not Found'' ''zaver'' False (sample_out, sample_kio) = (rc, (r', k'))"
    by (metis prod.collapse)
  have "length ''x'' + length ''404'' + length ''Not Found'' + length ''zaver'' \<le> 7000" by simp
  from error_response_exact [OF this p] p show ?thesis by (auto simp: prefix_def)
qed

text \<open>
  C13. A static response is the header followed by exactly the first \<open>filesize\<close> bytes of the file, with \<^verbatim>\<open>Content-length\<close>
  announcing \<open>filesize\<close>, or the header alone for a file reported as not modified; the header always fits
  its buffer. Opening the file is the only way the preparation fails.
\<close>

theorem static_response_exact:
  assumes "prepare_static content strftime filename filesize out (r, k) = (rc, (r', k'))"
    and "o_status out \<in> {ZV_HTTP_OK, ZV_HTTP_NOT_MODIFIED}" and "length (strftime (o_mtime out)) \<le> 511" and "filesize < 2 ^ 64"
  shows "\<exists>head. head = ''HTTP/1.1 '' @ int_string (o_status out) @ '' '' @ get_shortmsg_from_status_code (o_status out) @ CRLF
         @ concat (connection_lines (o_keep_alive out) (keep_alive_timeout_sec r))
         @ (if o_modified out
            then ''Content-type: '' @ get_file_type (dot_suffix filename) @ CRLF @ ''Content-length: '' @ dec_string filesize @ CRLF
                 @ ''Last-Modified: '' @ strftime (o_mtime out) @ CRLF
            else [])
         @ ''Server: Zaver'' @ CRLF @ CRLF \<and>
     out_ok r' \<and> r_keep_alive r' = o_keep_alive out \<and>
     (if \<not> o_modified out then rc = 0 \<and> pending r' k' = head
      else case content filename of
             None \<Rightarrow> rc = -1
           | Some c \<Rightarrow> rc = 0 \<and> pending r' k' = head @ take filesize c)"
  using prepare_static_spec [OF assms(1) _ assms(3,4)] assms(2)
  by (auto simp: static_header_def ZV_HTTP_OK_def ZV_HTTP_NOT_MODIFIED_def split: option.splits)

theorem static_response_exact_witness:
  "let (rc, (r', k')) = prepare_static (\<lambda>_. Some ''hi'') (\<lambda>_. ''date'') ''/srv/a.html'' 2
         \<lparr>o_fd = 5, o_keep_alive = True, o_mtime = 0, o_modified = True, o_status = 200\<rparr> (sample_out, sample_kio)
   in rc = 0 \<and> out_ok r' \<and> suffix ''hi'' (pending r' k')"
proof -
  let ?out = "\<lparr>o_fd = 5, o_keep_alive = True, o_mtime = 0, o_modified = True, o_status = 200\<rparr>"
  obtain rc r' k' where p: "prepare_static (\<lambda>_. Some ''hi'') (\<lambda>_. ''date'') ''/srv/a.html'' 2 ?out (sample_out, sample_kio) = (rc, (r', k'))"
    by (metis prod.collapse)
  have "o_status ?out \<in> {ZV_HTTP_OK, ZV_HTTP_NOT_MODIFIED}" "length ((\<lambda>_. ''date'') (o_mtime ?out)) \<le> 511" "2 < (2::nat) ^ 64"
    by (simp_all add: ZV_HTTP_OK_def)
  from static_response_exact [OF p this] p show ?thesis by (auto simp: suffix_def)
qed

text \<open>
  C39. The announced keep-alive time is the configured time rounded up to whole seconds and at least one second, for every
  time the configuration can hold (it is read into a positive \<^verbatim>\<open>int\<close> of milliseconds).
\<close>

theorem keep_alive_seconds:
  assumes "0 < unat (r_keep_alive_timeout_ms r)" and "unat (r_keep_alive_timeout_ms r) < 2 ^ 31"
  shows "keep_alive_timeout_sec r = int ((unat (r_keep_alive_timeout_ms r) + 999) div 1000) \<and> 1 \<le> keep_alive_timeout_sec r"
proof -
  let ?ms = "r_keep_alive_timeout_ms r"
  define n where "n = unat ?ms"
  define q where "q = (n + 999) div 1000"
  have n: "0 < n" "n < 2 ^ 31" using assms by (simp_all add: n_def)
  have q: "1 \<le> q" "q < 2 ^ 31" using n by (auto simp: q_def)
  have "?ms + 999 = of_nat (n + 999)" by (simp add: n_def)
  moreover have "unat (of_nat (n + 999) :: u64) = n + 999"
    using n by (simp only: unsigned_of_nat) (simp add: take_bit_nat_eq_self)
  ultimately have "unat (?ms + 999) = n + 999" by simp
  then have w: "unat ((?ms + 999) div 1000) = q" by (simp add: unat_div_distrib q_def)
  have "(ucast ((?ms + 999) div 1000) :: u32) = of_nat q" by (simp add: w [symmetric])
  moreover have "sint (of_nat q :: u32) = int q"
    using q by (simp add: signed_of_nat signed_take_bit_int_eq_self)
  moreover have "?ms \<noteq> 0" using n by (auto simp: n_def)
  ultimately show ?thesis using q by (simp add: keep_alive_timeout_sec_def Let_def q_def n_def)
qed

theorem keep_alive_seconds_witness: "keep_alive_timeout_sec (sample_out\<lparr>r_keep_alive_timeout_ms := 5001\<rparr>) = 6"
  using keep_alive_seconds [of "sample_out\<lparr>r_keep_alive_timeout_ms := 5001\<rparr>"] by simp

end
