(* ===== verification/Zv_Request_Cache.thy ===== *)
theory Zv_Request_Cache
  imports Zv_Kernel
begin

text \<open>
  The request objects of a worker and their cache: \<^verbatim>\<open>zv_init_request_t\<close> of \<^verbatim>\<open>src/src/http_request.c\<close> and
  the whole of \<^verbatim>\<open>src/src/http_request_cache.c\<close>. A closed request is not put back on the free list at
  once but on a second, deferred list, which the event loop empties at a safe point, because events that
  were reported together may still refer to it.

  The memory of the header cache is extended by the map \<open>reqs\<close> of request objects and the kernel state
  \<open>io\<close>, then by the global variables of the cache. Reading a request object through a pointer is
  \<open>req a s\<close>; it is unspecified for an address that holds none, and the invariants below show that the
  program reads only addresses that do. Counters that are only printed are 64-bit words.

  The lemmas show that the free list and the deferred list are always disjoint, that a request handed out is
  never one in use or deferred, and that flushing moves every deferred request to the free list.
\<close>

section \<open>State\<close>

text \<open>The configuration \<^verbatim>\<open>zv_conf_t\<close> (\<^verbatim>\<open>src/src/util.h\<close>).\<close>

record zv_conf =
  cf_root :: "string option"
  cf_port :: int
  cf_thread_num :: int
  cf_workers :: int
  cf_cpu_affinity :: int
  cf_keep_alive_timeout_ms :: int
  cf_request_timeout_ms :: int

definition ZV_DEFAULT_KEEP_ALIVE_TIMEOUT_MS :: int where "ZV_DEFAULT_KEEP_ALIVE_TIMEOUT_MS = 5000"
definition ZV_DEFAULT_REQUEST_TIMEOUT_MS :: int where "ZV_DEFAULT_REQUEST_TIMEOUT_MS = 5000"
definition ZV_REQUEST_FREELIST_MAX :: nat where "ZV_REQUEST_FREELIST_MAX = 65536"

record req_mem = header_mem +
  reqs :: "addr \<rightharpoonup> zv_http_request"
  io :: kio

record cache_mem = req_mem +
  rc_free_count :: nat
  rc_inited :: bool
  rc_get_calls :: u64
  rc_get_hits :: u64
  rc_get_mallocs :: u64
  rc_put_calls :: u64
  rc_put_frees :: u64
  rc_max_free_count :: nat

definition req :: "addr \<Rightarrow> 'z req_mem_scheme \<Rightarrow> zv_http_request" where
  "req a s = the (reqs s a)"

definition set_req :: "addr \<Rightarrow> zv_http_request \<Rightarrow> 'z req_mem_scheme \<Rightarrow> 'z req_mem_scheme" where
  "set_req a r s = s\<lparr>reqs := (reqs s)(a \<mapsto> r)\<rparr>"

text \<open>A request block after \<^verbatim>\<open>memset(r, 0, ...)\<close>; buffers that are only written as text are empty.\<close>

definition zero_request :: zv_http_request where
  "zero_request =
     \<lparr>r_root = None, r_fd = 0, r_epfd = 0, r_buf = replicate MAX_BUF CHR 0x00, r_last = 0,
      r_parse_pos = 0, r_request_line_state = rl_start, r_header_state = hd_start, r_parse_phase = 0,
      r_request_start = None, r_method_end = None, r_method = ZV_HTTP_UNKNOWN, r_uri_start = None, r_uri_end = None,
      r_path_start = None, r_path_end = None, r_query_start = None, r_query_end = None, r_http_major = 0,
      r_http_minor = 0, r_request_end = None, r_cur_header_key_start = None, r_cur_header_key_end = None,
      r_cur_header_value_start = None, r_cur_header_value_end = None,
      r_timer = NULL, r_keep_alive_timeout_ms = 0, r_request_timeout_ms = 0, r_keep_alive = False, r_writing = False,
      r_out_header = [], r_out_header_len = 0, r_out_header_sent = 0, r_out_body = None, r_out_body_len = 0,
      r_out_body_sent = 0, r_out_file_fd = 0, r_out_file_offset = 0, r_out_file_size = 0,
      r_conn_item = None, r_cgi_out_item = None, r_cgi_in_item = None, r_cgi_active = False, r_cgi_pid = 0,
      r_cgi_in_fd = 0, r_cgi_out_fd = 0, r_cgi_eof = False, r_cgi_out_total = 0, r_cgi_out_limit = 0,
      r_cgi_headers_done = False, r_cgi_hdr_buf = [], r_cgi_hdr_len = 0, r_cgi_http_header = [],
      r_cgi_http_header_len = 0, r_cgi_http_header_sent = 0, r_cgi_chunk_prefix = [], r_cgi_chunk_prefix_len = 0,
      r_cgi_chunk_prefix_sent = 0, r_cgi_chunk_suffix_sent = 0, r_cgi_final_chunk = [], r_cgi_final_chunk_len = 0,
      r_cgi_final_chunk_sent = 0, r_cgi_body_buf = [], r_cgi_body_len = 0, r_cgi_body_sent = 0\<rparr>"

section \<open>Initialising a request\<close>

text \<open>The parsing and timeout fields.\<close>

definition init_parse_fields :: "int \<Rightarrow> int \<Rightarrow> zv_conf \<Rightarrow> zv_http_request \<Rightarrow> zv_http_request" where
  "init_parse_fields fd epfd cf r =
     r\<lparr>r_fd := fd, r_epfd := epfd, r_last := 0, r_parse_pos := 0, r_request_line_state := rl_start,
       r_header_state := hd_start, r_parse_phase := 0, r_root := cf_root cf,
       r_request_start := None, r_method_end := None, r_method := ZV_HTTP_UNKNOWN, r_uri_start := None,
       r_uri_end := None, r_path_start := None, r_path_end := None, r_query_start := None, r_query_end := None,
       r_http_major := 0, r_http_minor := 0, r_request_end := None,
       r_cur_header_key_start := None, r_cur_header_key_end := None,
       r_cur_header_value_start := None, r_cur_header_value_end := None,
       r_keep_alive_timeout_ms :=
         of_int (if cf_keep_alive_timeout_ms cf > 0 then cf_keep_alive_timeout_ms cf else ZV_DEFAULT_KEEP_ALIVE_TIMEOUT_MS),
       r_request_timeout_ms :=
         of_int (if cf_request_timeout_ms cf > 0 then cf_request_timeout_ms cf else ZV_DEFAULT_REQUEST_TIMEOUT_MS),
       r_timer := NULL\<rparr>"

text \<open>The epoll items; \<open>got\<close> says whether a connection item could be allocated when there was none.\<close>

definition init_items :: "addr \<Rightarrow> int \<Rightarrow> bool \<Rightarrow> zv_http_request \<Rightarrow> zv_http_request" where
  "init_items a fd got r =
     r\<lparr>r_conn_item :=
         (if r_conn_item r = None \<and> \<not> got then None else Some \<lparr>it_kind = ZV_EP_KIND_CONN, it_fd = fd, it_r = a\<rparr>),
       r_cgi_out_item := map_option (\<lambda>_. \<lparr>it_kind = ZV_EP_KIND_CGI_OUT, it_fd = -1, it_r = a\<rparr>) (r_cgi_out_item r),
       r_cgi_in_item := map_option (\<lambda>_. \<lparr>it_kind = ZV_EP_KIND_CGI_IN, it_fd = -1, it_r = a\<rparr>) (r_cgi_in_item r)\<rparr>"

text \<open>The output and CGI fields.\<close>

definition init_output_fields :: "zv_http_request \<Rightarrow> zv_http_request" where
  "init_output_fields r =
     r\<lparr>r_keep_alive := False, r_writing := False, r_out_header_len := 0, r_out_header_sent := 0, r_out_body := None,
       r_out_body_len := 0, r_out_body_sent := 0, r_out_file_fd := -1, r_out_file_offset := 0, r_out_file_size := 0,
       r_out_header := [],
       r_cgi_active := False, r_cgi_pid := -1, r_cgi_in_fd := -1, r_cgi_out_fd := -1, r_cgi_eof := False,
       r_cgi_out_total := 0, r_cgi_out_limit := 1024 * 1024, r_cgi_headers_done := False, r_cgi_hdr_len := 0,
       r_cgi_http_header_len := 0, r_cgi_http_header_sent := 0,
       r_cgi_chunk_prefix_len := 0, r_cgi_chunk_prefix_sent := 0, r_cgi_chunk_suffix_sent := 0,
       r_cgi_final_chunk_len := 0, r_cgi_final_chunk_sent := 0, r_cgi_body_len := 0, r_cgi_body_sent := 0\<rparr>"

definition zv_init_request_t :: "addr \<Rightarrow> int \<Rightarrow> int \<Rightarrow> zv_conf \<Rightarrow> 'z req_mem_scheme \<Rightarrow> 'z req_mem_scheme" where
  "zv_init_request_t a fd epfd cf s =
     (let s = INIT_LIST_HEAD (ReqList a) s;
          r = init_parse_fields fd epfd cf (req a s);
          s = INIT_LIST_HEAD (ReqFree a) s;
          (p, s) = (if r_conn_item r = None then malloc s else (NULL, s))
      in set_req a (init_output_fields (init_items a fd (p \<noteq> NULL) r)) s)"

section \<open>The cache\<close>

definition req_entry :: "node \<Rightarrow> addr" where
  "req_entry n = (case n of ReqFree a \<Rightarrow> a | _ \<Rightarrow> NULL)"

definition rc_init_once :: "'z cache_mem_scheme \<Rightarrow> 'z cache_mem_scheme" where
  "rc_init_once s =
     (if rc_inited s then s
      else (INIT_LIST_HEAD DeferredRequests (INIT_LIST_HEAD FreeRequests s))
             \<lparr>rc_free_count := 0, rc_inited := True, rc_get_calls := 0, rc_get_hits := 0, rc_get_mallocs := 0,
              rc_put_calls := 0, rc_put_frees := 0, rc_max_free_count := 0\<rparr>)"

definition put_internal :: "addr \<Rightarrow> 'z cache_mem_scheme \<Rightarrow> 'z cache_mem_scheme" where
  "put_internal a s =
     (if a = NULL then s
      else if rc_free_count s \<ge> ZV_REQUEST_FREELIST_MAX then
        s\<lparr>reqs := (reqs s)(a := None), rc_put_frees := rc_put_frees s + 1\<rparr>
      else
        let s = INIT_LIST_HEAD (ReqFree a) s;
            s = list_add (ReqFree a) FreeRequests s;
            s = s\<lparr>rc_free_count := rc_free_count s + 1\<rparr>
        in if rc_free_count s > rc_max_free_count s then s\<lparr>rc_max_free_count := rc_free_count s\<rparr> else s)"

text \<open>A block from the free list, or a new one filled with zeros.\<close>

definition rc_take :: "'z cache_mem_scheme \<Rightarrow> addr \<times> 'z cache_mem_scheme" where
  "rc_take s =
     (if \<not> list_empty FreeRequests s then
        (let pos = nxt s FreeRequests; s = list_del pos s; s = s\<lparr>rc_get_hits := rc_get_hits s + 1\<rparr>
         in (req_entry pos, s\<lparr>rc_free_count := rc_free_count s - (if rc_free_count s > 0 then 1 else 0)\<rparr>))
      else
        (case malloc s of (a, s) \<Rightarrow>
           if a = NULL then (NULL, s)
           else (a, (set_req a zero_request s)\<lparr>rc_get_mallocs := rc_get_mallocs s + 1\<rparr>)))"

definition zv_http_request_get :: "int \<Rightarrow> int \<Rightarrow> zv_conf \<Rightarrow> 'z cache_mem_scheme \<Rightarrow> addr \<times> 'z cache_mem_scheme" where
  "zv_http_request_get fd epfd cf s =
     (let s = rc_init_once s; s = s\<lparr>rc_get_calls := rc_get_calls s + 1\<rparr>
      in case rc_take s of (a, s) \<Rightarrow> if a = NULL then (NULL, s) else (a, zv_init_request_t a fd epfd cf s))"

definition zv_http_request_put :: "addr \<Rightarrow> 'z cache_mem_scheme \<Rightarrow> 'z cache_mem_scheme" where
  "zv_http_request_put a s =
     (if a = NULL then s
      else let s = rc_init_once s in put_internal a (s\<lparr>rc_put_calls := rc_put_calls s + 1\<rparr>))"

definition zv_http_request_put_deferred :: "addr \<Rightarrow> 'z cache_mem_scheme \<Rightarrow> 'z cache_mem_scheme" where
  "zv_http_request_put_deferred a s =
     (if a = NULL then s
      else let s = rc_init_once s; s = INIT_LIST_HEAD (ReqFree a) s in list_add (ReqFree a) DeferredRequests s)"

partial_function (option) deferred_loop :: "'z cache_mem_scheme \<Rightarrow> 'z cache_mem_scheme option" where
  "deferred_loop s =
     (if list_empty DeferredRequests s then Some s
      else (let pos = nxt s DeferredRequests; s = list_del pos s
            in deferred_loop (zv_http_request_put (req_entry pos) s)))"

definition zv_http_request_deferred_flush :: "'z cache_mem_scheme \<Rightarrow> 'z cache_mem_scheme option" where
  "zv_http_request_deferred_flush s = deferred_loop (rc_init_once s)"

section \<open>Fields that the operations leave alone\<close>

lemma list_ops_reqs [simp]:
  "reqs (INIT_LIST_HEAD n s) = reqs s" "reqs (list_add n l s) = reqs s" "reqs (list_del n s) = reqs s"
  "io (INIT_LIST_HEAD n s) = io s" "io (list_add n l s) = io s" "io (list_del n s) = io s"
  "req_mem.more (INIT_LIST_HEAD n s) = req_mem.more s" "req_mem.more (list_add n l s) = req_mem.more s"
  "req_mem.more (list_del n s) = req_mem.more s"
  by (simp_all add: list_ops_defs)

lemma list_ops_rc [simp]:
  "rc_free_count (INIT_LIST_HEAD n s) = rc_free_count s" "rc_free_count (list_add n l s) = rc_free_count s"
  "rc_free_count (list_del n s) = rc_free_count s"
  "rc_inited (INIT_LIST_HEAD n s) = rc_inited s" "rc_inited (list_add n l s) = rc_inited s" "rc_inited (list_del n s) = rc_inited s"
  "rc_get_hits (list_del n s) = rc_get_hits s" "rc_get_calls (list_del n s) = rc_get_calls s"
  "rc_max_free_count (list_add n l s) = rc_max_free_count s" "rc_max_free_count (INIT_LIST_HEAD n s) = rc_max_free_count s"
  "cache_mem.more (INIT_LIST_HEAD n s) = cache_mem.more s" "cache_mem.more (list_add n l s) = cache_mem.more s"
  "cache_mem.more (list_del n s) = cache_mem.more s"
  by (simp_all add: list_ops_defs)

lemma malloc_reqs [simp]:
  "reqs (snd (malloc s)) = reqs s" "io (snd (malloc s)) = io s" "req_mem.more (snd (malloc s)) = req_mem.more s"
  by (simp_all add: malloc_def split: list.split bool.split)

lemma malloc_rc [simp]:
  "rc_free_count (snd (malloc s)) = rc_free_count s" "rc_inited (snd (malloc s)) = rc_inited s"
  "cache_mem.more (snd (malloc s)) = cache_mem.more s"
  by (simp_all add: malloc_def split: list.split bool.split)

lemma set_req_fields [simp]:
  "nxt (set_req a r s) = nxt s" "prv (set_req a r s) = prv s" "brk (set_req a r s) = brk s" "hdrs (set_req a r s) = hdrs s"
  "mallocs (set_req a r s) = mallocs s" "reqs (set_req a r s) = (reqs s)(a \<mapsto> r)" "io (set_req a r s) = io s"
  "hc_free_count (set_req a r s) = hc_free_count s" "hc_inited (set_req a r s) = hc_inited s"
  "req_mem.more (set_req a r s) = req_mem.more s"
  by (simp_all add: set_req_def)

lemma set_req_rc [simp]:
  "rc_free_count (set_req a r s) = rc_free_count s" "rc_inited (set_req a r s) = rc_inited s"
  "cache_mem.more (set_req a r s) = cache_mem.more s"
  by (simp_all add: set_req_def)

lemma malloc_lists [simp]: "nxt (snd (malloc s)) = nxt s" "prv (snd (malloc s)) = prv s" "brk s \<le> brk (snd (malloc s))"
  by (simp_all add: malloc_def split: list.split bool.split)

lemma rc_init_once_fields [simp]:
  "reqs (rc_init_once s) = reqs s" "io (rc_init_once s) = io s" "brk (rc_init_once s) = brk s" "mallocs (rc_init_once s) = mallocs s"
  "hdrs (rc_init_once s) = hdrs s" "hc_free_count (rc_init_once s) = hc_free_count s" "hc_inited (rc_init_once s) = hc_inited s"
  "cache_mem.more (rc_init_once s) = cache_mem.more s" "rc_inited (rc_init_once s)"
  by (simp_all add: rc_init_once_def)

lemma rc_init_once_id [simp]: "rc_inited s \<Longrightarrow> rc_init_once s = s"
  by (simp add: rc_init_once_def)

section \<open>The invariant of the cache\<close>

text \<open>\<open>rc_inv s xs ds\<close>: the free list holds the requests \<open>xs\<close> and the deferred list the requests \<open>ds\<close>.\<close>

definition rc_inv :: "'z cache_mem_scheme \<Rightarrow> addr list \<Rightarrow> addr list \<Rightarrow> bool" where
  "rc_inv s xs ds \<longleftrightarrow>
     wf_list (rc_init_once s) FreeRequests (map ReqFree xs) \<and> wf_list (rc_init_once s) DeferredRequests (map ReqFree ds) \<and>
     set xs \<inter> set ds = {} \<and> rc_free_count (rc_init_once s) = length xs \<and> length xs \<le> ZV_REQUEST_FREELIST_MAX \<and>
     set xs \<union> set ds \<subseteq> dom (reqs s) \<and> (\<forall>a \<in> dom (reqs s). 1 \<le> a \<and> a < brk s) \<and> 1 \<le> brk s"

lemma wf_list_same: "nxt s' = nxt s \<Longrightarrow> prv s' = prv s \<Longrightarrow> wf_list s' l xs \<longleftrightarrow> wf_list s l xs"
  by (auto elim: wf_list_cong)

lemma rc_inv_inited:
  "rc_inited s \<Longrightarrow> rc_inv s xs ds \<longleftrightarrow>
     wf_list s FreeRequests (map ReqFree xs) \<and> wf_list s DeferredRequests (map ReqFree ds) \<and>
     set xs \<inter> set ds = {} \<and> rc_free_count s = length xs \<and> length xs \<le> ZV_REQUEST_FREELIST_MAX \<and>
     set xs \<union> set ds \<subseteq> dom (reqs s) \<and> (\<forall>a \<in> dom (reqs s). 1 \<le> a \<and> a < brk s) \<and> 1 \<le> brk s"
  by (simp add: rc_inv_def)

lemma rc_inv_init_once: "rc_inv (rc_init_once s) xs ds \<longleftrightarrow> rc_inv s xs ds"
  by (simp add: rc_inv_def)

lemma rc_inv_start: "\<not> rc_inited s \<Longrightarrow> reqs s = Map.empty \<Longrightarrow> 1 \<le> brk s \<Longrightarrow> rc_inv s [] []"
proof -
  assume s: "\<not> rc_inited s" "reqs s = Map.empty" "1 \<le> brk s"
  let ?s = "INIT_LIST_HEAD DeferredRequests (INIT_LIST_HEAD FreeRequests s)"
  have "wf_list ?s FreeRequests []" by (intro INIT_LIST_HEAD_frame INIT_LIST_HEAD_wf) simp
  moreover have "wf_list ?s DeferredRequests []" by (rule INIT_LIST_HEAD_wf)
  ultimately show ?thesis
    using s wf_list_same [of "rc_init_once s" ?s] by (simp add: rc_inv_def) (simp add: rc_init_once_def)
qed

lemma below_mono: "\<forall>a \<in> A. 1 \<le> a \<and> a < (b::addr) \<Longrightarrow> b \<le> b' \<Longrightarrow> \<forall>a \<in> A. 1 \<le> a \<and> a < b'"
  by (meson order_less_le_trans)

lemma rc_inv_distinct: "rc_inv s xs ds \<Longrightarrow> distinct xs \<and> distinct ds"
  using fl.content_distinct [of "rc_init_once s" FreeRequests "map ReqFree xs"]
    fl.content_distinct [of "rc_init_once s" DeferredRequests "map ReqFree ds"]
  by (auto simp: rc_inv_def distinct_map)

text \<open>Operations change the links of their own nodes only: \<open>same_links P s s'\<close>.\<close>

definition same_links :: "(node \<Rightarrow> bool) \<Rightarrow> (node, 'y) list_heap_scheme \<Rightarrow> (node, 'z) list_heap_scheme \<Rightarrow> bool" where
  "same_links P s s' \<longleftrightarrow> (\<forall>p. P p \<longrightarrow> nxt s' p = nxt s p \<and> prv s' p = prv s p)"

definition rc_node :: "node \<Rightarrow> bool" where
  "rc_node n \<longleftrightarrow> n \<in> {FreeRequests, DeferredRequests} \<union> range ReqFree"

lemma same_links_refl [simp]: "same_links P s s"
  by (simp add: same_links_def)

lemma same_links_trans: "same_links P s s' \<Longrightarrow> same_links P s' s'' \<Longrightarrow> same_links P s s''"
  by (simp add: same_links_def)

lemma same_links_mono: "same_links P s s' \<Longrightarrow> (\<And>p. Q p \<Longrightarrow> P p) \<Longrightarrow> same_links Q s s'"
  by (simp add: same_links_def)

lemma same_links_wf: "same_links P s s' \<Longrightarrow> \<forall>p \<in> set (l # ys). P p \<Longrightarrow> wf_list s l ys \<Longrightarrow> wf_list s' l ys"
  by (erule wf_list_cong) (auto simp: same_links_def)

lemma same_links_INIT: "\<not> P n \<Longrightarrow> same_links P s (INIT_LIST_HEAD n s)"
  by (auto simp: same_links_def list_ops_defs)

lemma same_links_add:
  assumes "wf_list s l ys" and "\<forall>p \<in> set (l # n # ys). \<not> P p"
  shows "same_links P s (list_add n l s)"
proof -
  have "nxt s l \<in> set (l # ys)" using wf_list_nxt_head [OF assms(1)] by (cases ys) auto
  with assms(2) show ?thesis by (auto simp: same_links_def list_ops_defs)
qed

lemma same_links_del_hd:
  assumes "wf_list s l (x # ys)" and "\<forall>p \<in> set (l # x # ys). \<not> P p"
  shows "same_links P s (list_del x s)"
proof -
  from assms(1) have "prv s x = l" by (simp add: wf_list_def)
  moreover from assms(1) have "nxt s x \<in> set (l # ys)" by (cases ys) (auto simp: wf_list_def)
  ultimately show ?thesis using assms(2) by (auto simp: same_links_def list_ops_defs)
qed

lemma same_links_rc_init_once: "same_links (\<lambda>p. \<not> rc_node p) s (rc_init_once s)"
  by (auto simp: same_links_def rc_init_once_def list_ops_defs rc_node_def)

lemma same_links_wf_iff: "same_links P s s' \<Longrightarrow> \<forall>p \<in> set (l # ys). P p \<Longrightarrow> wf_list s' l ys \<longleftrightarrow> wf_list s l ys"
  using same_links_wf [of P s s' l ys] same_links_wf [of P s' s l ys] by (auto simp: same_links_def)

section \<open>Operations of the cache\<close>

text \<open>What the program relies on in a request block it has just been given.\<close>

definition fresh_conn :: "int \<Rightarrow> zv_http_request \<Rightarrow> bool" where
  "fresh_conn fd r \<longleftrightarrow>
     r_fd r = fd \<and> r_timer r = NULL \<and> r_parse_pos r = 0 \<and> r_last r = 0 \<and> r_parse_phase r = 0 \<and>
     r_request_line_state r = rl_start \<and> r_header_state r = hd_start \<and> r_out_body r = None \<and> r_out_file_fd r = -1 \<and>
     \<not> r_cgi_active r \<and> r_cgi_in_fd r = -1 \<and> r_cgi_out_fd r = -1 \<and> \<not> r_writing r \<and> \<not> r_keep_alive r"

text \<open>Initialising a request touches only its own two list nodes.\<close>

lemma zv_init_request_t_spec:
  fixes s :: "'z req_mem_scheme" and a :: addr and fd epfd :: int and cf :: zv_conf
  defines "s' \<equiv> zv_init_request_t a fd epfd cf s"
  shows "same_links (\<lambda>p. p \<notin> {ReqList a, ReqFree a}) s s'"
    and "wf_list s' (ReqList a) []"
    and "\<exists>r. reqs s' = (reqs s)(a \<mapsto> r) \<and> fresh_conn fd r"
    and "brk s \<le> brk s'" and "io s' = io s" and "hdrs s' = hdrs s" and "hc_free_count s' = hc_free_count s" and "hc_inited s' = hc_inited s"
    and "req_mem.more s' = req_mem.more s"
proof -
  define s1 where "s1 = INIT_LIST_HEAD (ReqFree a) (INIT_LIST_HEAD (ReqList a) s)"
  define r where "r = init_parse_fields fd epfd cf (req a s)"
  define p where "p = (if r_conn_item r = None then malloc s1 else (NULL, s1))"
  define r' where "r' = init_output_fields (init_items a fd (fst p \<noteq> NULL) r)"
  have s': "s' = set_req a r' (snd p)"
    by (simp add: s'_def zv_init_request_t_def Let_def req_def r_def s1_def p_def r'_def split: prod.split)
  have lists: "nxt s' = nxt s1" "prv s' = prv s1" by (simp_all add: s' p_def)
  show "same_links (\<lambda>p. p \<notin> {ReqList a, ReqFree a}) s s'"
    unfolding same_links_def lists s1_def by (auto simp: list_ops_defs)
  show "wf_list s' (ReqList a) []"
    unfolding wf_list_same [OF lists] s1_def by (intro INIT_LIST_HEAD_frame INIT_LIST_HEAD_wf) simp
  show "\<exists>r. reqs s' = (reqs s)(a \<mapsto> r) \<and> fresh_conn fd r"
    by (intro exI [of _ r'])
      (simp add: s' p_def s1_def r'_def r_def init_output_fields_def init_items_def init_parse_fields_def fresh_conn_def)
  show "brk s \<le> brk s'" by (auto simp: s' p_def s1_def malloc_def split: list.split bool.split)
  show "io s' = io s" "hdrs s' = hdrs s" "hc_free_count s' = hc_free_count s" "hc_inited s' = hc_inited s" "req_mem.more s' = req_mem.more s"
    by (simp_all add: s' p_def s1_def)
qed

lemma zv_init_request_t_rc [simp]:
  "rc_free_count (zv_init_request_t a fd epfd cf s) = rc_free_count s"
  "rc_inited (zv_init_request_t a fd epfd cf s) = rc_inited s"
  "cache_mem.more (zv_init_request_t a fd epfd cf s) = cache_mem.more s"
  by (simp_all add: zv_init_request_t_def Let_def split: prod.split)
     (auto simp: malloc_def split: list.splits bool.splits if_splits)

text \<open>What every operation of the cache leaves alone.\<close>

definition rc_frame :: "addr set \<Rightarrow> 'z cache_mem_scheme \<Rightarrow> 'z cache_mem_scheme \<Rightarrow> bool" where
  "rc_frame A s s' \<longleftrightarrow>
     same_links (\<lambda>p. \<not> rc_node p \<and> p \<notin> ReqList ` A) s s' \<and> hdrs s' = hdrs s \<and> hc_free_count s' = hc_free_count s \<and>
     hc_inited s' = hc_inited s \<and> io s' = io s \<and> brk s \<le> brk s' \<and> cache_mem.more s' = cache_mem.more s"

lemma rc_frame_refl [simp]: "rc_frame A s s"
  by (simp add: rc_frame_def)

lemma rc_frame_trans: "rc_frame A s s' \<Longrightarrow> rc_frame A s' s'' \<Longrightarrow> rc_frame A s s''"
  by (auto simp: rc_frame_def elim: same_links_trans)

lemma rc_frame_mono: "rc_frame A s s' \<Longrightarrow> A \<subseteq> B \<Longrightarrow> rc_frame B s s'"
  by (auto simp: rc_frame_def elim!: same_links_mono)

lemma rc_frame_init_once: "rc_frame A s (rc_init_once s)"
  by (auto simp: rc_frame_def intro: same_links_mono [OF same_links_rc_init_once])

lemma rc_frame_init_request: "rc_frame {a} s (zv_init_request_t a fd epfd cf s)"
  using zv_init_request_t_spec [where s = s and a = a and fd = fd and epfd = epfd and cf = cf]
  by (auto simp: rc_frame_def rc_node_def elim!: same_links_mono)

lemma rc_frame_hc_inv: "rc_frame A s s' \<Longrightarrow> hc_inv s hs \<Longrightarrow> hc_inv s' hs"
proof -
  assume f: "rc_frame A s s'" and h: "hc_inv s hs"
  have "same_links (\<lambda>p. \<not> rc_node p \<and> p \<notin> ReqList ` A) (hc_init_once s) (hc_init_once s')"
    using f by (auto simp: rc_frame_def same_links_def hc_init_once_def list_ops_defs)
  then have "wf_list (hc_init_once s') FreeHeaders (map HdrNode hs) \<longleftrightarrow> wf_list (hc_init_once s) FreeHeaders (map HdrNode hs)"
    by (rule same_links_wf_iff) (auto simp: rc_node_def)
  moreover have "hc_free_count (hc_init_once s') = hc_free_count (hc_init_once s)"
    using f by (simp add: rc_frame_def hc_init_once_def)
  moreover have "\<forall>a \<in> dom (hdrs s'). 1 \<le> a \<and> a < brk s'"
    using f h unfolding rc_frame_def hc_inv_def by (metis order_less_le_trans)
  ultimately show ?thesis using f h by (simp add: hc_inv_def rc_frame_def)
qed

text \<open>A request block from the free list.\<close>

lemma rc_node_simps [simp]:
  "rc_node FreeRequests" "rc_node DeferredRequests" "rc_node (ReqFree a)" "\<not> rc_node (ReqList a)" "\<not> rc_node (HdrNode a)"
  "\<not> rc_node FreeHeaders"
  by (auto simp: rc_node_def)

lemma zv_http_request_get_hit:
  assumes "rc_inv s (x # xs) ds"
  shows "\<exists>s' r. zv_http_request_get fd epfd cf s = (x, s') \<and> rc_inv s' xs ds \<and> reqs s' = (reqs s)(x \<mapsto> r) \<and> fresh_conn fd r \<and>
           wf_list s' (ReqList x) [] \<and> rc_frame {x} s s'"
proof -
  let ?s = "rc_init_once s" and ?n = "ReqFree x" and ?fs = "map ReqFree xs" and ?ds = "map ReqFree ds"
  from assms have wf: "wf_list ?s FreeRequests (?n # ?fs)" and wd: "wf_list ?s DeferredRequests ?ds"
    and c: "rc_free_count ?s = Suc (length xs)" and x: "x \<in> dom (reqs s)" and x0: "x \<noteq> NULL"
    and disj: "set (x # xs) \<inter> set ds = {}"
    by (auto simp: rc_inv_def)
  define s1 where "s1 = (list_del ?n (?s\<lparr>rc_get_calls := rc_get_calls ?s + 1\<rparr>))\<lparr>rc_get_hits := rc_get_hits ?s + 1, rc_free_count := length xs\<rparr>"
  define s' where "s' = zv_init_request_t x fd epfd cf s1"
  have "nxt ?s FreeRequests = ?n" using fl.first_hd [OF wf] .
  moreover have "\<not> list_empty FreeRequests ?s" using fl.empty_iff [OF wf] by simp
  ultimately have eq: "zv_http_request_get fd epfd cf s = (x, s')"
    using c x0 by (simp add: zv_http_request_get_def rc_take_def Let_def req_entry_def list_empty_def s1_def s'_def)
  have links: "nxt s1 = nxt (list_del ?n ?s)" "prv s1 = prv (list_del ?n ?s)" by (simp_all add: s1_def list_ops_defs)
  note init = zv_init_request_t_spec [where s = s1 and a = x and fd = fd and epfd = epfd and cf = cf, folded s'_def]
  have nx: "?n \<notin> set ?fs" using fl.first_not_in_rest [OF wf] by simp
  have "wf_list s1 FreeRequests ?fs" unfolding wf_list_same [OF links] using fl.unlink_hd [OF wf] .
  then have f: "wf_list s' FreeRequests ?fs" using nx by (intro same_links_wf [OF init(1)]) auto
  have "wf_list s1 DeferredRequests ?ds"
    unfolding wf_list_same [OF links] using wd wf disj
    by (intro list_del_frame [of _ _ _ FreeRequests "[]" ?n ?fs]) auto
  then have d: "wf_list s' DeferredRequests ?ds" using disj by (intro same_links_wf [OF init(1)]) auto
  obtain r where r: "reqs s' = (reqs s)(x \<mapsto> r)" "fresh_conn fd r" using init(3) by (auto simp: s1_def)
  have "rc_frame {x} s s1"
  proof (rule rc_frame_trans [OF rc_frame_init_once])
    have "same_links (\<lambda>p. \<not> rc_node p \<and> p \<notin> ReqList ` {x}) ?s (list_del ?n ?s)"
      by (rule same_links_del_hd [OF wf]) auto
    moreover have "hdrs s1 = hdrs ?s" "hc_free_count s1 = hc_free_count ?s" "hc_inited s1 = hc_inited ?s" "io s1 = io ?s" "brk ?s = brk s1"
      "cache_mem.more s1 = cache_mem.more ?s"
      by (simp_all add: s1_def)
    ultimately show "rc_frame {x} ?s s1" by (simp add: rc_frame_def same_links_def links)
  qed
  then have fr: "rc_frame {x} s s'" unfolding s'_def by (rule rc_frame_trans [OF _ rc_frame_init_request])
  from fr have "brk s \<le> brk s'" by (simp add: rc_frame_def)
  moreover have "dom (reqs s') = dom (reqs s)" using r x by auto
  moreover have "rc_inited s'" "rc_free_count s' = length xs" by (simp_all add: s'_def s1_def)
  ultimately have "rc_inv s' xs ds"
    using f d assms below_mono [of "dom (reqs s)" "brk s" "brk s'"] by (simp add: rc_inv_inited) (simp add: rc_inv_def)
  with eq r init(2) fr show ?thesis by blast
qed


text \<open>A new block when the free list is empty.\<close>

lemma zv_http_request_get_miss:
  assumes "rc_inv s [] ds" and "zv_http_request_get fd epfd cf s = (a, s')"
  shows "rc_inv s' [] ds \<and> rc_frame {a} s s' \<and>
         (a = NULL \<and> reqs s' = reqs s \<or>
          a = brk s \<and> wf_list s' (ReqList a) [] \<and> (\<exists>r. reqs s' = (reqs s)(a \<mapsto> r) \<and> fresh_conn fd r))"
proof -
  let ?s = "(rc_init_once s)\<lparr>rc_get_calls := rc_get_calls (rc_init_once s) + 1\<rparr>" and ?ds = "map ReqFree ds"
  from assms(1) have wf: "wf_list (rc_init_once s) FreeRequests []" and wd: "wf_list (rc_init_once s) DeferredRequests ?ds"
    and c: "rc_free_count (rc_init_once s) = 0" and b: "1 \<le> brk s" "\<forall>a \<in> dom (reqs s). 1 \<le> a \<and> a < brk s"
    and ds: "set ds \<subseteq> dom (reqs s)"
    by (auto simp: rc_inv_def)
  have links: "nxt ?s = nxt (rc_init_once s)" "prv ?s = prv (rc_init_once s)" by simp_all
  have empty: "list_empty FreeRequests ?s" using fl.empty_iff [OF wf] by (simp add: list_empty_def)
  obtain p s1 where m: "malloc ?s = (p, s1)" by (cases "malloc ?s")
  have m_rc: "reqs s1 = reqs s" "rc_free_count s1 = 0" "rc_inited s1" "nxt s1 = nxt (rc_init_once s)" "prv s1 = prv (rc_init_once s)"
    "brk s \<le> brk s1" "io s1 = io s" "hdrs s1 = hdrs s" "hc_free_count s1 = hc_free_count s" "hc_inited s1 = hc_inited s"
    "cache_mem.more s1 = cache_mem.more s"
    using malloc_rc [of ?s] malloc_reqs [of ?s] malloc_hdrs [of ?s] malloc_lists [of ?s] m c by simp_all
  have w1: "wf_list s1 FreeRequests []" "wf_list s1 DeferredRequests ?ds"
    using wf wd wf_list_same [OF m_rc(4,5)] by blast+
  have f1: "rc_frame {a} s s1"
    using rc_frame_init_once [of "{a}" s] m_rc by (auto simp: rc_frame_def same_links_def)
  from m show ?thesis
  proof (cases rule: malloc_cases)
    case fail
    then have "(a, s') = (NULL, s1)" using assms(2) m empty by (simp add: zv_http_request_get_def rc_take_def Let_def)
    with m_rc w1 b ds f1 fail show ?thesis by (auto simp: rc_inv_inited)
  next
    case ok
    define s2 where "s2 = (set_req p zero_request s1)\<lparr>rc_get_mallocs := rc_get_mallocs s1 + 1\<rparr>"
    from ok b have p: "p \<noteq> NULL" "p = brk s" "brk s1 = Suc (brk s)" by auto
    have res: "a = p" "s' = zv_init_request_t p fd epfd cf s2"
      using assms(2) m empty p(1) unfolding zv_http_request_get_def rc_take_def s2_def by (auto simp: Let_def)
    note init = zv_init_request_t_spec [where s = s2 and a = p and fd = fd and epfd = epfd and cf = cf, folded res(2)]
    have w2: "wf_list s2 FreeRequests []" "wf_list s2 DeferredRequests ?ds" "rc_frame {a} s s2"
      using w1 f1 wf_list_same [of s2 s1] by (simp_all add: s2_def rc_frame_def same_links_def)
    have nds: "p \<notin> set ds" using ds b p by auto
    obtain r where r: "reqs s' = (reqs s)(a \<mapsto> r)" "fresh_conn fd r"
      using init(3) m_rc res by (auto simp: s2_def)
    have w3: "wf_list s' FreeRequests []" "wf_list s' DeferredRequests ?ds"
      using w2 nds by (auto intro!: same_links_wf [OF init(1)])
    have f3: "rc_frame {a} s s'"
      using w2(3) unfolding res by (rule rc_frame_trans [OF _ rc_frame_init_request])
    have brk: "Suc (brk s) \<le> brk s'" using init(4) p by (simp add: s2_def)
    have "\<forall>x \<in> dom (reqs s'). 1 \<le> x \<and> x < brk s'"
    proof
      fix x assume "x \<in> dom (reqs s')"
      then consider "x = brk s" | "x \<in> dom (reqs s)" using r res p by auto
      then show "1 \<le> x \<and> x < brk s'" using brk b by cases (simp, meson Suc_leD order_less_le_trans)
    qed
    moreover have "rc_inited s'" "rc_free_count s' = 0" using m_rc by (simp_all add: res s2_def)
    ultimately have "rc_inv s' [] ds" using w3 r ds brk by (auto simp: rc_inv_inited)
    with f3 r init(2) res p show ?thesis by auto
  qed
qed


text \<open>Putting a node on one of the two lists.\<close>

lemma rc_push:
  assumes "rc_inv s xs ds" and "rc_inited s" and "a \<in> dom (reqs s)" and "a \<notin> set xs" and "a \<notin> set ds"
  shows "wf_list (list_add (ReqFree a) FreeRequests (INIT_LIST_HEAD (ReqFree a) s)) FreeRequests (map ReqFree (a # xs))"
    and "wf_list (list_add (ReqFree a) FreeRequests (INIT_LIST_HEAD (ReqFree a) s)) DeferredRequests (map ReqFree ds)"
    and "wf_list (list_add (ReqFree a) DeferredRequests (INIT_LIST_HEAD (ReqFree a) s)) DeferredRequests (map ReqFree (a # ds))"
    and "wf_list (list_add (ReqFree a) DeferredRequests (INIT_LIST_HEAD (ReqFree a) s)) FreeRequests (map ReqFree xs)"
    and "same_links (\<lambda>p. \<not> rc_node p) s (list_add (ReqFree a) FreeRequests (INIT_LIST_HEAD (ReqFree a) s))"
    and "same_links (\<lambda>p. \<not> rc_node p) s (list_add (ReqFree a) DeferredRequests (INIT_LIST_HEAD (ReqFree a) s))"
proof -
  from assms(1,2) have wf: "wf_list s FreeRequests (map ReqFree xs)" and wd: "wf_list s DeferredRequests (map ReqFree ds)"
    and dis: "set xs \<inter> set ds = {}"
    by (simp_all add: rc_inv_inited)
  let ?s = "INIT_LIST_HEAD (ReqFree a) s"
  have w: "wf_list ?s FreeRequests (map ReqFree xs)" "wf_list ?s DeferredRequests (map ReqFree ds)"
    using wf wd assms(4,5) by (auto intro!: INIT_LIST_HEAD_frame)
  show "wf_list (list_add (ReqFree a) FreeRequests ?s) FreeRequests (map ReqFree (a # xs))"
    using fl.push_new [OF wf, of "ReqFree a"] assms(4) by auto
  show "wf_list (list_add (ReqFree a) DeferredRequests ?s) DeferredRequests (map ReqFree (a # ds))"
    using fl.push_new [OF wd, of "ReqFree a"] assms(5) by auto
  show "wf_list (list_add (ReqFree a) FreeRequests ?s) DeferredRequests (map ReqFree ds)"
    using w dis assms(5) by (intro list_add_frame [of _ _ _ _ "map ReqFree xs"]) auto
  show "wf_list (list_add (ReqFree a) DeferredRequests ?s) FreeRequests (map ReqFree xs)"
    using w dis assms(4) by (intro list_add_frame [of _ _ _ _ "map ReqFree ds"]) auto
  show "same_links (\<lambda>p. \<not> rc_node p) s (list_add (ReqFree a) FreeRequests ?s)"
    by (rule same_links_trans [OF same_links_INIT same_links_add [OF w(1)]]) auto
  show "same_links (\<lambda>p. \<not> rc_node p) s (list_add (ReqFree a) DeferredRequests ?s)"
    by (rule same_links_trans [OF same_links_INIT same_links_add [OF w(2)]]) auto
qed

lemma rc_inv_nonnull: "rc_inv s xs ds \<Longrightarrow> a \<in> dom (reqs s) \<Longrightarrow> a \<noteq> NULL"
  by (auto simp: rc_inv_def)

lemma zv_http_request_put_room:
  assumes "rc_inv s xs ds" and "a \<in> dom (reqs s)" and "a \<notin> set xs" and "a \<notin> set ds" and "length xs < ZV_REQUEST_FREELIST_MAX"
  shows "rc_inv (zv_http_request_put a s) (a # xs) ds" and "reqs (zv_http_request_put a s) = reqs s"
    and "rc_frame A s (zv_http_request_put a s)"
proof -
  define s0 where "s0 = (rc_init_once s)\<lparr>rc_put_calls := rc_put_calls (rc_init_once s) + 1\<rparr>"
  have links0: "nxt s0 = nxt (rc_init_once s)" "prv s0 = prv (rc_init_once s)" by (simp_all add: s0_def)
  have s0: "rc_inited s0" "reqs s0 = reqs s" "rc_free_count s0 = rc_free_count (rc_init_once s)" "brk s0 = brk s" by (simp_all add: s0_def)
  have inv0: "rc_inv s0 xs ds"
    using assms(1) s0 wf_list_same [OF links0] by (simp add: rc_inv_inited) (simp add: rc_inv_def)
  have fr0: "rc_frame A s s0"
    using rc_frame_init_once [of A s] links0 by (simp add: rc_frame_def same_links_def s0_def)
  define s1 where "s1 = list_add (ReqFree a) FreeRequests (INIT_LIST_HEAD (ReqFree a) s0)"
  note push = rc_push [OF inv0 s0(1), unfolded s0(2), OF assms(2-4), folded s1_def]
  have a: "a \<noteq> NULL" using rc_inv_nonnull assms(1,2) .
  have cnt: "rc_free_count s0 = length xs" using assms(1) s0 by (simp add: rc_inv_def)
  define s' where "s' = zv_http_request_put a s"
  have eq: "s' = (if Suc (length xs) > rc_max_free_count s0
      then s1\<lparr>rc_free_count := Suc (length xs), rc_max_free_count := Suc (length xs)\<rparr> else s1\<lparr>rc_free_count := Suc (length xs)\<rparr>)"
    using a cnt assms(5) by (simp add: s'_def zv_http_request_put_def put_internal_def Let_def s0_def s1_def)
  have links: "nxt s' = nxt s1" "prv s' = prv s1" by (simp_all add: eq)
  have f: "reqs s' = reqs s" "rc_inited s'" "rc_free_count s' = Suc (length xs)" "brk s' = brk s"
    using s0 by (simp_all add: eq s1_def)
  show "reqs s' = reqs s" by (rule f)
  show "rc_inv s' (a # xs) ds"
    using assms push(1,2) f wf_list_same [OF links] by (simp add: rc_inv_inited) (simp add: rc_inv_def)
  have "rc_frame A s0 s'"
    using push(5) links s0 by (simp add: rc_frame_def same_links_def eq s1_def)
  with fr0 show "rc_frame A s s'" by (rule rc_frame_trans)
qed

lemma zv_http_request_put_full:
  assumes "rc_inv s xs ds" and "a \<in> dom (reqs s)" and "a \<notin> set xs" and "a \<notin> set ds" and "length xs = ZV_REQUEST_FREELIST_MAX"
  shows "rc_inv (zv_http_request_put a s) xs ds" and "reqs (zv_http_request_put a s) = (reqs s)(a := None)"
    and "rc_frame A s (zv_http_request_put a s)"
proof -
  have a: "a \<noteq> NULL" using rc_inv_nonnull assms(1,2) .
  define s' where "s' = zv_http_request_put a s"
  have eq: "s' = (rc_init_once s)\<lparr>rc_put_calls := rc_put_calls (rc_init_once s) + 1, reqs := (reqs s)(a := None),
      rc_put_frees := rc_put_frees (rc_init_once s) + 1\<rparr>"
    using a assms(1,5) by (simp add: s'_def zv_http_request_put_def put_internal_def Let_def rc_inv_def)
  have links: "nxt s' = nxt (rc_init_once s)" "prv s' = prv (rc_init_once s)" by (simp_all add: eq)
  show "reqs s' = (reqs s)(a := None)" by (simp add: eq)
  have f: "rc_inited s'" "rc_free_count s' = rc_free_count (rc_init_once s)" "brk s' = brk s" "reqs s' = (reqs s)(a := None)"
    by (simp_all add: eq)
  show "rc_inv s' xs ds"
    using assms f wf_list_same [OF links] by (simp add: rc_inv_inited) (auto simp: rc_inv_def)
  show "rc_frame A s s'"
    using rc_frame_init_once [of A s] links by (simp add: rc_frame_def same_links_def eq)
qed

lemma zv_http_request_put_deferred_spec:
  assumes "rc_inv s xs ds" and "a \<in> dom (reqs s)" and "a \<notin> set xs" and "a \<notin> set ds"
  shows "rc_inv (zv_http_request_put_deferred a s) xs (a # ds)" and "reqs (zv_http_request_put_deferred a s) = reqs s"
    and "rc_frame A s (zv_http_request_put_deferred a s)"
proof -
  define s0 where "s0 = rc_init_once s"
  have inv0: "rc_inv s0 xs ds" "rc_inited s0" "reqs s0 = reqs s" "brk s0 = brk s"
    using assms(1) by (simp_all add: rc_inv_init_once s0_def)
  define s' where "s' = zv_http_request_put_deferred a s"
  have a: "a \<noteq> NULL" using rc_inv_nonnull assms(1,2) .
  then have eq: "s' = list_add (ReqFree a) DeferredRequests (INIT_LIST_HEAD (ReqFree a) s0)"
    by (simp add: s'_def s0_def zv_http_request_put_deferred_def)
  note push = rc_push [OF inv0(1,2), unfolded inv0(3), OF assms(2-4), folded eq]
  show "reqs s' = reqs s" by (simp add: eq s0_def)
  show "rc_inv s' xs (a # ds)"
    using inv0 push(3,4) assms(2,3) by (simp add: rc_inv_inited eq)
  have "rc_frame A s0 s'" using push(6) by (simp add: rc_frame_def eq same_links_def)
  then show "rc_frame A s s'" unfolding s0_def by (rule rc_frame_trans [OF rc_frame_init_once])
qed


section \<open>Flushing the deferred list\<close>

lemma deferred_pop:
  assumes "rc_inv s xs (d # ds)" and "rc_inited s"
  shows "nxt s DeferredRequests = ReqFree d" and "\<not> list_empty DeferredRequests s"
    and "rc_inv (list_del (ReqFree d) s) xs ds" and "rc_frame A s (list_del (ReqFree d) s)"
    and "d \<in> dom (reqs s)" and "d \<notin> set xs" and "d \<notin> set ds"
proof -
  from assms have wf: "wf_list s FreeRequests (map ReqFree xs)" and wd: "wf_list s DeferredRequests (ReqFree d # map ReqFree ds)"
    and dis: "set xs \<inter> set (d # ds) = {}"
    by (simp_all add: rc_inv_inited)
  show "nxt s DeferredRequests = ReqFree d" using fl.first_hd [OF wd] .
  show "\<not> list_empty DeferredRequests s" using fl.empty_iff [OF wd] by simp
  show "d \<in> dom (reqs s)" "d \<notin> set xs" using assms dis by (auto simp: rc_inv_inited)
  show "d \<notin> set ds" using fl.first_not_in_rest [OF wd] by auto
  have "wf_list (list_del (ReqFree d) s) FreeRequests (map ReqFree xs)"
    using wf wd dis by (intro list_del_frame [of _ _ _ DeferredRequests "[]" "ReqFree d" "map ReqFree ds"]) auto
  with fl.unlink_hd [OF wd] show "rc_inv (list_del (ReqFree d) s) xs ds"
    using assms by (simp add: rc_inv_inited)
  have "same_links (\<lambda>p. \<not> rc_node p) s (list_del (ReqFree d) s)" by (rule same_links_del_hd [OF wd]) auto
  then show "rc_frame A s (list_del (ReqFree d) s)" by (simp add: rc_frame_def same_links_def)
qed

lemma zv_http_request_put_inited [simp]: "rc_inited s \<Longrightarrow> rc_inited (zv_http_request_put a s)"
  by (simp add: zv_http_request_put_def put_internal_def Let_def)

lemma deferred_loop_spec:
  "rc_inv s xs ds \<Longrightarrow> rc_inited s \<Longrightarrow>
   \<exists>s'. deferred_loop s = Some s' \<and> rc_inited s' \<and> rc_frame A s s' \<and>
     rc_inv s' (rev (take (ZV_REQUEST_FREELIST_MAX - length xs) ds) @ xs) [] \<and>
     reqs s' = reqs s |` (- set (drop (ZV_REQUEST_FREELIST_MAX - length xs) ds))"
proof (induction ds arbitrary: s xs)
  case Nil
  then have "list_empty DeferredRequests s"
    using fl.empty_iff [of s DeferredRequests "[]"] by (simp add: rc_inv_inited)
  with Nil show ?case by (simp add: deferred_loop.simps)
next
  case (Cons d ds)
  let ?s1 = "list_del (ReqFree d) s" and ?k = "ZV_REQUEST_FREELIST_MAX - length xs"
  note pop = deferred_pop [OF Cons.prems]
  define s2 where "s2 = zv_http_request_put d ?s1"
  have loop: "deferred_loop s = deferred_loop s2"
    using pop(1,2) by (subst deferred_loop.simps) (simp add: Let_def req_entry_def s2_def)
  have i2: "rc_inited s2" using Cons.prems by (simp add: s2_def)
  have d1: "d \<in> dom (reqs ?s1)" using pop(5) by simp
  have fr: "rc_frame A s ?s1" by (rule pop(4))
  show ?case
  proof (cases "length xs < ZV_REQUEST_FREELIST_MAX")
    case True
    note put = zv_http_request_put_room [OF pop(3) d1 pop(6,7) True, folded s2_def]
    obtain s' where s': "deferred_loop s2 = Some s'" "rc_inited s'" "rc_frame A s2 s'"
      "rc_inv s' (rev (take (ZV_REQUEST_FREELIST_MAX - Suc (length xs)) ds) @ d # xs) []"
      "reqs s' = reqs s2 |` (- set (drop (ZV_REQUEST_FREELIST_MAX - Suc (length xs)) ds))"
      using Cons.IH [OF put(1) i2] by auto
    obtain k where k: "?k = Suc k" "ZV_REQUEST_FREELIST_MAX - Suc (length xs) = k" using True by (cases ?k) auto
    have "rc_frame A s s'" using fr put(3) s'(3) by (blast intro: rc_frame_trans)
    with s' k loop put(2) show ?thesis by simp
  next
    case False
    with pop(3) have full: "length xs = ZV_REQUEST_FREELIST_MAX" by (simp add: rc_inv_def)
    note put = zv_http_request_put_full [OF pop(3) d1 pop(6,7) full, folded s2_def]
    obtain s' where s': "deferred_loop s2 = Some s'" "rc_inited s'" "rc_frame A s2 s'" "rc_inv s' xs []"
      "reqs s' = reqs s2 |` (- set ds)"
      using Cons.IH [OF put(1) i2] full by auto
    have "rc_frame A s s'" using fr put(3) s'(3) by (blast intro: rc_frame_trans)
    with s' full loop put(2) show ?thesis by (auto simp: restrict_map_def fun_eq_iff)
  qed
qed

lemma zv_http_request_deferred_flush_spec:
  assumes "rc_inv s xs ds"
  obtains s' where "zv_http_request_deferred_flush s = Some s'" and "rc_frame A s s'"
    and "rc_inv s' (rev (take (ZV_REQUEST_FREELIST_MAX - length xs) ds) @ xs) []"
    and "reqs s' = reqs s |` (- set (drop (ZV_REQUEST_FREELIST_MAX - length xs) ds))"
proof -
  have "rc_inv (rc_init_once s) xs ds" using assms by (simp add: rc_inv_init_once)
  from deferred_loop_spec [OF this, of A] obtain s' where "deferred_loop (rc_init_once s) = Some s'" "rc_frame A (rc_init_once s) s'"
    "rc_inv s' (rev (take (ZV_REQUEST_FREELIST_MAX - length xs) ds) @ xs) []"
    "reqs s' = reqs s |` (- set (drop (ZV_REQUEST_FREELIST_MAX - length xs) ds))" by auto
  then show thesis using that [of s'] rc_frame_trans [OF rc_frame_init_once, of A s s'] by (simp add: zv_http_request_deferred_flush_def)
qed

section \<open>The interface\<close>

text \<open>While the deferred list is fixed, the free list of requests is an object cache.\<close>

interpretation rc: object_cache "zv_http_request_get fd epfd cf" zv_http_request_put "\<lambda>s xs. rc_inv s xs ds"
  "\<lambda>s. dom (reqs s) - set ds" ZV_REQUEST_FREELIST_MAX
  for fd epfd cf ds
proof (unfold_locales, goal_cases)
  case (1 s xs)
  then show ?case using rc_inv_distinct [OF 1] by (auto simp: rc_inv_def)
next
  case (2 s x xs)
  then have "x \<in> dom (reqs s)" by (simp add: rc_inv_def)
  with zv_http_request_get_hit [OF 2, of fd epfd cf] show ?case by (auto simp: insert_absorb)
next
  case (3 s a s')
  then have "brk s \<notin> dom (reqs s)" "set ds \<subseteq> dom (reqs s)" "1 \<le> brk s" by (auto simp: rc_inv_def)
  with zv_http_request_get_miss [OF 3] show ?case by auto
next
  case (4 s xs a)
  then show ?case using zv_http_request_put_room [of s xs ds a] by auto
next
  case (5 s xs a)
  then show ?case using zv_http_request_put_full [of s xs ds a] by auto
qed

text \<open>
  A worker's use of the cache: it takes requests for new connections, gives up those it holds at once or
  deferred, and flushes. \<open>own\<close> are the requests it holds.
\<close>

inductive rc_run :: "'z cache_mem_scheme \<times> addr set \<Rightarrow> 'z cache_mem_scheme \<times> addr set \<Rightarrow> bool" where
  rc_none: "rc_run x x"
| rc_get: "rc_run x (s, own) \<Longrightarrow> zv_http_request_get fd epfd cf s = (a, s') \<Longrightarrow>
    rc_run x (s', if a = NULL then own else insert a own)"
| rc_put: "rc_run x (s, own) \<Longrightarrow> a \<in> own \<Longrightarrow> rc_run x (zv_http_request_put a s, own - {a})"
| rc_defer: "rc_run x (s, own) \<Longrightarrow> a \<in> own \<Longrightarrow> rc_run x (zv_http_request_put_deferred a s, own - {a})"
| rc_flush: "rc_run x (s, own) \<Longrightarrow> zv_http_request_deferred_flush s = Some s' \<Longrightarrow> rc_run x (s', own)"

definition rc_accounted :: "'z cache_mem_scheme \<Rightarrow> addr set \<Rightarrow> addr list \<Rightarrow> addr list \<Rightarrow> bool" where
  "rc_accounted s own xs ds \<longleftrightarrow>
     rc_inv s xs ds \<and> own \<inter> (set xs \<union> set ds) = {} \<and> own \<union> set xs \<union> set ds = dom (reqs s)"

lemma rc_inv_lists: "rc_inv s xs ds \<Longrightarrow> set xs \<subseteq> dom (reqs s) \<and> set ds \<subseteq> dom (reqs s) \<and> set xs \<inter> set ds = {}"
  by (simp add: rc_inv_def)

lemma rc_accounted_rc: "rc_accounted s own xs ds \<Longrightarrow> rc.accounted ds s own"
  unfolding rc.accounted_def rc_accounted_def using rc_inv_lists [of s xs ds] by (intro exI [of _ xs]) auto

lemma rc_rc_accounted: "rc.accounted ds s own \<Longrightarrow> \<exists>xs. rc_accounted s own xs ds"
  unfolding rc.accounted_def rc_accounted_def by (auto dest: rc_inv_lists)

lemma rc_accounted_defer:
  assumes "rc_accounted s own xs ds" and "a \<in> own"
  shows "rc_accounted (zv_http_request_put_deferred a s) (own - {a}) xs (a # ds)"
proof -
  from assms have "rc_inv s xs ds" "a \<in> dom (reqs s)" "a \<notin> set xs" "a \<notin> set ds" by (auto simp: rc_accounted_def)
  note put_deferred = zv_http_request_put_deferred_spec [OF this]
  have "own - {a} \<union> set xs \<union> set (a # ds) = dom (reqs s)" using assms by (auto simp: rc_accounted_def)
  with assms put_deferred show ?thesis by (auto simp: rc_accounted_def)
qed

lemma rc_accounted_flush:
  assumes "rc_accounted s own xs ds" and "zv_http_request_deferred_flush s = Some s'"
  shows "\<exists>xs'. rc_accounted s' own xs' []"
proof -
  let ?k = "ZV_REQUEST_FREELIST_MAX - length xs"
  from assms(1) have inv: "rc_inv s xs ds" by (simp add: rc_accounted_def)
  from inv obtain s'' where s'': "zv_http_request_deferred_flush s = Some s''" "rc_inv s'' (rev (take ?k ds) @ xs) []"
    "reqs s'' = reqs s |` (- set (drop ?k ds))" by (rule zv_http_request_deferred_flush_spec)
  have "set ds = set (take ?k ds) \<union> set (drop ?k ds)" by (metis append_take_drop_id set_append)
  moreover have "set (take ?k ds) \<inter> set (drop ?k ds) = {}"
    using rc_inv_distinct [OF inv] by (simp add: set_take_disj_set_drop_if_distinct)
  moreover have "set xs \<inter> set ds = {}" using inv by (simp add: rc_inv_def)
  ultimately show ?thesis using assms s'' by (intro exI [of _ "rev (take ?k ds) @ xs"]) (auto simp: rc_accounted_def)
qed

lemma rc_run_accounted:
  assumes "rc_run x y" and "rc_accounted (fst x) (snd x) xs ds"
  shows "\<exists>xs ds. rc_accounted (fst y) (snd y) xs ds"
  using assms
proof (induction rule: rc_run.induct)
  case (rc_none x)
  then show ?case by auto
next
  case (rc_get x s own fd epfd cf a s')
  then show ?case using rc.accounted_get(1) rc_accounted_rc rc_rc_accounted by (metis fst_conv snd_conv)
next
  case (rc_put x s own a)
  then show ?case using rc.accounted_put rc_accounted_rc rc_rc_accounted by (metis fst_conv snd_conv)
next
  case (rc_defer x s own a)
  then show ?case using rc_accounted_defer by fastforce
next
  case (rc_flush x s own s')
  then show ?case using rc_accounted_flush by fastforce
qed

section \<open>Properties\<close>

text \<open>
  C20. However a worker takes requests, gives them up, defers and flushes them, and whichever allocations fail: a
  request handed out is in nobody's hands, not waiting on the deferred list, and reset for its connection; every
  request that exists is held, free or deferred, and only one of these; the free list holds at most 65536; and a
  flush always ends, with nothing deferred and nothing taken from its holder.
\<close>

theorem request_cache_safe:
  assumes "rc_run (s0, {}) (s, own)" and "\<not> rc_inited s0" and "reqs s0 = Map.empty" and "1 \<le> brk s0"
  shows "\<exists>xs ds. rc_accounted s own xs ds \<and> length xs \<le> 65536 \<and>
           (\<forall>fd epfd cf a s'. zv_http_request_get fd epfd cf s = (a, s') \<and> a \<noteq> NULL \<longrightarrow>
              a \<notin> own \<and> a \<notin> set ds \<and> (\<exists>r. reqs s' a = Some r \<and> fresh_conn fd r) \<and> wf_list s' (ReqList a) []) \<and>
           (\<exists>s' xs'. zv_http_request_deferred_flush s = Some s' \<and> rc_accounted s' own xs' [])"
proof -
  have "rc_accounted s0 {} [] []" using rc_inv_start [OF assms(2-4)] assms(3) by (simp add: rc_accounted_def)
  then obtain xs ds where acc: "rc_accounted s own xs ds" using rc_run_accounted [OF assms(1), of "[]" "[]"] by auto
  then have inv: "rc_inv s xs ds" by (simp add: rc_accounted_def)
  have "a \<notin> own \<and> a \<notin> set ds \<and> (\<exists>r. reqs s' a = Some r \<and> fresh_conn fd r) \<and> wf_list s' (ReqList a) []"
    if g: "zv_http_request_get fd epfd cf s = (a, s')" "a \<noteq> NULL" for fd epfd cf a s'
  proof (cases xs)
    case Nil
    with inv have i: "rc_inv s [] ds" by simp
    from zv_http_request_get_miss [OF i g(1)] g(2)
    obtain r where "a = brk s" "reqs s' a = Some r" "fresh_conn fd r" "wf_list s' (ReqList a) []" by auto
    moreover have "brk s \<notin> dom (reqs s)" using inv by (auto simp: rc_inv_def)
    moreover have "own \<subseteq> dom (reqs s)" "set ds \<subseteq> dom (reqs s)" using acc by (auto simp: rc_accounted_def)
    ultimately show ?thesis by blast
  next
    case (Cons x ys)
    with zv_http_request_get_hit [of s x ys ds fd epfd cf] inv g
    obtain r where "a = x" "reqs s' a = Some r" "fresh_conn fd r" "wf_list s' (ReqList a) []" by auto
    moreover have "x \<notin> own" "x \<notin> set ds" using acc Cons rc_inv_lists [OF inv] by (auto simp: rc_accounted_def)
    ultimately show ?thesis by simp
  qed
  moreover obtain s' where f: "zv_http_request_deferred_flush s = Some s'" using inv by (rule zv_http_request_deferred_flush_spec)
  moreover note rc_accounted_flush [OF acc f]
  moreover have "length xs \<le> 65536" using inv by (simp add: rc_inv_def ZV_REQUEST_FREELIST_MAX_def)
  ultimately show ?thesis using acc by blast
qed


definition sample_conf :: zv_conf where
  "sample_conf = \<lparr>cf_root = Some ''./html'', cf_port = 3000, cf_thread_num = 4, cf_workers = 1, cf_cpu_affinity = 0,
     cf_keep_alive_timeout_ms = 5000, cf_request_timeout_ms = 5000\<rparr>"

definition rc_start :: cache_mem where
  "rc_start = \<lparr>nxt = id, prv = id, mallocs = [], brk = 1, hdrs = Map.empty, hc_free_count = 0, hc_inited = False,
     reqs = Map.empty,
     io = quiet_kio [],
     rc_free_count = 0, rc_inited = False, rc_get_calls = 0, rc_get_hits = 0, rc_get_mallocs = 0, rc_put_calls = 0,
     rc_put_frees = 0, rc_max_free_count = 0\<rparr>"

theorem request_cache_safe_witness:
  "let (a, s) = zv_http_request_get 5 3 sample_conf rc_start
   in a = 1 \<and> (\<exists>s' xs'. zv_http_request_deferred_flush (zv_http_request_put_deferred a s) = Some s' \<and> rc_accounted s' {} xs' [])"
proof -
  obtain a s where g: "zv_http_request_get 5 3 sample_conf rc_start = (a, s)"
    by (cases "zv_http_request_get 5 3 sample_conf rc_start")
  have a: "a = 1"
    using g by (auto simp: zv_http_request_get_def rc_take_def rc_init_once_def rc_start_def malloc_def list_ops_defs
        split: if_splits prod.splits)
  have start: "\<not> rc_inited rc_start" "reqs rc_start = Map.empty" "1 \<le> brk rc_start" by (simp_all add: rc_start_def)
  have "rc_run (rc_start, {}) (s, {1})" using rc_get [OF rc_none g] a by simp
  then have run: "rc_run (rc_start, {}) (zv_http_request_put_deferred a s, {1} - {1})"
    unfolding a by (rule rc_defer) simp
  from request_cache_safe [OF run start] g a show ?thesis by auto
qed

end
