(* ===== verification/Zv_Cstring.thy ===== *)
theory Zv_Cstring
  imports Zv_Format
begin

text \<open>
  The functions of the C library on strings that the sources call. A C string is read as the list of the bytes
  that follow a pointer; it ends at the first zero byte or with the list. Comparison functions are modelled by
  their result being zero. \<^verbatim>\<open>atoi\<close> is glibc's: \<^verbatim>\<open>strtol\<close> in base ten, which clamps to 64 bits, cast to \<^verbatim>\<open>int\<close>.
\<close>

abbreviation NUL :: char where "NUL \<equiv> CHR 0x00"

definition c_hd :: "string \<Rightarrow> char" where
  "c_hd s = (case s of [] \<Rightarrow> NUL | c # _ \<Rightarrow> c)"

text \<open>The string at a pointer: everything before the first zero byte.\<close>

definition c_str :: "string \<Rightarrow> string" where
  "c_str s = takeWhile (\<lambda>c. c \<noteq> NUL) s"

definition tolower :: "char \<Rightarrow> char" where
  "tolower c = (if between CHR ''A'' CHR ''Z'' c then char_of (byte_val c + 32) else c)"

text \<open>\<open>strn_eq f n s t\<close>: the first \<open>n\<close> bytes of two strings agree up to \<open>f\<close>, or both end before.\<close>

fun strn_eq :: "(char \<Rightarrow> char) \<Rightarrow> nat \<Rightarrow> string \<Rightarrow> string \<Rightarrow> bool" where
  "strn_eq f 0 s t \<longleftrightarrow> True"
| "strn_eq f (Suc n) s t \<longleftrightarrow> f (c_hd s) = f (c_hd t) \<and> (c_hd s = NUL \<or> strn_eq f n (tl s) (tl t))"

definition strncmp_eq :: "string \<Rightarrow> string \<Rightarrow> nat \<Rightarrow> bool" where
  "strncmp_eq s t n \<longleftrightarrow> strn_eq id n s t"

definition strncasecmp_eq :: "string \<Rightarrow> string \<Rightarrow> nat \<Rightarrow> bool" where
  "strncasecmp_eq s t n \<longleftrightarrow> strn_eq tolower n s t"

definition blank :: "char \<Rightarrow> bool" where
  "blank c \<longleftrightarrow> c = SP \<or> c = TAB"

definition space_char :: "char \<Rightarrow> bool" where
  "space_char c \<longleftrightarrow> c = SP \<or> between TAB CR c"

definition clamp64 :: "int \<Rightarrow> int" where
  "clamp64 v = max (- (2 ^ 63)) (min (2 ^ 63 - 1) v)"

definition to_int32 :: "int \<Rightarrow> int" where
  "to_int32 v = (v + 2 ^ 31) mod 2 ^ 32 - 2 ^ 31"

definition digits_value :: "string \<Rightarrow> int" where
  "digits_value s = int (read_nat 10 (takeWhile (between CHR ''0'' CHR ''9'') s))"

definition atoi :: "string \<Rightarrow> int" where
  "atoi s =
     (let t = dropWhile space_char s
      in to_int32 (clamp64
           (if c_hd t = CHR ''-'' then - digits_value (tl t)
            else digits_value (if c_hd t = CHR ''+'' then tl t else t))))"

section \<open>Facts\<close>

lemma c_hd_simps [simp]: "c_hd [] = NUL" "c_hd (c # s) = c"
  by (simp_all add: c_hd_def)

lemma strn_eq_prefix:
  assumes "\<And>c. f c = f NUL \<longleftrightarrow> c = NUL" and "NUL \<notin> set k"
  shows "strn_eq f (length k) (k @ rest) name \<longleftrightarrow> prefix (map f k) (map f name)"
  using assms(2)
proof (induction k arbitrary: name)
  case (Cons c k)
  show ?case
  proof (cases name)
    case Nil
    with Cons.prems assms(1) [of c] show ?thesis by auto
  next
    case (Cons d ds)
    with Cons.IH [of ds] Cons.prems show ?thesis by auto
  qed
qed simp

lemma strn_eq_sym: "(\<And>c. f c = f NUL \<longleftrightarrow> c = NUL) \<Longrightarrow> strn_eq f n s t = strn_eq f n t s"
proof (induction n arbitrary: s t)
  case (Suc n)
  have "c_hd s = NUL \<longleftrightarrow> c_hd t = NUL" if "f (c_hd s) = f (c_hd t)"
    using that Suc.prems [of "c_hd s"] Suc.prems [of "c_hd t"] by metis
  with Suc.IH [OF Suc.prems, of "tl s" "tl t"] show ?case by auto
qed simp

lemma tolower_NUL: "tolower c = tolower NUL \<longleftrightarrow> c = NUL"
proof -
  have "byte_val (tolower c) = byte_val (tolower NUL) \<longleftrightarrow> byte_val c = byte_val NUL"
    by (auto simp: tolower_def between_def byte_val_def of_char_of)
  then show ?thesis by simp
qed

lemma strncmp_eq_prefix: "NUL \<notin> set k \<Longrightarrow> strncmp_eq (k @ rest) name (length k) \<longleftrightarrow> prefix k name"
  using strn_eq_prefix [of id k rest name] by (simp add: strncmp_eq_def)

lemma strncasecmp_eq_prefix:
  "NUL \<notin> set v \<Longrightarrow> strncasecmp_eq name (v @ rest) (length v) \<longleftrightarrow> prefix (map tolower v) (map tolower name)"
  using strn_eq_prefix [OF tolower_NUL, of v rest name] strn_eq_sym [OF tolower_NUL, of "length v" name "v @ rest"]
  by (simp add: strncasecmp_eq_def)

lemma to_int32_id: "- (2 ^ 31) \<le> v \<Longrightarrow> v < 2 ^ 31 \<Longrightarrow> to_int32 v = v"
  by (simp add: to_int32_def)

lemma to_int32_range: "- (2 ^ 31) \<le> to_int32 v \<and> to_int32 v < 2 ^ 31"
  by (simp add: to_int32_def)


text \<open>\<^verbatim>\<open>atoi\<close> reads back what \<^verbatim>\<open>%d\<close> prints.\<close>

lemma dec_string_digits: "\<forall>c \<in> set (print_nat 10 n). between CHR ''0'' CHR ''9'' c"
proof (induction "10::nat" n rule: print_nat.induct)
  case (1 n)
  have "between CHR ''0'' CHR ''9'' (digit d)" if "d < 10" for d
    using that by (simp add: between_def digit_def byte_val_def of_char_of)
  with 1 show ?case by (subst print_nat.simps) auto
qed

lemma digits_value_print:
  assumes "rest = [] \<or> \<not> between CHR ''0'' CHR ''9'' (c_hd rest)"
  shows "digits_value (print_nat 10 n @ rest) = int n"
proof -
  have "takeWhile (between CHR ''0'' CHR ''9'') (print_nat 10 n @ rest) = print_nat 10 n"
    using dec_string_digits [of n] assms by (cases rest) (auto simp: takeWhile_append)
  then show ?thesis by (simp add: digits_value_def read_print)
qed

lemma atoi_print:
  assumes "- (2 ^ 31) \<le> i" and "i < 2 ^ 31" and "rest = [] \<or> \<not> between CHR ''0'' CHR ''9'' (c_hd rest)"
    and "\<forall>c \<in> set ws. space_char c"
  shows "atoi (ws @ int_string i @ rest) = i"
proof -
  have clamp: "to_int32 (clamp64 i) = i" using assms(1,2) by (simp add: clamp64_def to_int32_id)
  have nd: "c \<noteq> CHR ''-'' \<and> c \<noteq> CHR ''+'' \<and> \<not> space_char c" if "between CHR ''0'' CHR ''9'' c" for c
    using that by (auto simp: between_def space_char_def byte_val_def)
  obtain c cs where d: "print_nat 10 (nat i) = c # cs" and c: "between CHR ''0'' CHR ''9'' c"
    using print_nat_digits [of 10 "nat i"] dec_string_digits [of "nat i"] by (cases "print_nat 10 (nat i)") auto
  have ws: "dropWhile space_char (ws @ t) = dropWhile space_char t" for t using assms(4) by (simp add: dropWhile_append2)
  show ?thesis
  proof (cases "i < 0")
    case True
    have "\<not> space_char CHR ''-''" by (simp add: space_char_def between_def byte_val_def)
    with True ws digits_value_print [OF assms(3), of "nat (- i)"] clamp show ?thesis
      by (simp add: atoi_def int_string_def)
  next
    case False
    with ws digits_value_print [OF assms(3), of "nat i"] clamp nd [OF c] d show ?thesis
      by (simp add: atoi_def int_string_def)
  qed
qed

end
