(* ===== verification/Zv_Headers.thy ===== *)
theory Zv_Headers
  imports Zv_Request_Cache Zv_Parse_Headers Zv_Output Zv_Cstring
begin

text \<open>
  The remaining operations of \<^verbatim>\<open>src/src/http_request.c\<close>: what the headers of a request mean
  (\<^verbatim>\<open>zv_http_handle_header\<close> and its handlers), and giving up a request with everything it holds
  (\<^verbatim>\<open>zv_free_request_t\<close>, \<^verbatim>\<open>zv_http_close_conn\<close>). Both walk the list of headers and free each object, so a walk that
  would not end is \<^const>\<open>None\<close>.

  \<open>date\<close> stands for \<^verbatim>\<open>strptime\<close> followed by \<^verbatim>\<open>mktime\<close>: what time a text denotes depends on the locale and the time zone of
  the process. \<^verbatim>\<open>difftime\<close> of two times is near zero exactly when they are equal.

  The lemmas show that both walks end, free exactly the request's headers, and leave all other lists alone; and
  what a header does is stated in terms of the printed key and value.
\<close>

section \<open>Header handlers\<close>

type_synonym date_fun = "string \<Rightarrow> int option"

definition zv_init_out_t :: "int \<Rightarrow> zv_http_out \<Rightarrow> zv_http_out" where
  "zv_init_out_t fd o' = o'\<lparr>o_fd := fd, o_keep_alive := False, o_modified := True, o_status := 0\<rparr>"

definition zv_http_process_ignore :: "string \<Rightarrow> nat \<Rightarrow> zv_http_out \<Rightarrow> zv_http_out" where
  "zv_http_process_ignore data len o' = o'"

definition zv_http_process_connection :: "string \<Rightarrow> nat \<Rightarrow> zv_http_out \<Rightarrow> zv_http_out" where
  "zv_http_process_connection data len o' =
     (if strncasecmp_eq ''keep-alive'' data len then o'\<lparr>o_keep_alive := True\<rparr>
      else if strncasecmp_eq ''close'' data len then o'\<lparr>o_keep_alive := False\<rparr>
      else o')"

definition zv_http_process_if_modified_since :: "date_fun \<Rightarrow> string \<Rightarrow> nat \<Rightarrow> zv_http_out \<Rightarrow> zv_http_out" where
  "zv_http_process_if_modified_since date data len o' =
     (case date data of
        None \<Rightarrow> o'
      | Some client_time \<Rightarrow>
          if o_mtime o' = client_time then o'\<lparr>o_modified := False, o_status := ZV_HTTP_NOT_MODIFIED\<rparr> else o')"

definition zv_http_headers_in :: "date_fun \<Rightarrow> (string \<times> (string \<Rightarrow> nat \<Rightarrow> zv_http_out \<Rightarrow> zv_http_out)) list" where
  "zv_http_headers_in date =
     [(''Host'', zv_http_process_ignore), (''Connection'', zv_http_process_connection),
      (''If-Modified-Since'', zv_http_process_if_modified_since date), ('''', zv_http_process_ignore)]"

text \<open>The inner loop of \<^verbatim>\<open>zv_http_handle_header\<close>: the first entry that matches the key, up to the sentinel.\<close>

fun header_lookup ::
  "(string \<times> (string \<Rightarrow> nat \<Rightarrow> zv_http_out \<Rightarrow> zv_http_out)) list \<Rightarrow> string \<Rightarrow> nat \<Rightarrow> string \<Rightarrow> nat \<Rightarrow> zv_http_out \<Rightarrow> zv_http_out" where
  "header_lookup [] key klen data len o' = o'"
| "header_lookup ((name, handler) # es) key klen data len o' =
     (if length name = 0 then o'
      else if strncmp_eq key name klen then handler data len o'
      else header_lookup es key klen data len o')"

text \<open>A pointer into the buffer of the request as an offset.\<close>

definition ptr :: "nat option \<Rightarrow> nat" where
  "ptr p = (case p of None \<Rightarrow> 0 | Some i \<Rightarrow> i)"

definition header_effect :: "date_fun \<Rightarrow> string \<Rightarrow> zv_http_header \<Rightarrow> zv_http_out \<Rightarrow> zv_http_out" where
  "header_effect date buf hdr o' =
     header_lookup (zv_http_headers_in date)
       (drop (ptr (key_start hdr)) buf) (ptr (key_end hdr) - ptr (key_start hdr))
       (drop (ptr (value_start hdr)) buf) (ptr (value_end hdr) - ptr (value_start hdr)) o'"

definition default_keep_alive :: "'z zv_req_parse_scheme \<Rightarrow> bool" where
  "default_keep_alive r \<longleftrightarrow>
     sint (r_http_major r) > 1 \<or> sint (r_http_major r) = 1 \<and> sint (r_http_minor r) \<ge> 1"

partial_function (option) handle_header_loop ::
  "date_fun \<Rightarrow> addr \<Rightarrow> node \<Rightarrow> 'z req_mem_scheme \<times> zv_http_out \<Rightarrow> ('z req_mem_scheme \<times> zv_http_out) option" where
  "handle_header_loop date a pos x =
     (if pos = ReqList a then Some x
      else
        let (s, o') = x; next = nxt s pos; h = hdr_entry pos;
            o' = header_effect date (r_buf (req a s)) (the (hdrs s h)) o';
            s = zv_http_header_free h (list_del pos s)
        in handle_header_loop date a next (s, o'))"

definition zv_http_handle_header ::
  "date_fun \<Rightarrow> addr \<Rightarrow> 'z req_mem_scheme \<times> zv_http_out \<Rightarrow> ('z req_mem_scheme \<times> zv_http_out) option" where
  "zv_http_handle_header date a = (\<lambda>(s, o').
     handle_header_loop date a (nxt s (ReqList a)) (s, o'\<lparr>o_keep_alive := default_keep_alive (req a s)\<rparr>))"

section \<open>Giving up a request\<close>

partial_function (option) free_headers_loop :: "addr \<Rightarrow> node \<Rightarrow> 'z req_mem_scheme \<Rightarrow> 'z req_mem_scheme option" where
  "free_headers_loop a pos s =
     (if pos = ReqList a then Some s
      else let next = nxt s pos in free_headers_loop a next (zv_http_header_free (hdr_entry pos) (list_del pos s)))"

definition close_fd :: "int \<Rightarrow> kio \<Rightarrow> kio" where
  "close_fd fd k = (if fd \<ge> 0 then sys_close fd k else k)"

text \<open>The output and CGI part, on the request and the kernel.\<close>

definition free_resources :: "zv_http_request \<times> kio \<Rightarrow> zv_http_request \<times> kio" where
  "free_resources = (\<lambda>(r, k).
     let k = close_fd (r_out_file_fd r) k;
         r = r\<lparr>r_out_body := None, r_out_file_fd := (if r_out_file_fd r \<ge> 0 then -1 else r_out_file_fd r)\<rparr>;
         (r, k) =
           (if r_cgi_active r then
              (let k = (if r_cgi_pid r > 0 then sys_waitpid (r_cgi_pid r) (sys_kill (r_cgi_pid r) k) else k);
                   k = close_fd (r_cgi_out_fd r) (close_fd (r_cgi_in_fd r) k)
               in (r\<lparr>r_cgi_in_fd := (if r_cgi_in_fd r \<ge> 0 then -1 else r_cgi_in_fd r),
                     r_cgi_out_fd := (if r_cgi_out_fd r \<ge> 0 then -1 else r_cgi_out_fd r),
                     r_cgi_active := False, r_cgi_pid := -1\<rparr>, k))
            else (r, k));
         r = r\<lparr>r_cgi_out_item := map_option (\<lambda>it. it\<lparr>it_fd := -1\<rparr>) (r_cgi_out_item r),
               r_cgi_in_item := map_option (\<lambda>it. it\<lparr>it_fd := -1\<rparr>) (r_cgi_in_item r)\<rparr>
     in (r\<lparr>r_timer := NULL\<rparr>, k))"

definition on_req :: "addr \<Rightarrow> (zv_http_request \<times> kio \<Rightarrow> zv_http_request \<times> kio) \<Rightarrow> 'z req_mem_scheme \<Rightarrow> 'z req_mem_scheme" where
  "on_req a f s = (case f (req a s, io s) of (r, k) \<Rightarrow> set_req a r (s\<lparr>io := k\<rparr>))"

definition zv_free_request_t :: "addr \<Rightarrow> 'z req_mem_scheme \<Rightarrow> 'z req_mem_scheme option" where
  "zv_free_request_t a s =
     (case free_headers_loop a (nxt s (ReqList a)) s of
        None \<Rightarrow> None
      | Some s \<Rightarrow> Some (on_req a free_resources (INIT_LIST_HEAD (ReqList a) s)))"

definition zv_http_close_conn :: "addr \<Rightarrow> 'z cache_mem_scheme \<Rightarrow> 'z cache_mem_scheme option" where
  "zv_http_close_conn a s =
     (case zv_free_request_t a s of
        None \<Rightarrow> None
      | Some s \<Rightarrow>
          let s = s\<lparr>io := sys_close (r_fd (req a s)) (io s)\<rparr>;
              s = set_req a ((req a s)\<lparr>r_fd := -1\<rparr>) s
          in Some (zv_http_request_put_deferred a s))"

section \<open>The walk over the headers\<close>

text \<open>
  \<open>hlist a s xs hs\<close>: the cache holds the free header objects \<open>xs\<close>, the request at \<open>a\<close> the objects \<open>hs\<close>.
\<close>

definition hlist :: "addr \<Rightarrow> 'z header_mem_scheme \<Rightarrow> addr list \<Rightarrow> addr list \<Rightarrow> bool" where
  "hlist a s xs hs \<longleftrightarrow>
     hc_inv s xs \<and> wf_list s (ReqList a) (map HdrNode hs) \<and> set hs \<inter> set xs = {} \<and> set hs \<subseteq> dom (hdrs s)"

lemma hdrs_ok_hlist: "hdrs_ok a s hs \<longleftrightarrow> (\<exists>xs. hlist a s xs hs)"
  by (simp add: hdrs_ok_def hlist_def)

text \<open>What freeing headers of the request at \<open>a\<close> leaves alone.\<close>

definition hdr_frame :: "addr \<Rightarrow> addr set \<Rightarrow> 'z header_mem_scheme \<Rightarrow> 'z header_mem_scheme \<Rightarrow> bool" where
  "hdr_frame a H s s' \<longleftrightarrow>
     same_links (\<lambda>p. p \<notin> {FreeHeaders, ReqList a} \<union> HdrNode ` H) s s' \<and> (\<forall>h. h \<notin> H \<longrightarrow> hdrs s' h = hdrs s h) \<and>
     brk s' = brk s \<and> mallocs s' = mallocs s \<and> header_mem.more s' = header_mem.more s"

lemma hdr_frame_refl [simp]: "hdr_frame a H s s"
  by (simp add: hdr_frame_def)

lemma hdr_frame_trans: "hdr_frame a H s s' \<Longrightarrow> hdr_frame a H s' s'' \<Longrightarrow> hdr_frame a H s s''"
  by (auto simp: hdr_frame_def intro: same_links_trans)

lemma hdr_frame_mono: "hdr_frame a H s s' \<Longrightarrow> H \<subseteq> H' \<Longrightarrow> hdr_frame a H' s s'"
  by (auto simp: hdr_frame_def intro: same_links_mono)

lemma header_free_misc:
  "brk (zv_http_header_free h s) = brk s" "mallocs (zv_http_header_free h s) = mallocs s"
  "g \<noteq> h \<Longrightarrow> hdrs (zv_http_header_free h s) g = hdrs s g"
  "header_mem.more (zv_http_header_free h s) = header_mem.more s"
  by (simp_all add: zv_http_header_free_def Let_def)

lemma header_free_links:
  assumes "hc_inv s xs"
  shows "same_links (\<lambda>p. p \<notin> {FreeHeaders, HdrNode h} \<union> HdrNode ` set xs) s (zv_http_header_free h s)"
proof (cases "h = NULL")
  case False
  let ?P = "\<lambda>p. p \<notin> {FreeHeaders, HdrNode h} \<union> HdrNode ` set xs"
  have i: "same_links ?P s (hc_init_once s)" by (auto simp: same_links_def hc_init_once_def list_ops_defs)
  let ?s1 = "(hc_init_once s)\<lparr>hdrs := (hdrs s)(h \<mapsto> null_header)\<rparr>"
  have n: "nxt ?s1 FreeHeaders \<in> {FreeHeaders} \<union> HdrNode ` set xs"
    using assms wf_list_nxt_head [of ?s1 FreeHeaders "map HdrNode xs"] by (cases xs) (auto simp: hc_inv_def)
  have "same_links ?P ?s1 (list_add (HdrNode h) FreeHeaders (INIT_LIST_HEAD (HdrNode h) ?s1))"
    using n by (auto simp: same_links_def list_ops_defs)
  with i False show ?thesis by (auto simp: same_links_def zv_http_header_free_def Let_def)
qed (simp add: zv_http_header_free_def)

lemma hc_inv_same_links:
  assumes "hc_inv s xs" and "hc_inited s' = hc_inited s"
    and "same_links (\<lambda>p. p \<in> insert FreeHeaders (HdrNode ` set xs)) s s'" and "hc_free_count s' = hc_free_count s"
    and "dom (hdrs s') = dom (hdrs s)" and "brk s' = brk s"
  shows "hc_inv s' xs"
proof -
  have "same_links (\<lambda>p. p \<in> insert FreeHeaders (HdrNode ` set xs)) (hc_init_once s) (hc_init_once s')"
    using assms(2,3) by (auto simp: same_links_def hc_init_once_def list_ops_defs)
  then have "wf_list (hc_init_once s') FreeHeaders (map HdrNode xs)"
    using assms(1) by (elim same_links_wf) (auto simp: hc_inv_def)
  moreover have "hc_free_count (hc_init_once s') = hc_free_count (hc_init_once s)"
    using assms by (simp add: hc_init_once_def)
  ultimately show ?thesis using assms(1,5,6) by (simp add: hc_inv_def)
qed

text \<open>One round of the walk.\<close>

lemma hlist_step:
  assumes "hlist a s xs (h # hs)"
  shows "nxt s (ReqList a) = HdrNode h"
    and "nxt s (HdrNode h) = (if hs = [] then ReqList a else HdrNode (hd hs))"
    and "\<exists>xs'. hlist a (zv_http_header_free h (list_del (HdrNode h) s)) xs' hs \<and>
           dom (hdrs (zv_http_header_free h (list_del (HdrNode h) s))) \<inter> insert h (set xs) = set xs'"
    and "hdr_frame a (insert h (set hs \<union> set xs)) s (zv_http_header_free h (list_del (HdrNode h) s))"
    and "g \<noteq> h \<Longrightarrow> hdrs (zv_http_header_free h (list_del (HdrNode h) s)) g = hdrs s g"
proof -
  let ?l = "ReqList a" and ?n = "HdrNode h" and ?ns = "map HdrNode hs"
  from assms have hc: "hc_inv s xs" and wf: "wf_list s ?l (?n # ?ns)" and dis: "set (h # hs) \<inter> set xs = {}"
    and d: "set (h # hs) \<subseteq> dom (hdrs s)"
    by (simp_all add: hlist_def)
  define s1 where "s1 = list_del ?n s"
  define s2 where "s2 = zv_http_header_free h s1"
  show "nxt s ?l = ?n" using fl.first_hd [OF wf] .
  show "nxt s ?n = (if hs = [] then ?l else HdrNode (hd hs))" using wf by (cases hs) (auto simp: wf_list_def)
  have wf1: "wf_list s1 ?l ?ns" unfolding s1_def using fl.unlink_hd [OF wf] .
  have l1: "same_links (\<lambda>p. p \<notin> set (?l # ?n # ?ns)) s s1"
    unfolding s1_def by (rule same_links_del_hd [OF wf]) auto
  have f1: "hdrs s1 = hdrs s" "brk s1 = brk s" "hc_free_count s1 = hc_free_count s" "hc_inited s1 = hc_inited s"
    by (simp_all add: s1_def)
  have hc1: "hc_inv s1 xs"
    using dis by (intro hc_inv_same_links [OF hc f1(4) _ f1(3)] same_links_mono [OF l1]) (auto simp: f1)
  have h: "h \<notin> set xs" "h \<in> dom (hdrs s1)" "h \<noteq> NULL" using dis d hc by (auto simp: f1 hc_inv_def)
  have l2: "same_links (\<lambda>p. p \<notin> {FreeHeaders, ?n} \<union> HdrNode ` set xs) s1 s2"
    unfolding s2_def by (rule header_free_links [OF hc1])
  have hn: "h \<notin> set hs" using fl.first_not_in_rest [OF wf] by auto
  have wf2: "wf_list s2 ?l ?ns" using wf1 dis hn by (intro same_links_wf [OF l2]) auto
  have hd2: "hdrs s2 g = hdrs s g" if "g \<noteq> h" for g using that by (simp add: s2_def header_free_misc f1)
  have d2: "set hs \<subseteq> dom (hdrs s2)"
  proof
    fix x assume "x \<in> set hs"
    with hn d have "x \<noteq> h" "x \<in> dom (hdrs s)" by auto
    with hd2 [of x] have "hdrs s2 x = hdrs s x" "x \<in> dom (hdrs s)" by auto
    then show "x \<in> dom (hdrs s2)" by (simp add: dom_def)
  qed
  have xs: "set xs \<subseteq> dom (hdrs s1)" using hc1 by (simp add: hc_inv_def)
  have "\<exists>xs'. hc_inv s2 xs' \<and> dom (hdrs s2) \<inter> insert h (set xs) = set xs'"
  proof (cases "length xs < ZV_HEADER_FREELIST_MAX")
    case True
    from zv_http_header_free_room(1,2) [OF hc1 h(1,2) True] xs show ?thesis unfolding s2_def by (intro exI [of _ "h # xs"]) auto
  next
    case False
    with hc1 have "length xs = ZV_HEADER_FREELIST_MAX" by (simp add: hc_inv_def)
    from zv_http_header_free_full(1,2) [OF hc1 h(1,3) this] h(1) xs show ?thesis unfolding s2_def by (intro exI [of _ xs]) auto
  qed
  then obtain xs' where xs': "hc_inv s2 xs'" "dom (hdrs s2) \<inter> insert h (set xs) = set xs'" by blast
  then have "hlist a s2 xs' hs" using wf2 d2 dis hn by (auto simp: hlist_def)
  with xs'(2) show "\<exists>xs'. hlist a (zv_http_header_free h (list_del ?n s)) xs' hs \<and>
      dom (hdrs (zv_http_header_free h (list_del ?n s))) \<inter> insert h (set xs) = set xs'"
    unfolding s2_def s1_def by blast
  show "g \<noteq> h \<Longrightarrow> hdrs (zv_http_header_free h (list_del ?n s)) g = hdrs s g" for g
    using hd2 unfolding s2_def s1_def .
  have "same_links (\<lambda>p. p \<notin> {FreeHeaders, ?l} \<union> HdrNode ` insert h (set hs \<union> set xs)) s s2"
    by (rule same_links_trans [OF same_links_mono [OF l1] same_links_mono [OF l2]]) auto
  then have "hdr_frame a (insert h (set hs \<union> set xs)) s s2"
    using hd2 by (auto simp: hdr_frame_def s2_def header_free_misc) (simp_all add: s1_def)
  then show "hdr_frame a (insert h (set hs \<union> set xs)) s (zv_http_header_free h (list_del ?n s))"
    unfolding s2_def s1_def .
qed


lemma hdr_frame_reqs:
  fixes s s' :: "'z req_mem_scheme"
  assumes "hdr_frame a H s s'"
  shows "reqs s' = reqs s \<and> io s' = io s \<and> req_mem.more s' = req_mem.more s"
proof -
  have "header_mem.more s' = header_mem.more s" using assms by (simp add: hdr_frame_def)
  then show ?thesis by (cases s; cases s') simp
qed

text \<open>The common part of the two loops.\<close>

lemma hlist_free_dom: "hlist a s xs hs \<Longrightarrow> \<exists>xs'. hlist a s xs' hs \<and> dom (hdrs s) \<inter> set xs = set xs'"
  by (intro exI [of _ xs]) (auto simp: hlist_def hc_inv_def)

lemma free_list_step:
  assumes "hlist a s xs (h # hs)" and "hlist a s1 xs1 hs" and "dom (hdrs s1) \<inter> insert h (set xs) = set xs1"
    and "dom (hdrs s') \<inter> (set hs \<union> set xs1) = set xs'" and "hdr_frame a (set hs \<union> set xs1) s1 s'"
  shows "dom (hdrs s') \<inter> (set (h # hs) \<union> set xs) = set xs'"
proof -
  have dis: "set hs \<inter> insert h (set xs) = {}" using assms(1) by (auto simp: hlist_def wf_list_def)
  have new: "g \<in> set xs1" if "g \<in> dom (hdrs s')" "g \<in> insert h (set xs)" for g
  proof (rule ccontr)
    assume g: "g \<notin> set xs1"
    with dis that(2) have "hdrs s' g = hdrs s1 g" using assms(5) by (auto simp: hdr_frame_def)
    with that(1) have "g \<in> dom (hdrs s1)" by (simp add: dom_def)
    with that(2) assms(3) g show False by blast
  qed
  have "dom (hdrs s') \<inter> (set (h # hs) \<union> set xs) = dom (hdrs s') \<inter> (set hs \<union> set xs1)"
    using new assms(3) by (intro set_eqI) (metis Int_iff Un_iff insert_iff list.set(2))
  with assms(4) show ?thesis by simp
qed

lemma free_headers_loop_spec:
  "hlist a s xs hs \<Longrightarrow>
   \<exists>s' xs'. free_headers_loop a (if hs = [] then ReqList a else HdrNode (hd hs)) s = Some s' \<and> hlist a s' xs' [] \<and>
     dom (hdrs s') \<inter> (set hs \<union> set xs) = set xs' \<and> hdr_frame a (set hs \<union> set xs) s s'"
proof (induction hs arbitrary: s xs)
  case Nil
  then show ?case by (auto simp: free_headers_loop.simps hlist_free_dom)
next
  case (Cons h hs)
  let ?s = "zv_http_header_free h (list_del (HdrNode h) s)"
  obtain xs1 where xs1: "hlist a ?s xs1 hs" "dom (hdrs ?s) \<inter> insert h (set xs) = set xs1" using hlist_step(3) [OF Cons.prems] by blast
  from Cons.IH [OF this(1)] obtain s' xs' where ih:
    "free_headers_loop a (if hs = [] then ReqList a else HdrNode (hd hs)) ?s = Some s'" "hlist a s' xs' []"
    "dom (hdrs s') \<inter> (set hs \<union> set xs1) = set xs'" "hdr_frame a (set hs \<union> set xs1) ?s s'" by blast
  have "free_headers_loop a (HdrNode h) s = Some s'"
    using ih(1) hlist_step(2) [OF Cons.prems] by (subst free_headers_loop.simps) (simp add: hdr_entry_def Let_def)
  moreover have "hdr_frame a (set (h # hs) \<union> set xs) s s'"
  proof (rule hdr_frame_trans)
    show "hdr_frame a (set (h # hs) \<union> set xs) s ?s" by (rule hdr_frame_mono [OF hlist_step(4) [OF Cons.prems]]) auto
    show "hdr_frame a (set (h # hs) \<union> set xs) ?s s'" by (rule hdr_frame_mono [OF ih(4)]) (use xs1(2) in auto)
  qed
  moreover have "dom (hdrs s') \<inter> (set (h # hs) \<union> set xs) = set xs'"
    by (rule free_list_step [OF Cons.prems xs1 ih(3,4)])
  ultimately show ?case using ih(2) by (intro exI [of _ s'] exI [of _ xs']) simp
qed

lemma handle_header_loop_spec:
  "hlist a s xs hs \<Longrightarrow>
   \<exists>s' xs'. handle_header_loop date a (if hs = [] then ReqList a else HdrNode (hd hs)) (s, o') =
       Some (s', fold (\<lambda>h. header_effect date (r_buf (req a s)) (the (hdrs s h))) hs o') \<and>
     hlist a s' xs' [] \<and> dom (hdrs s') \<inter> (set hs \<union> set xs) = set xs' \<and> hdr_frame a (set hs \<union> set xs) s s'"
proof (induction hs arbitrary: s xs o')
  case Nil
  then show ?case by (auto simp: handle_header_loop.simps hlist_free_dom)
next
  case (Cons h hs)
  let ?s = "zv_http_header_free h (list_del (HdrNode h) s)"
  let ?o = "header_effect date (r_buf (req a s)) (the (hdrs s h)) o'"
  obtain xs1 where xs1: "hlist a ?s xs1 hs" "dom (hdrs ?s) \<inter> insert h (set xs) = set xs1" using hlist_step(3) [OF Cons.prems] by blast
  have same: "req a ?s = req a s" using hdr_frame_reqs [OF hlist_step(4) [OF Cons.prems]] by (simp add: req_def)
  have "h \<notin> set hs" using Cons.prems by (auto simp: hlist_def wf_list_def)
  then have old: "hdrs ?s g = hdrs s g" if "g \<in> set hs" for g using that hlist_step(5) [OF Cons.prems, of g] by metis
  have eff: "fold (\<lambda>h. header_effect date (r_buf (req a ?s)) (the (hdrs ?s h))) hs ?o =
      fold (\<lambda>h. header_effect date (r_buf (req a s)) (the (hdrs s h))) hs ?o"
    unfolding same by (intro fold_cong) (auto simp: old)
  from Cons.IH [OF xs1(1), of ?o] eff obtain s' xs' where ih:
    "handle_header_loop date a (if hs = [] then ReqList a else HdrNode (hd hs)) (?s, ?o) =
       Some (s', fold (\<lambda>h. header_effect date (r_buf (req a s)) (the (hdrs s h))) hs ?o)" "hlist a s' xs' []"
    "dom (hdrs s') \<inter> (set hs \<union> set xs1) = set xs'" "hdr_frame a (set hs \<union> set xs1) ?s s'" by auto
  have "handle_header_loop date a (HdrNode h) (s, o') =
      Some (s', fold (\<lambda>h. header_effect date (r_buf (req a s)) (the (hdrs s h))) (h # hs) o')"
    using ih(1) hlist_step(2) [OF Cons.prems] by (subst handle_header_loop.simps) (simp add: hdr_entry_def Let_def)
  moreover have "hdr_frame a (set (h # hs) \<union> set xs) s s'"
  proof (rule hdr_frame_trans)
    show "hdr_frame a (set (h # hs) \<union> set xs) s ?s" by (rule hdr_frame_mono [OF hlist_step(4) [OF Cons.prems]]) auto
    show "hdr_frame a (set (h # hs) \<union> set xs) ?s s'" by (rule hdr_frame_mono [OF ih(4)]) (use xs1(2) in auto)
  qed
  moreover have "dom (hdrs s') \<inter> (set (h # hs) \<union> set xs) = set xs'"
    by (rule free_list_step [OF Cons.prems xs1 ih(3,4)])
  ultimately show ?case using ih(2) by (intro exI [of _ s'] exI [of _ xs']) simp
qed

lemma hlist_first: "hlist a s xs hs \<Longrightarrow> nxt s (ReqList a) = (if hs = [] then ReqList a else HdrNode (hd hs))"
  using wf_list_nxt_head [of s "ReqList a" "map HdrNode hs"] by (simp add: hlist_def hd_map)

lemma zv_http_handle_header_spec:
  assumes "hlist a s xs hs"
  obtains s' xs' where
    "zv_http_handle_header date a (s, o') =
       Some (s', fold (\<lambda>h. header_effect date (r_buf (req a s)) (the (hdrs s h))) hs (o'\<lparr>o_keep_alive := default_keep_alive (req a s)\<rparr>))"
    and "hlist a s' xs' []" and "dom (hdrs s') \<inter> (set hs \<union> set xs) = set xs'" and "hdr_frame a (set hs \<union> set xs) s s'"
  using handle_header_loop_spec [OF assms, of date "o'\<lparr>o_keep_alive := default_keep_alive (req a s)\<rparr>"] hlist_first [OF assms]
  by (auto simp: zv_http_handle_header_def)


section \<open>The memory of a worker\<close>

text \<open>
  The invariant of a worker's memory: \<open>own\<close> are the requests in use, \<open>L a\<close> the headers of the request at \<open>a\<close>, \<open>xs\<close>, \<open>fs\<close>
  and \<open>ds\<close> the free headers, free requests and deferred requests. No object has two roles.
\<close>

definition mem_inv ::
  "'z cache_mem_scheme \<Rightarrow> addr set \<Rightarrow> addr list \<Rightarrow> addr list \<Rightarrow> addr list \<Rightarrow> (addr \<Rightarrow> addr list) \<Rightarrow> bool" where
  "mem_inv s own xs fs ds L \<longleftrightarrow>
     hc_inv s xs \<and> rc_accounted s own fs ds \<and>
     (\<forall>a \<in> own. wf_list s (ReqList a) (map HdrNode (L a)) \<and> set (L a) \<inter> set xs = {}) \<and>
     (\<forall>a \<in> own. \<forall>b \<in> own. a \<noteq> b \<longrightarrow> set (L a) \<inter> set (L b) = {}) \<and>
     dom (hdrs s) = set xs \<union> (\<Union>a \<in> own. set (L a))"

lemma mem_inv_hlist: "mem_inv s own xs fs ds L \<Longrightarrow> a \<in> own \<Longrightarrow> hlist a s xs (L a)"
  by (auto simp: mem_inv_def hlist_def)

lemma mem_inv_own: "mem_inv s own xs fs ds L \<Longrightarrow> a \<in> own \<Longrightarrow> a \<in> dom (reqs s) \<and> a \<notin> set fs \<and> a \<notin> set ds \<and> a \<noteq> NULL"
proof -
  assume "mem_inv s own xs fs ds L" and "a \<in> own"
  then have "rc_inv s fs ds" "a \<in> dom (reqs s)" "a \<notin> set fs" "a \<notin> set ds" by (auto simp: mem_inv_def rc_accounted_def)
  with rc_inv_nonnull [of s fs ds a] show ?thesis by simp
qed

text \<open>The request part of the invariant only depends on the links of the request nodes.\<close>

lemma rc_inv_same_links:
  assumes "rc_inv s fs ds" and "same_links rc_node s s'" and "rc_inited s' = rc_inited s"
    and "rc_free_count s' = rc_free_count s" and "dom (reqs s') = dom (reqs s)" and "brk s \<le> brk s'"
  shows "rc_inv s' fs ds"
proof -
  have l: "same_links rc_node (rc_init_once s) (rc_init_once s')"
    using assms(2,3) by (auto simp: same_links_def rc_init_once_def list_ops_defs)
  have "wf_list (rc_init_once s') FreeRequests (map ReqFree fs)" "wf_list (rc_init_once s') DeferredRequests (map ReqFree ds)"
    using assms(1) by (auto intro!: same_links_wf [OF l] simp: rc_inv_def)
  moreover have "rc_free_count (rc_init_once s') = rc_free_count (rc_init_once s)"
    using assms(3,4) by (simp add: rc_init_once_def)
  moreover have "\<forall>a \<in> dom (reqs s'). 1 \<le> a \<and> a < brk s'" "1 \<le> brk s'"
    using assms(1,5,6) below_mono [of "dom (reqs s)" "brk s" "brk s'"] by (simp_all add: rc_inv_def)
  ultimately show ?thesis using assms(1,5) by (simp add: rc_inv_def)
qed

text \<open>Freeing headers of one request.\<close>

lemma mem_inv_hdr_frame:
  assumes "mem_inv s own xs fs ds L" and "a \<in> own" and "hdr_frame a (set (L a) \<union> set xs) s s'"
    and "hlist a s' xs' []" and "dom (hdrs s') \<inter> (set (L a) \<union> set xs) = set xs'"
  shows "mem_inv s' own xs' fs ds (L(a := []))"
proof -
  let ?P = "\<lambda>p. p \<notin> {FreeHeaders, ReqList a} \<union> HdrNode ` (set (L a) \<union> set xs)"
  from assms(3) have l: "same_links ?P s s'" and h: "\<And>h. h \<notin> set (L a) \<union> set xs \<Longrightarrow> hdrs s' h = hdrs s h" and b: "brk s' = brk s"
    by (simp_all add: hdr_frame_def)
  have more: "reqs s' = reqs s" "req_mem.more s' = req_mem.more s" using hdr_frame_reqs [OF assms(3)] by simp_all
  then have rc: "rc_inited s' = rc_inited s" "rc_free_count s' = rc_free_count s" by (cases s; cases s'; simp)+
  have "rc_inv s' fs ds"
    using assms(1) by (intro rc_inv_same_links [OF _ same_links_mono [OF l] rc]) (auto simp: mem_inv_def rc_accounted_def more b)
  moreover have others: "wf_list s' (ReqList c) (map HdrNode (L c)) \<and> set (L c) \<inter> (set (L a) \<union> set xs) = {}" if c: "c \<in> own" "c \<noteq> a" for c
  proof -
    have "set (L c) \<inter> set (L a) = {}" using assms(1,2) c by (simp add: mem_inv_def)
    then have d: "set (L c) \<inter> (set (L a) \<union> set xs) = {}" "wf_list s (ReqList c) (map HdrNode (L c))"
      using assms(1) c by (simp_all add: mem_inv_def Int_Un_distrib)
    then have "wf_list s' (ReqList c) (map HdrNode (L c))" using c(2) by (intro same_links_wf [OF l]) auto
    with d show ?thesis by simp
  qed
  moreover have "dom (hdrs s') = set xs' \<union> (\<Union>c \<in> own - {a}. set (L c))"
  proof (intro set_eqI iffI)
    fix g assume g: "g \<in> dom (hdrs s')"
    show "g \<in> set xs' \<union> (\<Union>c \<in> own - {a}. set (L c))"
    proof (cases "g \<in> set (L a) \<union> set xs")
      case True
      with g assms(5) show ?thesis by auto
    next
      case False
      with h [of g] g have "g \<in> dom (hdrs s)" by (auto simp: dom_def)
      with False assms(1) show ?thesis by (auto simp: mem_inv_def)
    qed
  next
    fix g assume "g \<in> set xs' \<union> (\<Union>c \<in> own - {a}. set (L c))"
    then consider "g \<in> set xs'" | c where "c \<in> own" "c \<noteq> a" "g \<in> set (L c)" by auto
    then show "g \<in> dom (hdrs s')"
    proof cases
      case (2 c)
      then have "hdrs s' g = hdrs s g" using others [of c] h [of g] by auto
      moreover have "g \<in> dom (hdrs s)" using 2 assms(1) by (auto simp: mem_inv_def)
      ultimately show ?thesis by (simp add: dom_def)
    qed (use assms(5) in auto)
  qed
  moreover have "set (L c) \<inter> set xs' = {}" if "c \<in> own" "c \<noteq> a" for c using others [OF that] assms(5) by auto
  moreover have "(\<Union>c \<in> own - {a}. set (L c)) = (\<Union>c \<in> own. set ((L(a := [])) c))" by (auto split: if_splits)
  ultimately show ?thesis using assms(1,4) by (simp add: mem_inv_def rc_accounted_def hlist_def more)
qed

text \<open>Changes to request objects and to the kernel do not matter.\<close>

lemma mem_inv_cong:
  assumes "mem_inv s own xs fs ds L" and "nxt s' = nxt s" and "prv s' = prv s" and "dom (reqs s') = dom (reqs s)"
    and "hdrs s' = hdrs s" and "hc_free_count s' = hc_free_count s" and "hc_inited s' = hc_inited s"
    and "rc_free_count s' = rc_free_count s" and "rc_inited s' = rc_inited s" and "brk s \<le> brk s'"
  shows "mem_inv s' own xs fs ds L"
proof -
  have l: "same_links P s s'" for P using assms(2,3) by (simp add: same_links_def)
  have "hc_inv s xs" "rc_inv s fs ds" using assms(1) by (simp_all add: mem_inv_def rc_accounted_def)
  have "wf_list (hc_init_once s') FreeHeaders (map HdrNode xs) \<longleftrightarrow> wf_list (hc_init_once s) FreeHeaders (map HdrNode xs)"
    using assms(2,3,7) by (intro wf_list_same) (simp_all add: hc_init_once_def list_ops_defs)
  moreover have "\<forall>a \<in> dom (hdrs s'). 1 \<le> a \<and> a < brk s'"
    using \<open>hc_inv s xs\<close> below_mono [of "dom (hdrs s)" "brk s" "brk s'"] assms(5,10) by (simp add: hc_inv_def)
  moreover have "hc_free_count (hc_init_once s') = hc_free_count (hc_init_once s)" using assms(6,7) by (simp add: hc_init_once_def)
  ultimately have "hc_inv s' xs" using \<open>hc_inv s xs\<close> assms(5,10) by (simp add: hc_inv_def)
  moreover have "rc_inv s' fs ds" by (rule rc_inv_same_links [OF \<open>rc_inv s fs ds\<close> l assms(9,8,4,10)])
  ultimately show ?thesis
    using assms(1,4,5) wf_list_same [OF assms(2,3)] by (simp add: mem_inv_def rc_accounted_def)
qed

lemma mem_inv_set_req: "mem_inv s own xs fs ds L \<Longrightarrow> a \<in> own \<Longrightarrow> mem_inv (set_req a r s) own xs fs ds L"
  by (frule (1) mem_inv_own, erule mem_inv_cong) (simp_all add: insert_absorb)

lemma mem_inv_io: "mem_inv s own xs fs ds L \<Longrightarrow> mem_inv (s\<lparr>io := k\<rparr>) own xs fs ds L"
  by (erule mem_inv_cong) auto

lemma on_req_eq: "on_req a f s = set_req a (fst (f (req a s, io s))) (s\<lparr>io := snd (f (req a s, io s))\<rparr>)"
  by (simp add: on_req_def split: prod.split)

lemma mem_inv_on_req: "mem_inv s own xs fs ds L \<Longrightarrow> a \<in> own \<Longrightarrow> mem_inv (on_req a f s) own xs fs ds L"
  unfolding on_req_eq by (intro mem_inv_set_req mem_inv_io)

text \<open>Handling the headers of a request.\<close>

lemma mem_inv_handle_header:
  assumes "mem_inv s own xs fs ds L" and "a \<in> own"
  obtains s' xs' where
    "zv_http_handle_header date a (s, o') = Some (s', fold (\<lambda>h. header_effect date (r_buf (req a s)) (the (hdrs s h))) (L a)
       (o'\<lparr>o_keep_alive := default_keep_alive (req a s)\<rparr>))"
    and "mem_inv s' own xs' fs ds (L(a := []))" and "reqs s' = reqs s" and "io s' = io s" and "req_mem.more s' = req_mem.more s"
    and "brk s' = brk s" and "mallocs s' = mallocs s"
proof -
  from mem_inv_hlist [OF assms] obtain s' xs' where s':
    "zv_http_handle_header date a (s, o') = Some (s', fold (\<lambda>h. header_effect date (r_buf (req a s)) (the (hdrs s h))) (L a)
       (o'\<lparr>o_keep_alive := default_keep_alive (req a s)\<rparr>))"
    "hlist a s' xs' []" "dom (hdrs s') \<inter> (set (L a) \<union> set xs) = set xs'" "hdr_frame a (set (L a) \<union> set xs) s s'"
    by (rule zv_http_handle_header_spec)
  from mem_inv_hdr_frame [OF assms s'(4,2,3)] show thesis
    using hdr_frame_reqs [OF s'(4)] s'(4) by (intro that [OF s'(1)]) (simp_all add: hdr_frame_def)
qed

lemma INIT_LIST_HEAD_empty: "wf_list s l [] \<Longrightarrow> INIT_LIST_HEAD l s = s"
  by (cases s) (simp add: wf_list_def list_ops_defs fun_upd_idem)

lemma rc_frame_header_list:
  "rc_frame A s s' \<Longrightarrow> c \<notin> A \<Longrightarrow> wf_list s (ReqList c) (map HdrNode ys) \<Longrightarrow> wf_list s' (ReqList c) (map HdrNode ys)"
  unfolding rc_frame_def by (erule conjE, erule same_links_wf) auto

lemma mem_inv_put_deferred:
  assumes "mem_inv s own xs fs ds L" and "a \<in> own" and "L a = []"
  shows "mem_inv (zv_http_request_put_deferred a s) (own - {a}) xs fs (a # ds) L"
    and "reqs (zv_http_request_put_deferred a s) = reqs s" and "rc_frame A s (zv_http_request_put_deferred a s)"
proof -
  from assms(1) have acc: "rc_accounted s own fs ds" and inv: "rc_inv s fs ds" by (simp_all add: mem_inv_def rc_accounted_def)
  note own = mem_inv_own [OF assms(1,2)]
  note put = zv_http_request_put_deferred_spec [OF inv] 
  show "reqs (zv_http_request_put_deferred a s) = reqs s" and fr: "rc_frame A s (zv_http_request_put_deferred a s)" for A
    using put own by simp_all
  have "dom (hdrs s) = set xs \<union> (\<Union>c \<in> own - {a}. set (L c))" using assms by (auto simp: mem_inv_def)
  then show "mem_inv (zv_http_request_put_deferred a s) (own - {a}) xs fs (a # ds) L"
    using assms(1) rc_accounted_defer [OF acc assms(2)] rc_frame_hc_inv [OF fr [of "{}"]] rc_frame_header_list [OF fr [of "{}"]] fr [of "{}"]
    by (auto simp: mem_inv_def rc_frame_def)
qed

text \<open>Closing a connection.\<close>

definition closed_request :: "zv_http_request \<Rightarrow> kio \<Rightarrow> zv_http_request" where
  "closed_request r k = (fst (free_resources (r, k)))\<lparr>r_fd := -1\<rparr>"

definition closed_io :: "zv_http_request \<Rightarrow> kio \<Rightarrow> kio" where
  "closed_io r k = sys_close (r_fd r) (snd (free_resources (r, k)))"

lemma free_resources_fd [simp]: "r_fd (fst (free_resources (r, k))) = r_fd r"
  by (simp add: free_resources_def Let_def)

lemma free_resources_io:
  "snd (free_resources (r, k)) =
     (let k = close_fd (r_out_file_fd r) k
      in if r_cgi_active r then
           close_fd (r_cgi_out_fd r) (close_fd (r_cgi_in_fd r)
             (if r_cgi_pid r > 0 then sys_waitpid (r_cgi_pid r) (sys_kill (r_cgi_pid r) k) else k))
         else k)"
  by (simp add: free_resources_def Let_def)

definition shut :: "int \<Rightarrow> kio \<Rightarrow> bool" where
  "shut fd k \<longleftrightarrow> fd \<notin> set (k_fds k) \<and> k_epoll k fd = None"

lemma shut_ops [simp]:
  "shut fd (sys_close fd k)" "shut fd k \<Longrightarrow> shut fd (sys_close g k)" "fd \<ge> 0 \<Longrightarrow> shut fd (close_fd fd k)"
  "shut fd k \<Longrightarrow> shut fd (close_fd g k)" "shut fd (sys_kill p k) = shut fd k" "shut fd (sys_waitpid p k) = shut fd k"
  by (auto simp: shut_def sys_close_def close_fd_def sys_kill_def sys_waitpid_def)

lemma close_fd_fields [simp]:
  "k_killed (close_fd fd k) = k_killed k" "k_sent (close_fd fd k) = k_sent k" "k_killed (sys_close fd k) = k_killed k"
  "k_sent (sys_close fd k) = k_sent k"
  by (simp_all add: close_fd_def sys_close_def)

lemma mem_inv_close_conn:
  assumes "mem_inv s own xs fs ds L" and "a \<in> own"
  obtains s' xs' where "zv_http_close_conn a s = Some s'" and "mem_inv s' (own - {a}) xs' fs (a # ds) L"
    and "reqs s' = (reqs s)(a \<mapsto> closed_request (req a s) (io s))" and "io s' = closed_io (req a s) (io s)"
    and "cache_mem.more s' = cache_mem.more s" and "brk s' = brk s" and "mallocs s' = mallocs s"
proof -
  obtain s1 xs' where s1: "free_headers_loop a (nxt s (ReqList a)) s = Some s1" "hlist a s1 xs' []" "dom (hdrs s1) \<inter> (set (L a) \<union> set xs) = set xs'"
    "hdr_frame a (set (L a) \<union> set xs) s s1"
    using free_headers_loop_spec [OF mem_inv_hlist [OF assms]] hlist_first [OF mem_inv_hlist [OF assms]] by auto
  note inv1 = mem_inv_hdr_frame [OF assms s1(4,2,3)]
  have f1: "reqs s1 = reqs s" "io s1 = io s" "req_mem.more s1 = req_mem.more s" "brk s1 = brk s" "mallocs s1 = mallocs s"
    using hdr_frame_reqs [OF s1(4)] s1(4) by (simp_all add: hdr_frame_def)
  let ?r = "req a s" and ?k = "io s"
  define s2 where "s2 = INIT_LIST_HEAD (ReqList a) s1"
  define s3 where "s3 = set_req a (closed_request ?r ?k) (s2\<lparr>io := closed_io ?r ?k\<rparr>)"
  have inv2: "mem_inv s2 own xs' fs ds (L(a := []))"
    using inv1 INIT_LIST_HEAD_empty [of s1 "ReqList a"] s1(2) by (simp add: s2_def hlist_def)
  have inv3: "mem_inv s3 own xs' fs ds (L(a := []))"
    unfolding s3_def by (intro mem_inv_set_req mem_inv_io inv2 assms(2))
  have "zv_http_close_conn a s = Some (zv_http_request_put_deferred a s3)"
    using s1(1) f1 by (simp add: zv_http_close_conn_def zv_free_request_t_def Let_def on_req_eq s2_def s3_def closed_request_def
        closed_io_def req_def set_req_def)
  moreover have La: "(L(a := [])) a = []" by simp
  note put = mem_inv_put_deferred [OF inv3 assms(2) La]
  have "mem_inv (zv_http_request_put_deferred a s3) (own - {a}) xs' fs (a # ds) L"
    using put(1) by (simp add: mem_inv_def)
  moreover have "reqs s3 = (reqs s)(a \<mapsto> closed_request ?r ?k)" "io s3 = closed_io ?r ?k" "brk s3 = brk s" "mallocs s3 = mallocs s"
    "req_mem.more s3 = req_mem.more s"
    using f1 by (simp_all add: s3_def s2_def)
  moreover have "brk (zv_http_request_put_deferred a s3) = brk s3" "mallocs (zv_http_request_put_deferred a s3) = mallocs s3"
    by (simp_all add: zv_http_request_put_deferred_def Let_def)
  moreover have "cache_mem.more s3 = cache_mem.more s" using \<open>req_mem.more s3 = req_mem.more s\<close> by (cases s3; cases s) simp
  ultimately show thesis
    using that [of "zv_http_request_put_deferred a s3" xs'] put(2) put(3) [of "{}"] by (simp add: rc_frame_def)
qed


text \<open>Storing a header line, and with it the header parser.\<close>

lemma header_alloc_exact:
  assumes "hc_inv s xs" and "zv_http_header_alloc s = (h, s1)"
  obtains xs' where "hc_inv s1 xs'" and "header_mem.more s1 = header_mem.more s" and "brk s \<le> brk s1"
    and "h = NULL \<and> hdrs s1 = hdrs s \<and> set xs' = set xs \<or>
         h \<noteq> NULL \<and> (h \<in> set xs \<or> h \<notin> dom (hdrs s)) \<and> hdrs s1 = (hdrs s)(h \<mapsto> null_header) \<and> set xs' = set xs - {h}"
proof (cases xs)
  case Nil
  with zv_http_header_alloc_miss [of s h s1] assms
  have m: "hc_inv s1 []" "header_mem.more s1 = header_mem.more s" "h = NULL \<and> hdrs s1 = hdrs s \<or>
      h = brk s \<and> brk s1 = Suc (brk s) \<and> hdrs s1 = (hdrs s)(h \<mapsto> null_header)" by auto
  have b: "brk s \<noteq> NULL" "brk s \<notin> dom (hdrs s)" using assms(1) by (auto simp: hc_inv_def)
  have "brk s \<le> brk s1"
    using assms(2) by (auto simp: zv_http_header_alloc_def hc_take_def Let_def malloc_def split: prod.splits if_splits list.splits bool.splits)
  with m b Nil show thesis by (intro that [of "[]"]) auto
next
  case (Cons x ys)
  with zv_http_header_alloc_hit [of s x ys] assms have m: "h = x" "hc_inv s1 ys" "hdrs s1 = (hdrs s)(x \<mapsto> null_header)"
    "header_mem.more s1 = header_mem.more s" "brk s1 = brk s"
    by auto
  have "x \<noteq> NULL" "distinct xs" using hc.inv_free [OF assms(1)] Cons by (auto intro: gr0I)
  with m Cons show thesis by (intro that [of ys]) auto
qed

lemma header_alloc_links:
  assumes "hc_inv s xs" and "zv_http_header_alloc s = (h, s1)"
  shows "same_links (\<lambda>p. p \<notin> {FreeHeaders, HdrNode h} \<union> HdrNode ` set xs) s s1"
proof -
  let ?P = "\<lambda>p. p \<notin> {FreeHeaders, HdrNode h} \<union> HdrNode ` set xs" and ?s = "hc_init_once s"
  have i: "same_links ?P s ?s" by (auto simp: same_links_def hc_init_once_def list_ops_defs)
  from assms(1) have wf: "wf_list ?s FreeHeaders (map HdrNode xs)" by (simp add: hc_inv_def)
  obtain g t where t: "hc_take ?s = (g, t)" by (cases "hc_take ?s")
  have "same_links ?P ?s t"
  proof (cases xs)
    case Nil
    then have "t = snd (malloc ?s)" using t fl.empty_iff [OF wf] by (simp add: hc_take_def)
    then show ?thesis by (simp add: same_links_def)
  next
    case (Cons x ys)
    then have wf': "wf_list ?s FreeHeaders (HdrNode x # map HdrNode ys)" using wf by simp
    have "nxt ?s FreeHeaders = HdrNode x" using fl.first_hd [OF wf'] .
    then have "nxt t = nxt (list_del (HdrNode x) ?s)" "prv t = prv (list_del (HdrNode x) ?s)"
      using t Cons fl.empty_iff [OF wf] by (auto simp: hc_take_def Let_def)
    moreover have "same_links ?P ?s (list_del (HdrNode x) ?s)" by (rule same_links_del_hd [OF wf']) (use Cons in auto)
    ultimately show ?thesis by (simp add: same_links_def)
  qed
  moreover have "same_links ?P t s1"
    using assms(2) t by (auto simp: zv_http_header_alloc_def same_links_def list_ops_defs split: if_splits)
  ultimately show ?thesis using i by (blast intro: same_links_trans)
qed

lemma mem_inv_save:
  assumes "mem_inv s own xs fs ds L" and "a \<in> own" and "hp_save a (s, r) = (res, (s', r'))"
  shows "\<exists>xs' new. mem_inv s' own xs' fs ds (L(a := new @ L a)) \<and> header_mem.more s' = header_mem.more s \<and> brk s \<le> brk s'"
proof -
  from assms(1) have hc: "hc_inv s xs" and rc: "rc_inv s fs ds" and dm: "dom (hdrs s) = set xs \<union> (\<Union>c \<in> own. set (L c))"
    by (simp_all add: mem_inv_def rc_accounted_def)
  obtain h s1 where al: "zv_http_header_alloc s = (h, s1)" by (cases "zv_http_header_alloc s")
  obtain xs' where xs': "hc_inv s1 xs'" "header_mem.more s1 = header_mem.more s" "brk s \<le> brk s1"
    and h: "h = NULL \<and> hdrs s1 = hdrs s \<and> set xs' = set xs \<or>
       h \<noteq> NULL \<and> (h \<in> set xs \<or> h \<notin> dom (hdrs s)) \<and> hdrs s1 = (hdrs s)(h \<mapsto> null_header) \<and> set xs' = set xs - {h}"
    using hc al by (rule header_alloc_exact)
  note l1 = header_alloc_links [OF hc al]
  have reqs1: "reqs s1 = reqs s" "rc_inited s1 = rc_inited s" "rc_free_count s1 = rc_free_count s"
    using xs'(2) by (cases s; cases s1; simp)+
  have rc1: "rc_inv s1 fs ds"
    by (rule rc_inv_same_links [OF rc same_links_mono [OF l1] reqs1(2,3) _ xs'(3)]) (auto simp: reqs1)
  have hL: "h \<notin> set (L c)" if "c \<in> own" for c
    using h that assms(1) hc dm by (auto simp: mem_inv_def hc_inv_def)
  have wf1: "wf_list s1 (ReqList c) (map HdrNode (L c))" if "c \<in> own" for c
    using assms(1) that hL [OF that] by (intro same_links_wf [OF l1]) (auto simp: mem_inv_def)
  show ?thesis
  proof (cases "h = NULL")
    case True
    then have "s' = s1" using assms(3) al by (simp add: hp_save_def)
    moreover have "mem_inv s1 own xs' fs ds (L(a := [] @ L a))"
      using assms(1) True h xs'(1) rc1 wf1 by (auto simp: mem_inv_def rc_accounted_def reqs1)
    ultimately show ?thesis using xs' by blast
  next
    case False
    let ?hdr = "\<lparr>key_start = r_cur_header_key_start r, key_end = r_cur_header_key_end r,
       value_start = r_cur_header_value_start r, value_end = r_cur_header_value_end r\<rparr>"
    let ?s2 = "s1\<lparr>hdrs := (hdrs s1)(h \<mapsto> ?hdr)\<rparr>" and ?L = "L(a := [h] @ L a)"
    have eq: "s' = list_add (HdrNode h) (ReqList a) ?s2" using assms(3) al False by (auto simp: hp_save_def Let_def)
    have wf2: "wf_list ?s2 (ReqList c) (map HdrNode (L c))" if "c \<in> own" for c using wf1 [OF that] by simp
    have l2: "same_links (\<lambda>p. p \<notin> set (ReqList a # HdrNode h # map HdrNode (L a))) ?s2 s'"
      unfolding eq by (rule same_links_add [OF wf2 [OF assms(2)]]) auto
    have l12: "same_links (\<lambda>p. p \<notin> set (ReqList a # HdrNode h # map HdrNode (L a))) s1 s'"
      using l2 by (simp add: same_links_def)
    have hd': "hdrs s' = (hdrs s)(h \<mapsto> ?hdr)" using h False by (auto simp: eq)
    have La: "set (L a) \<inter> set xs = {}" using assms(1,2) by (simp add: mem_inv_def)
    have "hc_inv s' xs'"
    proof (rule hc_inv_same_links [OF xs'(1) _ same_links_mono [OF l12]])
      show "dom (hdrs s') = dom (hdrs s1)" using h False by (auto simp: eq)
    qed (use h False La in \<open>auto simp: eq\<close>)
    moreover have "rc_inv s' fs ds"
      by (rule rc_inv_same_links [OF rc1 same_links_mono [OF l12]]) (auto simp: eq)
    moreover have "wf_list s' (ReqList c) (map HdrNode (?L c))" if c: "c \<in> own" for c
    proof (cases "c = a")
      case True
      then show ?thesis using list_add_wf [OF wf2 [OF assms(2)], of "HdrNode h"] hL [OF assms(2)] by (auto simp: eq)
    next
      case False
      then have "set (L c) \<inter> set (L a) = {}" using assms(1,2) c by (simp add: mem_inv_def)
      then show ?thesis using wf2 [OF c] hL [OF c] False by (simp, intro same_links_wf [OF l2]) auto
    qed
    moreover have "set (?L c) \<inter> set xs' = {}" if "c \<in> own" for c using assms(1) h False that by (auto simp: mem_inv_def)
    moreover have "set (?L c) \<inter> set (?L d) = {}" if "c \<in> own" "d \<in> own" "c \<noteq> d" for c d
    proof -
      have "set (L c) \<inter> set (L d) = {}" using assms(1) that by (simp add: mem_inv_def)
      then show ?thesis using hL [OF that(1)] hL [OF that(2)] that(3) by auto
    qed
    moreover have "dom (hdrs s') = set xs' \<union> (\<Union>c \<in> own. set (?L c))"
      using dm h False assms(2) by (auto simp: hd' split: if_splits)
    ultimately have "mem_inv s' own xs' fs ds ?L"
      using assms(1) by (simp add: mem_inv_def rc_accounted_def eq reqs1)
    then show ?thesis using xs'(2,3) by (intro exI [of _ xs'] exI [of _ "[h]"]) (simp add: eq)
  qed
qed


lemma mem_inv_hp_step:
  assumes "mem_inv s own xs fs ds L" and "a \<in> own" and "hp_step a p ch st (s, r) = (res, (s', r'))"
  shows "\<exists>xs' new. mem_inv s' own xs' fs ds (L(a := new @ L a)) \<and> header_mem.more s' = header_mem.more s \<and> brk s \<le> brk s'"
proof (cases "st = hd_cr \<and> ch = LF")
  case True
  with assms(3) mem_inv_save [OF assms(1,2), of r res s' r'] show ?thesis by simp
next
  case False
  with assms(3) have "s' = s" by (cases st) (auto split: if_splits)
  with assms(1) show ?thesis by (intro exI [of _ xs] exI [of _ "[]"]) simp
qed

text \<open>What the header parser does to the memory: it only adds headers to the list of its request.\<close>

definition parses_into :: "'z cache_mem_scheme \<Rightarrow> addr set \<Rightarrow> addr list \<Rightarrow> addr list \<Rightarrow> (addr \<Rightarrow> addr list) \<Rightarrow> addr \<Rightarrow> 'z cache_mem_scheme \<Rightarrow> bool" where
  "parses_into s own fs ds L a s' \<longleftrightarrow>
     (\<exists>xs' new. mem_inv s' own xs' fs ds (L(a := new @ L a))) \<and> header_mem.more s' = header_mem.more s \<and> brk s \<le> brk s'"

lemma mem_inv_parse_body:
  assumes "mem_inv s own xs fs ds L" and "a \<in> own" and "buf_ok r" and "r_parse_pos r \<le> r_last r"
    and "zv_http_parse_request_body a (s, r) = (rc, (s', r'))"
  shows "parses_into s own fs ds L a s'"
proof -
  let ?p = "r_parse_pos r"
  obtain res q y where sc: "scan (hp_step a) ?p (unread r ?p) (r_header_state r) (s, r) = (res, q, y)" by (metis prod.collapse)
  have "parses_into s own fs ds L a (fst y)"
  proof (rule scan_invariant [where I = "\<lambda>x. parses_into s own fs ds L a (fst x)", OF _ _ sc])
    show "parses_into s own fs ds L a (fst (s, r))"
      using assms(1) unfolding parses_into_def by (intro conjI exI [of _ xs] exI [of _ "[]"]) simp_all
  next
    fix p c st res and x x' :: "('a cache_mem_ext req_mem_ext, 'b) hp_mem"
    assume x: "parses_into s own fs ds L a (fst x)" and st: "hp_step a p c st x = (res, x')"
    obtain t u t' u' where xx: "x = (t, u)" "x' = (t', u')" by (cases x; cases x')
    from x obtain xs1 new where t: "mem_inv t own xs1 fs ds (L(a := new @ L a))" "header_mem.more t = header_mem.more s" "brk s \<le> brk t"
      by (auto simp: parses_into_def xx)
    from mem_inv_hp_step [OF t(1) assms(2) st [unfolded xx]] obtain xs2 new2 where
      t': "mem_inv t' own xs2 fs ds ((L(a := new @ L a))(a := new2 @ (L(a := new @ L a)) a))"
      "header_mem.more t' = header_mem.more t" "brk t \<le> brk t'"
      by blast
    have "(L(a := new @ L a))(a := new2 @ (L(a := new @ L a)) a) = L(a := (new2 @ new) @ L a)" by simp
    with t' t show "parses_into s own fs ds L a (fst x')" unfolding parses_into_def xx by (metis fst_conv order_trans)
  qed
  moreover have "fst (snd (rc, (s', r'))) = fst y"
    using parse_body_scan [of "(s, r)" a] assms(3-5) sc by (cases y) (auto simp: hp_repos_def split: step_result.splits)
  ultimately show ?thesis by simp
qed

text \<open>Taking a request for a new connection.\<close>

lemma mem_inv_get:
  assumes "mem_inv s own xs fs ds L" and "zv_http_request_get fd epfd cf s = (a, s')"
  shows "(a = NULL \<and> mem_inv s' own xs fs ds L \<and> reqs s' = reqs s \<or>
          a \<noteq> NULL \<and> a \<notin> own \<and> a \<notin> set ds \<and> (\<exists>fs' r. mem_inv s' (insert a own) xs fs' ds (L(a := [])) \<and>
             reqs s' = (reqs s)(a \<mapsto> r) \<and> fresh_conn fd r)) \<and> rc_frame {a} s s'"
proof -
  from assms(1) have acc: "rc_accounted s own fs ds" and inv: "rc_inv s fs ds" and hc: "hc_inv s xs" by (simp_all add: mem_inv_def rc_accounted_def)
  have own: "own \<subseteq> dom (reqs s)" "set fs \<subseteq> dom (reqs s)" "set ds \<subseteq> dom (reqs s)" using acc by (auto simp: rc_accounted_def)
  have get: "rc_frame {a} s s' \<and> (a = NULL \<and> rc_inv s' fs ds \<and> reqs s' = reqs s \<or>
      a \<noteq> NULL \<and> a \<notin> own \<and> a \<notin> set ds \<and> wf_list s' (ReqList a) [] \<and>
      (\<exists>fs' r. rc_inv s' fs' ds \<and> set fs' = set fs - {a} \<and> reqs s' = (reqs s)(a \<mapsto> r) \<and> fresh_conn fd r))"
  proof (cases fs)
    case Nil
    have i: "rc_inv s [] ds" using inv Nil by simp
    have "brk s \<notin> dom (reqs s)" "brk s \<noteq> NULL" using inv by (auto simp: rc_inv_def)
    then have "brk s \<notin> own" "brk s \<notin> set ds" "brk s \<noteq> NULL" using own by auto
    with zv_http_request_get_miss [OF i assms(2)] Nil show ?thesis by fastforce
  next
    case (Cons x ys)
    have i: "rc_inv s (x # ys) ds" using inv Cons by simp
    from zv_http_request_get_hit [OF i, of fd epfd cf] assms(2) obtain r where g: "a = x" "rc_inv s' ys ds"
      "reqs s' = (reqs s)(x \<mapsto> r)" "fresh_conn fd r" "wf_list s' (ReqList x) []" "rc_frame {x} s s'" by auto
    have "x \<noteq> NULL" using rc_inv_nonnull [OF inv, of x] own Cons by auto
    moreover have "x \<notin> own" "x \<notin> set ds" "x \<notin> set ys"
      using acc Cons rc_inv_lists [OF inv] rc_inv_distinct [OF inv] by (auto simp: rc_accounted_def)
    ultimately show ?thesis using g Cons by (auto intro!: exI [of _ ys])
  qed
  then have fr: "rc_frame {a} s s'" by simp
  have hc': "hc_inv s' xs" by (rule rc_frame_hc_inv [OF fr hc])
  have hd: "hdrs s' = hdrs s" using fr by (simp add: rc_frame_def)
  have wf: "wf_list s' (ReqList c) (map HdrNode (L c))" if "c \<in> own" "c \<noteq> a" for c
    using assms(1) that by (intro rc_frame_header_list [OF fr]) (auto simp: mem_inv_def)
  show ?thesis
  proof (cases "a = NULL")
    case True
    have "NULL \<notin> own" using mem_inv_own [OF assms(1)] by auto
    then have "wf_list s' (ReqList c) (map HdrNode (L c))" if "c \<in> own" for c using wf [OF that] True that by auto
    with True get assms(1) hc' show ?thesis by (simp add: mem_inv_def rc_accounted_def hd)
  next
    case False
    with get obtain fs' r where g: "a \<notin> own" "a \<notin> set ds" "wf_list s' (ReqList a) []" "rc_inv s' fs' ds" "set fs' = set fs - {a}"
      "reqs s' = (reqs s)(a \<mapsto> r)" "fresh_conn fd r" by auto
    have "rc_accounted s' (insert a own) fs' ds"
      using acc g rc_inv_lists [OF g(4)] by (auto simp: rc_accounted_def)
    moreover have "(\<Union>c \<in> insert a own. set ((L(a := [])) c)) = (\<Union>c \<in> own. set (L c))" using g(1) by (auto split: if_splits)
    moreover have "wf_list s' (ReqList c) (map HdrNode (L c))" if "c \<in> own" for c using wf [OF that] that g(1) by auto
    ultimately have "mem_inv s' (insert a own) xs fs' ds (L(a := []))"
      using assms(1) g hc' by (simp add: mem_inv_def hd)
    with False g fr show ?thesis by blast
  qed
qed


section \<open>Properties\<close>

lemma drop_bslice: "i \<le> j \<Longrightarrow> j \<le> length buf \<Longrightarrow> drop i buf = bslice buf i j @ drop j buf \<and> length (bslice buf i j) = j - i"
  by (simp add: bslice_def) (metis append_take_drop_id drop_drop le_add_diff_inverse2)

text \<open>
  C25. What one request header does: with key \<open>k\<close> and value \<open>v\<close> of a stored header, free of zero bytes, the header counts as
  \<^verbatim>\<open>Connection\<close> exactly if \<open>k\<close> is a prefix of that name, in the same case, and not a prefix of \<^verbatim>\<open>Host\<close>; it then selects
  keep-alive or close if \<open>v\<close>, in any case, is a prefix of that word. \<^verbatim>\<open>If-Modified-Since\<close> is recognised likewise and marks the
  response as not modified if the time equals the recorded one. All other headers have no effect.
\<close>

theorem header_effect_rule:
  assumes "ks \<le> ke" and "ke \<le> length buf" and "vs \<le> ve" and "ve \<le> length buf"
    and "bslice buf ks ke = k" and "bslice buf vs ve = v" and "NUL \<notin> set k" and "NUL \<notin> set v"
  shows "header_effect date buf \<lparr>key_start = Some ks, key_end = Some ke, value_start = Some vs, value_end = Some ve\<rparr> o' =
     (if prefix k ''Host'' then o'
      else if prefix k ''Connection'' then
        (if prefix (map tolower v) ''keep-alive'' then o'\<lparr>o_keep_alive := True\<rparr>
         else if prefix (map tolower v) ''close'' then o'\<lparr>o_keep_alive := False\<rparr> else o')
      else if prefix k ''If-Modified-Since'' then
        (if date (v @ drop ve buf) = Some (o_mtime o') then o'\<lparr>o_modified := False, o_status := 304\<rparr> else o')
      else o')"
proof -
  from drop_bslice [OF assms(1,2)] assms(5) have k: "drop ks buf = k @ drop ke buf" "ke - ks = length k" by auto
  from drop_bslice [OF assms(3,4)] assms(6) have v: "drop vs buf = v @ drop ve buf" "ve - vs = length v" by auto
  have lower: "map tolower ''keep-alive'' = ''keep-alive''" "map tolower ''close'' = ''close''"
    by (simp_all add: tolower_def between_def byte_val_def)
  have words: "strncasecmp_eq ''keep-alive'' (v @ drop ve buf) (length v) \<longleftrightarrow> prefix (map tolower v) ''keep-alive''"
    "strncasecmp_eq ''close'' (v @ drop ve buf) (length v) \<longleftrightarrow> prefix (map tolower v) ''close''"
    unfolding strncasecmp_eq_prefix [OF assms(8)] lower by (rule refl)+
  show ?thesis
    by (simp add: header_effect_def ptr_def k v zv_http_headers_in_def strncmp_eq_prefix [OF assms(7)] zv_http_process_ignore_def
        zv_http_process_connection_def words zv_http_process_if_modified_since_def
        ZV_HTTP_NOT_MODIFIED_def split: option.split)
qed

theorem header_effect_rule_witness:
  "header_effect (\<lambda>_. None) ''Con:CL'' \<lparr>key_start = Some 0, key_end = Some 3, value_start = Some 4, value_end = Some 6\<rparr>
     \<lparr>o_fd = 5, o_keep_alive = True, o_mtime = 0, o_modified = True, o_status = 0\<rparr> =
     \<lparr>o_fd = 5, o_keep_alive = False, o_mtime = 0, o_modified = True, o_status = 0\<rparr>"
proof -
  have "bslice ''Con:CL'' 0 3 = ''Con''" "bslice ''Con:CL'' 4 6 = ''CL''" by (simp_all add: bslice_def)
  moreover have "map tolower ''CL'' = ''cl''" by code_simp
  ultimately show ?thesis using header_effect_rule [of 0 3 "''Con:CL''" 4 6 "''Con''" "''CL''" "\<lambda>_. None"] by simp
qed



lemma mem_inv_start:
  "\<not> rc_inited s \<Longrightarrow> \<not> hc_inited s \<Longrightarrow> reqs s = Map.empty \<Longrightarrow> hdrs s = Map.empty \<Longrightarrow> 1 \<le> brk s \<Longrightarrow> mem_inv s {} [] [] [] L"
  using hc_inv_start [of s] rc_inv_start [of s] by (simp add: mem_inv_def rc_accounted_def)

definition sample_mem :: cache_mem where
  "sample_mem = snd (zv_http_request_get 5 3 sample_conf rc_start)"

lemma sample_mem_inv: "\<exists>fs. mem_inv sample_mem {1} [] fs [] (\<lambda>_. [])"
proof -
  have start: "mem_inv rc_start {} [] [] [] (\<lambda>_. [])" by (rule mem_inv_start) (simp_all add: rc_start_def)
  obtain a s where g: "zv_http_request_get 5 3 sample_conf rc_start = (a, s)" by (cases "zv_http_request_get 5 3 sample_conf rc_start")
  have "a = 1"
    using g by (auto simp: zv_http_request_get_def rc_take_def rc_init_once_def rc_start_def malloc_def list_ops_defs
        split: if_splits prod.splits)
  with mem_inv_get [OF start g] show ?thesis by (auto simp: sample_mem_def g fun_upd_idem)
qed


text \<open>
  C24. Handling the headers of a request: the call returns, applies the effect of each stored header once, in list order, starting from
  the default of the protocol version (persistent from HTTP/1.1 on), empties the list and gives every header object back; the
  request objects and all other lists are untouched.
\<close>

theorem handle_header_all:
  assumes "mem_inv s own xs fs ds L" and "a \<in> own" and "reqs s a = Some r"
  shows "\<exists>s' xs'. zv_http_handle_header date a (s, o') =
       Some (s', fold (\<lambda>h. header_effect date (r_buf r) (the (hdrs s h))) (L a)
         (o'\<lparr>o_keep_alive := 1 < sint (r_http_major r) \<or> sint (r_http_major r) = 1 \<and> 1 \<le> sint (r_http_minor r)\<rparr>)) \<and>
     mem_inv s' own xs' fs ds (L(a := [])) \<and> list_empty (ReqList a) s' \<and> reqs s' = reqs s \<and> io s' = io s"
proof -
  from assms(1,2) obtain s' xs' where s':
    "zv_http_handle_header date a (s, o') = Some (s', fold (\<lambda>h. header_effect date (r_buf (req a s)) (the (hdrs s h))) (L a)
       (o'\<lparr>o_keep_alive := default_keep_alive (req a s)\<rparr>))"
    "mem_inv s' own xs' fs ds (L(a := []))" "reqs s' = reqs s" "io s' = io s"
    by (rule mem_inv_handle_header)
  have "req a s = r" using assms(3) by (simp add: req_def)
  moreover have "list_empty (ReqList a) s'"
    using mem_inv_hlist [OF s'(2) assms(2)] fl.empty_iff [of s' "ReqList a" "[]"] by (simp add: hlist_def)
  ultimately show ?thesis using s' by (auto simp: default_keep_alive_def)
qed

definition sample_output :: zv_http_out where
  "sample_output = \<lparr>o_fd = 5, o_keep_alive = True, o_mtime = 0, o_modified = True, o_status = 0\<rparr>"

theorem handle_header_all_witness:
  "\<exists>s'. zv_http_handle_header (\<lambda>_. None) 1 (sample_mem, sample_output) = Some (s', sample_output\<lparr>o_keep_alive := False\<rparr>)"
proof -
  obtain fs where inv: "mem_inv sample_mem {1} [] fs [] (\<lambda>_. [])" using sample_mem_inv by blast
  obtain r where r: "reqs sample_mem 1 = Some r" using mem_inv_own [OF inv] by auto
  have "r_http_major r = 0"
    using r by (auto simp: sample_mem_def zv_http_request_get_def rc_take_def rc_init_once_def rc_start_def malloc_def list_ops_defs
        zv_init_request_t_def Let_def init_output_fields_def init_items_def init_parse_fields_def split: if_splits)
  with handle_header_all [OF inv _ r, of "\<lambda>_. None" sample_output] show ?thesis by auto
qed

end
