(* ===== verification/Zv_Timer.thy ===== *)
theory Zv_Timer
  imports Zv_Headers Zv_Priority_Queue
begin

text \<open>
  The timers of a worker (\<^verbatim>\<open>src/src/timer.c\<close>): a priority queue of timer nodes ordered by their expiry time. Deleting a timer
  only marks its node; the node leaves the queue when it has reached the front.

  The memory is extended by the timer nodes, the queue and the clock. The clock is a script \<open>clock\<close> of readings
  (seconds and nanoseconds); the time in milliseconds is a 64-bit word and wraps around. A node holds a pointer to its request and the
  request a pointer to its node. Every dereference is explicit: reading through a null or a freed pointer
  is \<open>Crash\<close>, and a nested loop that does not end is \<open>Hang\<close>. The queue operations may reallocate, so each takes one answer of the
  allocator's script. The only handler in the program is \<^verbatim>\<open>zv_http_close_conn\<close>.

  The lemmas show that, whatever allocations fail inside the queue, nodes and requests stay consistent, that expiry handling never uses a freed object, and
  that it closes exactly the connections whose time has come.
\<close>

section \<open>Outcomes\<close>

datatype 'a outcome = Ok 'a | Exit int | Crash | Hang

definition andthen :: "'a outcome \<Rightarrow> ('a \<Rightarrow> 'b outcome) \<Rightarrow> 'b outcome" where
  "andthen m f = (case m of Ok x \<Rightarrow> f x | Exit n \<Rightarrow> Exit n | Crash \<Rightarrow> Crash | Hang \<Rightarrow> Hang)"

definition ends :: "'a option \<Rightarrow> 'a outcome" where
  "ends m = (case m of None \<Rightarrow> Hang | Some x \<Rightarrow> Ok x)"

lemma andthen_simps [simp]:
  "andthen (Ok x) f = f x" "andthen Crash f = Crash" "andthen (Exit n) f = Exit n" "andthen Hang f = Hang" "ends (Some y) = Ok y"
  by (simp_all add: andthen_def ends_def)

section \<open>State\<close>

datatype timer_handler_pt = H_zv_http_close_conn

record zv_timer_node =
  t_key :: u64
  t_deleted :: bool
  t_handler :: "timer_handler_pt option"
  t_rq :: addr

record timer_mem = cache_mem +
  tnodes :: "addr \<rightharpoonup> zv_timer_node"
  zv_timer :: "(addr \<rightharpoonup> zv_timer_node, addr) zv_pq"
  zv_current_msec :: u64
  ticks :: nat
  clock :: "nat \<Rightarrow> nat \<times> nat"

definition ZV_TIMER_INFINITE :: int where "ZV_TIMER_INFINITE = -1"

section \<open>Operations\<close>

definition timer_comp :: "(addr \<rightharpoonup> zv_timer_node) \<Rightarrow> addr \<Rightarrow> addr \<Rightarrow> bool" where
  "timer_comp m ti tj \<longleftrightarrow> t_key (the (m ti)) < t_key (the (m tj))"

definition msec :: "nat \<times> nat \<Rightarrow> u64" where
  "msec = (\<lambda>(sec, nsec). of_nat sec * 1000 + of_nat nsec div 1000000)"

definition zv_time_update :: "'z timer_mem_scheme \<Rightarrow> 'z timer_mem_scheme" where
  "zv_time_update s = s\<lparr>zv_current_msec := msec (clock s (ticks s)), ticks := ticks s + 1\<rparr>"

text \<open>One answer of the allocator.\<close>

definition alloc_answer :: "'z memory_scheme \<Rightarrow> bool \<times> 'z memory_scheme" where
  "alloc_answer s = (case mallocs s of [] \<Rightarrow> (True, s) | b # bs \<Rightarrow> (b, s\<lparr>mallocs := bs\<rparr>))"

definition zv_timer_init :: "'z timer_mem_scheme \<Rightarrow> 'z timer_mem_scheme" where
  "zv_timer_init s =
     (case alloc_answer s of (ok, s) \<Rightarrow>
        zv_time_update (s\<lparr>zv_timer := snd (zv_pq_init ok (zv_timer s) timer_comp ZV_PQ_DEFAULT_SIZE)\<rparr>))"

text \<open>Remove the front of the queue and free its node \<open>t\<close>.\<close>

definition pop_timer :: "addr \<Rightarrow> 'z timer_mem_scheme \<Rightarrow> 'z timer_mem_scheme" where
  "pop_timer t s =
     (case alloc_answer s of (ok, s) \<Rightarrow>
        s\<lparr>zv_timer := snd (zv_pq_delmin ok (tnodes s) (zv_timer s)), tnodes := (tnodes s)(t := None)\<rparr>)"

lemma delmin_nalloc: "pq_nalloc (snd (zv_pq_delmin ok m q)) = pq_nalloc q - 1"
  by (simp add: zv_pq_delmin_def zv_pq_is_empty_def Let_def resize_def split: prod.split)

lemma alloc_answer_timer [simp]:
  "zv_timer (snd (alloc_answer s)) = zv_timer s" "tnodes (snd (alloc_answer s)) = tnodes s" "reqs (snd (alloc_answer s)) = reqs s"
  "zv_current_msec (snd (alloc_answer s)) = zv_current_msec s" "clock (snd (alloc_answer s)) = clock s" "ticks (snd (alloc_answer s)) = ticks s"
  by (simp_all add: alloc_answer_def split: list.split)

lemma pop_timer_queue: "zv_timer (pop_timer t s) = snd (zv_pq_delmin (fst (alloc_answer s)) (tnodes s) (zv_timer s))"
  by (simp add: pop_timer_def split: prod.split) (metis alloc_answer_timer(1,2) fst_conv snd_conv)

lemma zv_time_update_fields [simp]:
  "zv_timer (zv_time_update s) = zv_timer s" "tnodes (zv_time_update s) = tnodes s" "reqs (zv_time_update s) = reqs s"
  "io (zv_time_update s) = io s" "brk (zv_time_update s) = brk s" "mallocs (zv_time_update s) = mallocs s" "clock (zv_time_update s) = clock s"
  by (simp_all add: zv_time_update_def)

text \<open>The time difference of 64-bit values is cast to \<^verbatim>\<open>int\<close>.\<close>

definition timeout_of :: "u64 \<Rightarrow> u64 \<Rightarrow> int" where
  "timeout_of key now = (let time = sint (ucast (key - now) :: u32) in if time > 0 then time else 0)"

function zv_find_timer :: "'z timer_mem_scheme \<Rightarrow> (int \<times> 'z timer_mem_scheme) outcome" where
  "zv_find_timer s =
     (if zv_pq_is_empty (zv_timer s) then Ok (ZV_TIMER_INFINITE, s)
      else
        let s = zv_time_update s
        in case zv_pq_min (zv_timer s) of
             None \<Rightarrow> Crash
           | Some t \<Rightarrow>
               (case tnodes s t of
                  None \<Rightarrow> Crash
                | Some n \<Rightarrow>
                    if t_deleted n then zv_find_timer (pop_timer t s)
                    else Ok (timeout_of (t_key n) (zv_current_msec s), s)))"
  by pat_completeness auto
termination
  by (relation "measure (\<lambda>s. pq_nalloc (zv_timer s))") (auto simp: pop_timer_queue delmin_nalloc zv_pq_is_empty_def)

declare zv_find_timer.simps [simp del]

text \<open>Calling the handler of an expired node.\<close>

definition run_handler :: "zv_timer_node \<Rightarrow> 'z timer_mem_scheme \<Rightarrow> 'z timer_mem_scheme outcome" where
  "run_handler n s =
     (case t_handler n of
        None \<Rightarrow> Ok s
      | Some H_zv_http_close_conn \<Rightarrow>
          (case reqs s (t_rq n) of
             None \<Rightarrow> Crash
           | Some r \<Rightarrow> ends (zv_http_close_conn (t_rq n) (set_req (t_rq n) (r\<lparr>r_timer := NULL\<rparr>) s))))"

text \<open>Closing a connection does not touch the timers, whatever the state.\<close>

lemma free_headers_more: "free_headers_loop a pos s = Some s' \<Longrightarrow> header_mem.more s' = header_mem.more s"
proof (rule free_headers_loop.raw_induct [where P = "\<lambda>a pos s s'. header_mem.more s' = header_mem.more s"])
  fix loop a pos and s s' :: "'a req_mem_scheme"
  assume "\<And>a pos s s'. loop a pos s = Some s' \<Longrightarrow> header_mem.more s' = header_mem.more s"
    and "(if pos = ReqList a then Some s
      else let next = nxt s pos in loop a next (zv_http_header_free (hdr_entry pos) (list_del pos s))) = Some s'"
  then show "header_mem.more s' = header_mem.more s" by (fastforce simp: Let_def header_free_misc split: if_splits)
qed

lemma close_conn_queue:
  fixes s :: "'z cache_mem_scheme"
  assumes "zv_http_close_conn a s = Some s'"
  shows "cache_mem.more s' = cache_mem.more s"
proof -
  obtain s1 where s1: "free_headers_loop a (nxt s (ReqList a)) s = Some s1"
    using assms by (auto simp: zv_http_close_conn_def zv_free_request_t_def split: option.splits)
  have "header_mem.more s1 = header_mem.more s" by (rule free_headers_more [OF s1])
  then have "cache_mem.more s1 = cache_mem.more s" by (cases s; cases s1) simp
  moreover have "cache_mem.more s' = cache_mem.more s1"
    using assms s1 by (auto simp: zv_http_close_conn_def zv_free_request_t_def on_req_eq Let_def zv_http_request_put_deferred_def)
  ultimately show ?thesis by simp
qed

lemma close_conn_timer:
  fixes s :: "'z timer_mem_scheme"
  assumes "zv_http_close_conn a s = Some s'"
  shows "zv_timer s' = zv_timer s \<and> tnodes s' = tnodes s \<and> zv_current_msec s' = zv_current_msec s \<and> clock s' = clock s \<and>
    ticks s' = ticks s \<and> timer_mem.more s' = timer_mem.more s"
  using close_conn_queue [OF assms] by (cases s; cases s') simp

lemma run_handler_timer:
  assumes "run_handler n s = Ok s'"
  shows "zv_timer s' = zv_timer s \<and> tnodes s' = tnodes s \<and> zv_current_msec s' = zv_current_msec s \<and> clock s' = clock s \<and>
    ticks s' = ticks s \<and> timer_mem.more s' = timer_mem.more s"
  using assms
  by (auto simp: run_handler_def ends_def set_req_def dest!: close_conn_timer split: option.splits timer_handler_pt.splits)

function zv_handle_expire_timers :: "'z timer_mem_scheme \<Rightarrow> 'z timer_mem_scheme outcome" where
  "zv_handle_expire_timers s =
     (if zv_pq_is_empty (zv_timer s) then Ok s
      else
        let s = zv_time_update s
        in case zv_pq_min (zv_timer s) of
             None \<Rightarrow> Crash
           | Some t \<Rightarrow>
               (case tnodes s t of
                  None \<Rightarrow> Crash
                | Some n \<Rightarrow>
                    if t_deleted n then zv_handle_expire_timers (pop_timer t s)
                    else if t_key n > zv_current_msec s then Ok s
                    else (case run_handler n s of
                            Ok s \<Rightarrow> zv_handle_expire_timers (pop_timer t s)
                          | Exit c \<Rightarrow> Exit c | Crash \<Rightarrow> Crash | Hang \<Rightarrow> Hang)))"
  by pat_completeness auto
termination
  by (relation "measure (\<lambda>s. pq_nalloc (zv_timer s))")
    (auto simp: pop_timer_queue delmin_nalloc zv_pq_is_empty_def dest!: run_handler_timer)

declare zv_handle_expire_timers.simps [simp del]

definition zv_add_timer :: "addr \<Rightarrow> u64 \<Rightarrow> timer_handler_pt option \<Rightarrow> 'z timer_mem_scheme \<Rightarrow> 'z timer_mem_scheme outcome" where
  "zv_add_timer rq timeout handler s =
     (case malloc s of (t, s) \<Rightarrow>
        let s = zv_time_update s
        in case reqs s rq of
             None \<Rightarrow> Crash
           | Some r \<Rightarrow>
               if t = NULL then Crash
               else
                 let s = set_req rq (r\<lparr>r_timer := t\<rparr>) s;
                     n = \<lparr>t_key = zv_current_msec s + timeout, t_deleted = False, t_handler = handler, t_rq = rq\<rparr>;
                     s = s\<lparr>tnodes := (tnodes s)(t \<mapsto> n)\<rparr>
                 in case alloc_answer s of (ok, s) \<Rightarrow>
                      Ok (s\<lparr>zv_timer := snd (zv_pq_insert ok (tnodes s) (zv_timer s) t)\<rparr>))"

definition zv_del_timer :: "addr \<Rightarrow> 'z timer_mem_scheme \<Rightarrow> 'z timer_mem_scheme outcome" where
  "zv_del_timer rq s =
     (let s = zv_time_update s
      in case reqs s rq of
           None \<Rightarrow> Crash
         | Some r \<Rightarrow>
             (case tnodes s (r_timer r) of
                None \<Rightarrow> Crash
              | Some n \<Rightarrow>
                  if r_timer r = NULL then Crash
                  else Ok (set_req rq (r\<lparr>r_timer := NULL\<rparr>) (s\<lparr>tnodes := (tnodes s)(r_timer r \<mapsto> n\<lparr>t_deleted := True\<rparr>)\<rparr>))))"


section \<open>The invariant\<close>

lemma strict_weak_timer: "strict_weak (timer_comp m)"
  by unfold_locales (auto simp: timer_comp_def)

lemma pq_inv_keys:
  assumes "pq_inv m q" and "pq_comp q = timer_comp" and "\<And>t. t \<in># pq_items q \<Longrightarrow> t_key (the (m' t)) = t_key (the (m t))"
  shows "pq_inv m' q"
proof -
  have b: "pq_bounds q" using assms(1) by (simp add: pq_inv_def)
  have "timer_comp m' (pq_arr q ! i) (pq_arr q ! (i div 2)) = timer_comp m (pq_arr q ! i) (pq_arr q ! (i div 2))"
    if "2 \<le> i" "i \<le> pq_nalloc q" for i
  proof -
    have "1 \<le> i div 2" "i div 2 \<le> pq_nalloc q" "1 \<le> i" using that by auto
    then have "pq_arr q ! i \<in># pq_items q" "pq_arr q ! (i div 2) \<in># pq_items q" using pq_items_nth [OF b] that by blast+
    then show ?thesis by (simp add: timer_comp_def assms(3))
  qed
  then show ?thesis using assms(1,2) by (simp add: pq_inv_def heap_ok_def)
qed

text \<open>
  The queue is a heap over allocated nodes without duplicates, and between the requests \<open>own\<close> in use and the live nodes the two pointers are
  inverse to each other.
\<close>

definition timer_inv :: "'z timer_mem_scheme \<Rightarrow> addr set \<Rightarrow> bool" where
  "timer_inv s own \<longleftrightarrow>
     pq_inv (tnodes s) (zv_timer s) \<and> pq_comp (zv_timer s) = timer_comp \<and>
     set_mset (pq_items (zv_timer s)) \<subseteq> dom (tnodes s) \<and> (\<forall>t. count (pq_items (zv_timer s)) t \<le> 1) \<and>
     (\<forall>t \<in> dom (tnodes s). 1 \<le> t \<and> t < brk s) \<and>
     (\<forall>t n. tnodes s t = Some n \<and> \<not> t_deleted n \<longrightarrow>
        t_handler n = Some H_zv_http_close_conn \<and> t_rq n \<in> own \<and> r_timer (req (t_rq n) s) = t) \<and>
     (\<forall>a \<in> own. r_timer (req a s) \<noteq> NULL \<longrightarrow>
        (\<exists>n. tnodes s (r_timer (req a s)) = Some n \<and> \<not> t_deleted n \<and> t_rq n = a))"

lemma timer_inv_cong:
  assumes "timer_inv s own" and "zv_timer s' = zv_timer s" and "tnodes s' = tnodes s" and "brk s \<le> brk s'"
    and "\<And>a. a \<in> own \<Longrightarrow> r_timer (req a s') = r_timer (req a s)"
  shows "timer_inv s' own"
proof -
  have "\<forall>t \<in> dom (tnodes s'). 1 \<le> t \<and> t < brk s'"
    using assms(1,3,4) below_mono [of "dom (tnodes s)" "brk s" "brk s'"] by (simp add: timer_inv_def)
  with assms show ?thesis by (auto simp: timer_inv_def)
qed

lemma timer_inv_queue:
  assumes "timer_inv s own"
  shows "pq_inv (tnodes s) (zv_timer s)" "pq_comp (zv_timer s) = timer_comp" "set_mset (pq_items (zv_timer s)) \<subseteq> dom (tnodes s)"
    "count (pq_items (zv_timer s)) t \<le> 1" "\<forall>t \<in> dom (tnodes s). 1 \<le> t \<and> t < brk s"
  using assms by (simp_all add: timer_inv_def)

lemma timer_inv_live:
  assumes "timer_inv s own" and "tnodes s t = Some n" and "\<not> t_deleted n"
  shows "t_handler n = Some H_zv_http_close_conn" and "t_rq n \<in> own" and "r_timer (req (t_rq n) s) = t"
  using assms unfolding timer_inv_def by blast+

lemma timer_inv_timer:
  assumes "timer_inv s own" and "a \<in> own" and "r_timer (req a s) \<noteq> NULL"
  obtains n where "tnodes s (r_timer (req a s)) = Some n" and "\<not> t_deleted n" and "t_rq n = a"
  using assms unfolding timer_inv_def by blast

lemma timer_invI:
  assumes "pq_inv (tnodes s) (zv_timer s)" "pq_comp (zv_timer s) = timer_comp" "set_mset (pq_items (zv_timer s)) \<subseteq> dom (tnodes s)"
    "\<And>t. count (pq_items (zv_timer s)) t \<le> 1" "\<forall>t \<in> dom (tnodes s). 1 \<le> t \<and> t < brk s"
    and "\<And>t n. tnodes s t = Some n \<Longrightarrow> \<not> t_deleted n \<Longrightarrow>
      t_handler n = Some H_zv_http_close_conn \<and> t_rq n \<in> own \<and> r_timer (req (t_rq n) s) = t"
    and "\<And>a. a \<in> own \<Longrightarrow> r_timer (req a s) \<noteq> NULL \<Longrightarrow> \<exists>n. tnodes s (r_timer (req a s)) = Some n \<and> \<not> t_deleted n \<and> t_rq n = a"
  shows "timer_inv s own"
  using assms unfolding timer_inv_def by blast

lemma timer_inv_nonnull: "timer_inv s own \<Longrightarrow> tnodes s NULL = None"
  using timer_inv_queue(5) [of s own] by (auto simp: dom_def)

text \<open>A request without a timer is in no live node.\<close>

lemma timer_inv_no_timer:
  assumes "timer_inv s own" and "r_timer (req a s) = NULL" and "tnodes s t = Some n" and "\<not> t_deleted n"
  shows "t_rq n \<noteq> a"
  using timer_inv_live(3) [OF assms(1,3,4)] assms(2,3) timer_inv_nonnull [OF assms(1)] by auto

lemma req_set_req [simp]: "req a (set_req b r s) = (if a = b then r else req a s)"
  by (simp add: req_def)

lemma timer_inv_del_timer:
  assumes "timer_inv s own" and "a \<in> own" and "reqs s a = Some r" and "r_timer r \<noteq> NULL"
  obtains s' n where "zv_del_timer a s = Ok s'" and "timer_inv s' own" and "reqs s' = (reqs s)(a \<mapsto> r\<lparr>r_timer := NULL\<rparr>)"
    and "s' = set_req a (r\<lparr>r_timer := NULL\<rparr>) ((zv_time_update s)\<lparr>tnodes := (tnodes s)(r_timer r \<mapsto> n)\<rparr>)" and "t_deleted n"
proof -
  let ?t = "r_timer r"
  have r: "req a s = r" using assms(3) by (simp add: req_def)
  obtain n where n: "tnodes s ?t = Some n" "\<not> t_deleted n" "t_rq n = a"
    using timer_inv_timer [OF assms(1,2)] assms(4) r by metis
  define s' where "s' = set_req a (r\<lparr>r_timer := NULL\<rparr>) ((zv_time_update s)\<lparr>tnodes := (tnodes s)(?t \<mapsto> n\<lparr>t_deleted := True\<rparr>)\<rparr>)"
  have eq: "zv_del_timer a s = Ok s'" using assms(3,4) n by (simp add: zv_del_timer_def s'_def)
  have f: "zv_timer s' = zv_timer s" "tnodes s' = (tnodes s)(?t \<mapsto> n\<lparr>t_deleted := True\<rparr>)" "brk s' = brk s"
    "reqs s' = (reqs s)(a \<mapsto> r\<lparr>r_timer := NULL\<rparr>)"
    by (simp_all add: s'_def set_req_def)
  have rq: "req c s' = (if c = a then r\<lparr>r_timer := NULL\<rparr> else req c s)" for c by (simp add: req_def f)
  note queue = timer_inv_queue [OF assms(1)]
  have dom: "dom (tnodes s') = dom (tnodes s)" using n(1) by (auto simp: f)
  have "timer_inv s' own"
  proof (rule timer_invI)
    show "pq_inv (tnodes s') (zv_timer s')"
      unfolding f by (rule pq_inv_keys [OF queue(1,2)]) (use n(1) in auto)
  next
    fix t m assume m: "tnodes s' t = Some m" "\<not> t_deleted m"
    then have m': "tnodes s t = Some m" "t \<noteq> ?t" by (auto simp: f split: if_splits)
    note live = timer_inv_live [OF assms(1) m'(1) m(2)]
    have "t_rq m \<noteq> a" using live(3) m'(2) r by auto
    with live show "t_handler m = Some H_zv_http_close_conn \<and> t_rq m \<in> own \<and> r_timer (req (t_rq m) s') = t" by (simp add: rq)
  next
    fix c assume c: "c \<in> own" "r_timer (req c s') \<noteq> NULL"
    then have ca: "c \<noteq> a" "r_timer (req c s) \<noteq> NULL" by (auto simp: rq split: if_splits)
    obtain m where m: "tnodes s (r_timer (req c s)) = Some m" "\<not> t_deleted m" "t_rq m = c"
      using timer_inv_timer [OF assms(1) c(1) ca(2)] .
    then have "r_timer (req c s) \<noteq> ?t" using n ca(1) by auto
    with m ca(1) show "\<exists>m. tnodes s' (r_timer (req c s')) = Some m \<and> \<not> t_deleted m \<and> t_rq m = c"
      by (intro exI [of _ m]) (simp add: rq f)
  qed (use queue dom f in simp_all)
  then show thesis using that [OF eq _ f(4), of "n\<lparr>t_deleted := True\<rparr>"] by (simp add: s'_def)
qed

lemma timer_inv_add_timer:
  assumes "timer_inv s own" and "a \<in> own" and "reqs s a = Some r" and "r_timer r = NULL" and "1 \<le> brk s"
    and "malloc s = (t, s1)" and "t \<noteq> NULL"
  obtains s' where "zv_add_timer a tmo (Some H_zv_http_close_conn) s = Ok s'" and "timer_inv s' own"
    and "reqs s' = (reqs s)(a \<mapsto> r\<lparr>r_timer := t\<rparr>)" and "t_key (the (tnodes s' t)) = msec (clock s (ticks s)) + tmo"
    and "nxt s' = nxt s" and "prv s' = prv s" and "hdrs s' = hdrs s" and "brk s \<le> brk s'" and "io s' = io s"
    and "hc_free_count s' = hc_free_count s" and "hc_inited s' = hc_inited s" and "rc_free_count s' = rc_free_count s"
    and "rc_inited s' = rc_inited s" and "timer_mem.more s' = timer_mem.more s" and "clock s' = clock s"
    and "set (mallocs s') \<subseteq> set (mallocs s)"
proof -
  have t: "t = brk s" using assms(6,7) by (cases rule: malloc_cases) auto
  define n where "n = \<lparr>t_key = msec (clock s (ticks s)) + tmo, t_deleted = False, t_handler = Some H_zv_http_close_conn, t_rq = a\<rparr>"
  define s2 where "s2 = (set_req a (r\<lparr>r_timer := t\<rparr>) (zv_time_update s1))\<lparr>tnodes := (tnodes s)(t \<mapsto> n)\<rparr>"
  obtain ok s3 where s3: "alloc_answer s2 = (ok, s3)" by (cases "alloc_answer s2")
  define s' where "s' = s3\<lparr>zv_timer := snd (zv_pq_insert ok ((tnodes s)(t \<mapsto> n)) (zv_timer s) t)\<rparr>"
  have s1: "s1 = s\<lparr>mallocs := tl (mallocs s), brk := Suc (brk s)\<rparr>"
    using assms(6,7) by (auto simp: malloc_def split: list.splits bool.splits)
  have s2: "s2 = s\<lparr>mallocs := tl (mallocs s), brk := Suc (brk s), zv_current_msec := msec (clock s (ticks s)), ticks := ticks s + 1,
      reqs := (reqs s)(a \<mapsto> r\<lparr>r_timer := t\<rparr>), tnodes := (tnodes s)(t \<mapsto> n)\<rparr>"
    by (simp add: s2_def s1 zv_time_update_def set_req_def)
  have s3': "s3 = s2\<lparr>mallocs := tl (mallocs s2)\<rparr>" using s3 by (auto simp: alloc_answer_def split: list.splits)
  have "zv_timer s2 = zv_timer s" "zv_current_msec (zv_time_update s1) = msec (clock s (ticks s))" "tnodes s1 = tnodes s" "reqs s1 = reqs s"
    by (simp_all add: s2 s1 zv_time_update_def)
  then have eq: "zv_add_timer a tmo (Some H_zv_http_close_conn) s = Ok s'"
    using assms(3,6,7) s3 by (simp add: zv_add_timer_def Let_def set_req_def s2_def n_def s'_def s3') 
  have f: "tnodes s' = (tnodes s)(t \<mapsto> n)" "brk s' = Suc (brk s)" "reqs s' = (reqs s)(a \<mapsto> r\<lparr>r_timer := t\<rparr>)" "nxt s' = nxt s" "prv s' = prv s"
    "hdrs s' = hdrs s" "io s' = io s" "hc_free_count s' = hc_free_count s" "hc_inited s' = hc_inited s" "rc_free_count s' = rc_free_count s"
    "rc_inited s' = rc_inited s" "timer_mem.more s' = timer_mem.more s" "clock s' = clock s"
    "zv_timer s' = snd (zv_pq_insert ok ((tnodes s)(t \<mapsto> n)) (zv_timer s) t)"
    by (simp_all add: s'_def s3' s2)
  have rq: "req c s' = (if c = a then r\<lparr>r_timer := t\<rparr> else req c s)" for c by (simp add: req_def f)
  have r: "req a s = r" using assms(3) by (simp add: req_def)
  note queue = timer_inv_queue [OF assms(1)]
  have tn: "tnodes s t = None" "t \<notin># pq_items (zv_timer s)" using queue(3,5) t by (auto simp: dom_def)
  have q0: "pq_inv ((tnodes s)(t \<mapsto> n)) (zv_timer s)" by (rule pq_inv_keys [OF queue(1,2)]) (use tn(2) in auto)
  obtain rc q where ins: "zv_pq_insert ok ((tnodes s)(t \<mapsto> n)) (zv_timer s) t = (rc, q)" by fastforce
  have weak: "strict_weak (pq_comp (zv_timer s) ((tnodes s)(t \<mapsto> n)))" using strict_weak_timer by (simp add: queue(2))
  have q: "pq_inv ((tnodes s)(t \<mapsto> n)) q" "pq_comp q = timer_comp"
    "pq_items q = pq_items (zv_timer s) \<or> pq_items q = add_mset t (pq_items (zv_timer s))"
    using zv_pq_insert_spec [OF q0 weak ins] q0 queue(2) by (auto split: if_splits)
  have zq: "zv_timer s' = q" using ins f(14) by simp
  have "timer_inv s' own"
  proof (rule timer_invI)
    show "set_mset (pq_items (zv_timer s')) \<subseteq> dom (tnodes s')" using q(3) queue(3) by (auto simp: zq f)
    show "count (pq_items (zv_timer s')) u \<le> 1" for u
      using q(3) queue(4) [of u] tn(2) by (auto simp: zq not_in_iff)
    show "\<forall>u \<in> dom (tnodes s'). 1 \<le> u \<and> u < brk s'" using queue(5) t assms(5) by (auto simp: f less_Suc_eq)
  next
    fix u m assume m: "tnodes s' u = Some m" "\<not> t_deleted m"
    show "t_handler m = Some H_zv_http_close_conn \<and> t_rq m \<in> own \<and> r_timer (req (t_rq m) s') = u"
    proof (cases "u = t")
      case True
      with m assms(2) show ?thesis by (auto simp: f n_def rq)
    next
      case False
      then have m': "tnodes s u = Some m" using m by (simp add: f)
      have "t_rq m \<noteq> a" using timer_inv_no_timer [OF assms(1) _ m' m(2)] r assms(4) by auto
      with timer_inv_live [OF assms(1) m' m(2)] show ?thesis by (simp add: rq)
    qed
  next
    fix c assume c: "c \<in> own" "r_timer (req c s') \<noteq> NULL"
    show "\<exists>m. tnodes s' (r_timer (req c s')) = Some m \<and> \<not> t_deleted m \<and> t_rq m = c"
    proof (cases "c = a")
      case True
      then show ?thesis by (simp add: rq f n_def)
    next
      case False
      with c have "r_timer (req c s) \<noteq> NULL" by (simp add: rq)
      from timer_inv_timer [OF assms(1) c(1) this] obtain m where m: "tnodes s (r_timer (req c s)) = Some m" "\<not> t_deleted m" "t_rq m = c" .
      with tn(1) have "r_timer (req c s) \<noteq> t" by auto
      with m False show ?thesis by (intro exI [of _ m]) (simp add: rq f)
    qed
  qed (use q zq f in simp_all)
  moreover have "t_key (the (tnodes s' t)) = msec (clock s (ticks s)) + tmo" by (simp add: f n_def)
  moreover have "set (mallocs s') \<subseteq> set (mallocs s)"
    by (cases "mallocs s"; cases "tl (mallocs s)") (auto simp: s'_def s3' s2)
  ultimately show thesis using eq f by (intro that [of s']) simp_all
qed


text \<open>Removing the front of the queue, after the request of a live node has gone.\<close>

lemma pop_timer_fields [simp]:
  "tnodes (pop_timer t s) = (tnodes s)(t := None)" "reqs (pop_timer t s) = reqs s" "brk (pop_timer t s) = brk s" "io (pop_timer t s) = io s"
  "nxt (pop_timer t s) = nxt s" "prv (pop_timer t s) = prv s" "hdrs (pop_timer t s) = hdrs s" "hc_free_count (pop_timer t s) = hc_free_count s"
  "hc_inited (pop_timer t s) = hc_inited s" "rc_free_count (pop_timer t s) = rc_free_count s" "rc_inited (pop_timer t s) = rc_inited s"
  "zv_current_msec (pop_timer t s) = zv_current_msec s" "clock (pop_timer t s) = clock s" "ticks (pop_timer t s) = ticks s"
  "timer_mem.more (pop_timer t s) = timer_mem.more s"
  by (simp_all add: pop_timer_def alloc_answer_def split: list.split)

lemma pop_timer_items:
  assumes "pq_inv (tnodes s) (zv_timer s)" and "pq_comp (zv_timer s) = timer_comp" and "zv_pq_min (zv_timer s) = Some t"
  shows "pq_inv (tnodes s) (zv_timer (pop_timer t s))" "pq_comp (zv_timer (pop_timer t s)) = timer_comp"
    "pq_items (zv_timer (pop_timer t s)) = pq_items (zv_timer s) - {#t#}" "t \<in># pq_items (zv_timer s)"
    "\<And>u. u \<in># pq_items (zv_timer s) \<Longrightarrow> t_key (the (tnodes s t)) \<le> t_key (the (tnodes s u))"
proof -
  have weak: "strict_weak (pq_comp (zv_timer s) (tnodes s))" using strict_weak_timer by (simp add: assms(2))
  have min: "t \<in># pq_items (zv_timer s) \<and> (\<forall>y \<in># pq_items (zv_timer s). \<not> timer_comp (tnodes s) y t)"
    using zv_pq_min_spec(2) [OF assms(1) weak assms(3)] by (simp add: assms(2))
  obtain rc q where d: "zv_pq_delmin (fst (alloc_answer s)) (tnodes s) (zv_timer s) = (rc, q)" by fastforce
  have "pq_items (zv_timer s) \<noteq> {#}" using min by auto
  from zv_pq_delmin_spec [OF assms(1) weak this d] assms(2,3)
  show "pq_inv (tnodes s) (zv_timer (pop_timer t s))" "pq_comp (zv_timer (pop_timer t s)) = timer_comp"
    "pq_items (zv_timer (pop_timer t s)) = pq_items (zv_timer s) - {#t#}"
    by (simp_all add: pop_timer_queue d)
  show "t \<in># pq_items (zv_timer s)" using min by simp
  show "\<And>u. u \<in># pq_items (zv_timer s) \<Longrightarrow> t_key (the (tnodes s t)) \<le> t_key (the (tnodes s u))"
    using min by (simp add: timer_comp_def linorder_not_less)
qed

lemma pop_timer_inv:
  assumes "timer_inv s own" and "own' \<subseteq> own" and "zv_pq_min (zv_timer s) = Some t"
    and "zv_timer s1 = zv_timer s" and "tnodes s1 = tnodes s" and "brk s \<le> brk s1"
    and rq: "\<And>c. c \<in> own' \<Longrightarrow> r_timer (req c s1) = r_timer (req c s) \<and> r_timer (req c s) \<noteq> t"
    and live: "\<And>u n. u \<noteq> t \<Longrightarrow> tnodes s u = Some n \<Longrightarrow> \<not> t_deleted n \<Longrightarrow> t_rq n \<in> own'"
  shows "timer_inv (pop_timer t s1) own'"
proof -
  note queue = timer_inv_queue [OF assms(1)]
  note pop = pop_timer_items [of s1 t, unfolded assms(4,5), OF queue(1,2) assms(3)]
  have req: "req c (pop_timer t s1) = req c s1" for c by (simp add: req_def)
  show ?thesis
  proof (rule timer_invI)
    have nt: "t \<notin># pq_items (zv_timer (pop_timer t s1))" using queue(4) [of t] by (auto simp: pop(3) in_diff_count)
    show "pq_inv (tnodes (pop_timer t s1)) (zv_timer (pop_timer t s1))"
      by (rule pq_inv_keys [OF pop(1,2)]) (use nt assms(5) in auto)
    show "set_mset (pq_items (zv_timer (pop_timer t s1))) \<subseteq> dom (tnodes (pop_timer t s1))"
    proof
      fix u assume u: "u \<in># pq_items (zv_timer (pop_timer t s1))"
      then have "u \<noteq> t" "u \<in># pq_items (zv_timer s)" using nt by (auto simp: pop(3) dest: in_diffD)
      then show "u \<in> dom (tnodes (pop_timer t s1))" using queue(3) assms(5) by auto
    qed
    show "count (pq_items (zv_timer (pop_timer t s1))) u \<le> 1" for u using queue(4) [of u] by (simp add: pop(3))
    show "\<forall>u \<in> dom (tnodes (pop_timer t s1)). 1 \<le> u \<and> u < brk (pop_timer t s1)"
      using below_mono [OF queue(5) assms(6)] assms(5) by auto
  next
    fix u n assume n: "tnodes (pop_timer t s1) u = Some n" "\<not> t_deleted n"
    then have u: "tnodes s u = Some n" "u \<noteq> t" using assms(5) by (auto split: if_splits)
    from live [OF u(2,1) n(2)] timer_inv_live [OF assms(1) u(1) n(2)] rq [of "t_rq n"]
    show "t_handler n = Some H_zv_http_close_conn \<and> t_rq n \<in> own' \<and> r_timer (req (t_rq n) (pop_timer t s1)) = u" by (simp add: req)
  next
    fix c assume c: "c \<in> own'" "r_timer (req c (pop_timer t s1)) \<noteq> NULL"
    then have c': "r_timer (req c s) \<noteq> NULL" "c \<in> own" using rq [OF c(1)] assms(2) by (auto simp: req)
    obtain n where "tnodes s (r_timer (req c s)) = Some n" "\<not> t_deleted n" "t_rq n = c"
      using timer_inv_timer [OF assms(1) c'(2,1)] .
    then show "\<exists>n. tnodes (pop_timer t s1) (r_timer (req c (pop_timer t s1))) = Some n \<and> \<not> t_deleted n \<and> t_rq n = c"
      using rq [OF c(1)] assms(5) by (intro exI [of _ n]) (simp add: req)
  qed (use pop in simp)
qed

text \<open>The invariant of a worker: its memory and its timers.\<close>

definition worker_inv :: "'z timer_mem_scheme \<Rightarrow> addr set \<Rightarrow> bool" where
  "worker_inv s own \<longleftrightarrow> (\<exists>xs fs ds L. mem_inv s own xs fs ds L) \<and> timer_inv s own"

lemma worker_inv_own:
  assumes "worker_inv s own" and "a \<in> own"
  obtains r where "reqs s a = Some r" and "req a s = r" and "a \<noteq> NULL"
proof -
  from assms(1) obtain xs fs ds L where "mem_inv s own xs fs ds L" by (auto simp: worker_inv_def)
  from mem_inv_own [OF this assms(2)] show thesis using that by (auto simp: req_def)
qed

lemma worker_inv_close:
  assumes "worker_inv s own" and "a \<in> own" and "r_timer (req a s) = NULL"
  obtains s' where "zv_http_close_conn a s = Some s'" and "worker_inv s' (own - {a})"
    and "reqs s' = (reqs s)(a \<mapsto> closed_request (req a s) (io s))" and "io s' = closed_io (req a s) (io s)"
    and "brk s' = brk s" and "mallocs s' = mallocs s"
proof -
  from assms(1) obtain xs fs ds L where inv: "mem_inv s own xs fs ds L" and ti: "timer_inv s own" by (auto simp: worker_inv_def)
  from inv assms(2) obtain s' xs' where s': "zv_http_close_conn a s = Some s'" "mem_inv s' (own - {a}) xs' fs (a # ds) L"
    "reqs s' = (reqs s)(a \<mapsto> closed_request (req a s) (io s))" "io s' = closed_io (req a s) (io s)" "brk s' = brk s" "mallocs s' = mallocs s"
    by (rule mem_inv_close_conn)
  note same = close_conn_timer [OF s'(1)]
  note queue = timer_inv_queue [OF ti]
  have rq: "req c s' = req c s" if "c \<noteq> a" for c using that by (simp add: req_def s')
  have "timer_inv s' (own - {a})"
  proof (rule timer_invI)
    fix t n assume n: "tnodes s' t = Some n" "\<not> t_deleted n"
    then have n': "tnodes s t = Some n" using same by simp
    from timer_inv_live [OF ti n' n(2)] timer_inv_no_timer [OF ti assms(3) n' n(2)]
    show "t_handler n = Some H_zv_http_close_conn \<and> t_rq n \<in> own - {a} \<and> r_timer (req (t_rq n) s') = t" by (simp add: rq)
  next
    fix c assume c: "c \<in> own - {a}" "r_timer (req c s') \<noteq> NULL"
    then have "r_timer (req c s) \<noteq> NULL" "c \<in> own" "c \<noteq> a" by (auto simp: rq)
    from timer_inv_timer [OF ti this(2,1)] obtain n where "tnodes s (r_timer (req c s)) = Some n" "\<not> t_deleted n" "t_rq n = c" .
    with \<open>c \<noteq> a\<close> same show "\<exists>n. tnodes s' (r_timer (req c s')) = Some n \<and> \<not> t_deleted n \<and> t_rq n = c" by (auto simp: rq)
  qed (use queue same s' in simp_all)
  with s' show thesis using that [of s'] by (auto simp: worker_inv_def)
qed


section \<open>Expiry\<close>

lemma worker_inv_cong:
  assumes "worker_inv s own" and "nxt s' = nxt s" and "prv s' = prv s" and "dom (reqs s') = dom (reqs s)"
    and "hdrs s' = hdrs s" and "hc_free_count s' = hc_free_count s" and "hc_inited s' = hc_inited s"
    and "rc_free_count s' = rc_free_count s" and "rc_inited s' = rc_inited s" and "brk s \<le> brk s'"
    and "zv_timer s' = zv_timer s" and "tnodes s' = tnodes s" and "\<And>a. a \<in> own \<Longrightarrow> r_timer (req a s') = r_timer (req a s)"
  shows "worker_inv s' own"
proof -
  from assms(1) obtain xs fs ds L where "mem_inv s own xs fs ds L" and ti: "timer_inv s own" by (auto simp: worker_inv_def)
  from mem_inv_cong [OF this(1) assms(2-10)] timer_inv_cong [OF ti assms(11,12,10,13)] show ?thesis by (auto simp: worker_inv_def)
qed

lemma worker_inv_time_update: "worker_inv s own \<Longrightarrow> worker_inv (zv_time_update s) own"
  by (erule worker_inv_cong) (simp_all add: zv_time_update_def req_def)

text \<open>The front of a non-empty queue is an allocated node.\<close>

lemma worker_inv_front:
  assumes "worker_inv s own" and "\<not> zv_pq_is_empty (zv_timer s)"
  obtains t n where "zv_pq_min (zv_timer s) = Some t" and "tnodes s t = Some n"
proof -
  have ti: "timer_inv s own" using assms(1) by (simp add: worker_inv_def)
  note queue = timer_inv_queue [OF ti]
  obtain t where t: "zv_pq_min (zv_timer s) = Some t" using assms(2) by (simp add: zv_pq_min_def)
  from pop_timer_items(4) [OF queue(1,2) t] queue(3) obtain n where "tnodes s t = Some n" by auto
  with t show thesis by (rule that)
qed

lemma worker_inv_pop_deleted:
  assumes "worker_inv s own" and "zv_pq_min (zv_timer s) = Some t" and "tnodes s t = Some n" and "t_deleted n"
  shows "worker_inv (pop_timer t s) own"
proof -
  from assms(1) obtain xs fs ds L where inv: "mem_inv s own xs fs ds L" and ti: "timer_inv s own" by (auto simp: worker_inv_def)
  have "mem_inv (pop_timer t s) own xs fs ds L" by (rule mem_inv_cong [OF inv]) simp_all
  moreover have "timer_inv (pop_timer t s) own"
  proof (rule pop_timer_inv [OF ti _ assms(2)])
    fix c assume "c \<in> own"
    then have "r_timer (req c s) \<noteq> t"
      using timer_inv_timer [OF ti, of c] timer_inv_nonnull [OF ti] assms(3,4) by (metis option.distinct(1) option.inject)
    then show "r_timer (req c s) = r_timer (req c s) \<and> r_timer (req c s) \<noteq> t" by simp
  qed (use timer_inv_live(2) [OF ti] in simp_all)
  ultimately show ?thesis by (auto simp: worker_inv_def)
qed

lemma worker_inv_expire:
  assumes "worker_inv s own" and "zv_pq_min (zv_timer s) = Some t" and "tnodes s t = Some n" and "\<not> t_deleted n"
  obtains s' where "run_handler n s = Ok s'" and "worker_inv (pop_timer t s') (own - {t_rq n})" and "t_rq n \<in> own"
    and "\<And>c. c \<noteq> t_rq n \<Longrightarrow> reqs s' c = reqs s c"
proof -
  let ?a = "t_rq n"
  from assms(1) obtain xs fs ds L where inv: "mem_inv s own xs fs ds L" and ti: "timer_inv s own" by (auto simp: worker_inv_def)
  note live = timer_inv_live [OF ti assms(3,4)]
  obtain r where r: "reqs s ?a = Some r" "req ?a s = r" using worker_inv_own [OF assms(1) live(2)] by blast
  let ?s = "set_req ?a (r\<lparr>r_timer := NULL\<rparr>) s"
  have inv1: "mem_inv ?s own xs fs ds L" by (rule mem_inv_set_req [OF inv live(2)])
  from inv1 live(2) obtain s' xs' where s': "zv_http_close_conn ?a ?s = Some s'" "mem_inv s' (own - {?a}) xs' fs (?a # ds) L"
    "reqs s' = (reqs ?s)(?a \<mapsto> closed_request (req ?a ?s) (io ?s))" "brk s' = brk ?s"
    by (rule mem_inv_close_conn)
  have run: "run_handler n s = Ok s'" using live(1) r(1) s'(1) by (simp add: run_handler_def)
  note same = run_handler_timer [OF run]
  have rq: "req c s' = req c s" if "c \<noteq> ?a" for c using that by (simp add: req_def s')
  have "timer_inv (pop_timer t s') (own - {?a})"
  proof (rule pop_timer_inv [OF ti _ assms(2)])
    fix c assume c: "c \<in> own - {?a}"
    have "r_timer (req c s) \<noteq> t"
    proof
      assume t: "r_timer (req c s) = t"
      then have "r_timer (req c s) \<noteq> NULL" using assms(3) timer_inv_nonnull [OF ti] by (metis option.distinct(1))
      with timer_inv_timer [OF ti, of c] c t assms(3) show False by auto
    qed
    with c show "r_timer (req c s') = r_timer (req c s) \<and> r_timer (req c s) \<noteq> t" by (simp add: rq)
  next
    fix u m assume u: "u \<noteq> t" "tnodes s u = Some m" "\<not> t_deleted m"
    from timer_inv_live [OF ti u(2,3)] live(3) u(1) show "t_rq m \<in> own - {?a}" by auto
  qed (use same s'(4) in simp_all)
  moreover have "mem_inv (pop_timer t s') (own - {?a}) xs' fs (?a # ds) L" by (rule mem_inv_cong [OF s'(2)]) simp_all
  ultimately show thesis using that [OF run _ live(2)] s'(3) by (auto simp: worker_inv_def)
qed


text \<open>
  What a run of the expiry loop from \<open>s\<close> to \<open>s'\<close> may do: only requests whose time had come by then are gone, and the live nodes of the
  others stay where they are.
\<close>

definition expired :: "'z timer_mem_scheme \<Rightarrow> addr set \<Rightarrow> 'z timer_mem_scheme \<Rightarrow> addr set \<Rightarrow> bool" where
  "expired s own s' own' \<longleftrightarrow>
     own' \<subseteq> own \<and> (\<forall>a \<in> own'. reqs s' a = reqs s a) \<and> zv_current_msec s \<le> zv_current_msec s' \<and>
     (\<forall>a \<in> own - own'. r_timer (req a s) \<noteq> NULL \<and> t_key (the (tnodes s (r_timer (req a s)))) \<le> zv_current_msec s') \<and>
     (\<forall>u n. tnodes s u = Some n \<and> \<not> t_deleted n \<and> t_rq n \<in> own' \<longrightarrow>
        tnodes s' u = Some n \<and> (u \<in># pq_items (zv_timer s) \<longrightarrow> u \<in># pq_items (zv_timer s')))"

text \<open>The clock never goes back.\<close>

definition clock_ok :: "'z timer_mem_scheme \<Rightarrow> bool" where
  "clock_ok s \<longleftrightarrow> (\<forall>i j. i \<le> j \<longrightarrow> msec (clock s i) \<le> msec (clock s j)) \<and> (\<forall>i \<ge> ticks s. zv_current_msec s \<le> msec (clock s i))"

lemma clock_ok_update: "clock_ok s \<Longrightarrow> clock_ok (zv_time_update s)"
  by (simp add: clock_ok_def zv_time_update_def)

lemma clock_ok_pop [simp]: "clock_ok (pop_timer t s) = clock_ok s"
  by (simp add: clock_ok_def)

lemma expired_refl: "expired s own s own"
  by (simp add: expired_def)

lemma expired_update: "clock_ok s \<Longrightarrow> expired s own (zv_time_update s) own"
  by (simp add: expired_def clock_ok_def) (simp add: zv_time_update_def)

lemma expired_timer:
  assumes "timer_inv s own" and "expired s own s1 own1" and "a \<in> own1" and "r_timer (req a s) \<noteq> NULL"
  shows "req a s1 = req a s" and "tnodes s1 (r_timer (req a s)) = tnodes s (r_timer (req a s))"
proof -
  show "req a s1 = req a s" using assms(2,3) by (simp add: expired_def req_def)
  have "a \<in> own" using assms(2,3) by (auto simp: expired_def)
  from timer_inv_timer [OF assms(1) this assms(4)] obtain n where n: "tnodes s (r_timer (req a s)) = Some n" "\<not> t_deleted n" "t_rq n = a" .
  with assms(2,3) show "tnodes s1 (r_timer (req a s)) = tnodes s (r_timer (req a s))" unfolding expired_def by metis
qed

lemma expired_trans:
  assumes "timer_inv s own" and "expired s own s1 own1" and "expired s1 own1 s2 own2"
  shows "expired s own s2 own2"
proof -
  have sub: "own2 \<subseteq> own1" "own1 \<subseteq> own" "zv_current_msec s \<le> zv_current_msec s1" "zv_current_msec s1 \<le> zv_current_msec s2"
    using assms(2,3) by (simp_all add: expired_def)
  have "r_timer (req a s) \<noteq> NULL \<and> t_key (the (tnodes s (r_timer (req a s)))) \<le> zv_current_msec s2" if a: "a \<in> own" "a \<notin> own2" for a
  proof (cases "a \<in> own1")
    case True
    have same: "req a s1 = req a s" using assms(2) True by (simp add: expired_def req_def)
    from True a(2) assms(3) have e: "r_timer (req a s1) \<noteq> NULL" "t_key (the (tnodes s1 (r_timer (req a s1)))) \<le> zv_current_msec s2"
      by (auto simp: expired_def)
    then show ?thesis using expired_timer(2) [OF assms(1,2) True] same by simp
  next
    case False
    with a assms(2) have "r_timer (req a s) \<noteq> NULL" "t_key (the (tnodes s (r_timer (req a s)))) \<le> zv_current_msec s1"
      by (auto simp: expired_def)
    with sub show ?thesis by (metis order_trans)
  qed
  moreover have "\<forall>a \<in> own2. reqs s2 a = reqs s a" using assms(2,3) sub(1) by (auto simp: expired_def)
  moreover have "\<forall>u n. tnodes s u = Some n \<and> \<not> t_deleted n \<and> t_rq n \<in> own2 \<longrightarrow>
      tnodes s2 u = Some n \<and> (u \<in># pq_items (zv_timer s) \<longrightarrow> u \<in># pq_items (zv_timer s2))"
    using assms(2,3) sub(1) unfolding expired_def by blast
  ultimately show ?thesis using sub unfolding expired_def by auto
qed

lemma expired_pop:
  assumes "timer_inv s own" and "zv_pq_min (zv_timer s) = Some t" and "tnodes s t = Some n"
    and "zv_timer s1 = zv_timer s" and "tnodes s1 = tnodes s" and "zv_current_msec s1 = zv_current_msec s"
    and "own1 \<subseteq> own" and "\<forall>c \<in> own1. reqs s1 c = reqs s c"
    and "\<forall>a \<in> own - own1. r_timer (req a s) = t \<and> t_key n \<le> zv_current_msec s" and "t_deleted n \<or> t_rq n \<notin> own1"
  shows "expired s own (pop_timer t s1) own1"
proof -
  note queue = timer_inv_queue [OF assms(1)]
  have items: "pq_items (zv_timer (pop_timer t s1)) = pq_items (zv_timer s) - {#t#}"
    using pop_timer_items(3) [of s1 t] queue(1,2) assms(2,4,5) by simp
  have "t \<noteq> NULL" using timer_inv_nonnull [OF assms(1)] assms(3) by (metis option.distinct(1))
  then have "\<forall>a \<in> own - own1. r_timer (req a s) \<noteq> NULL \<and> t_key (the (tnodes s (r_timer (req a s)))) \<le> zv_current_msec (pop_timer t s1)"
    using assms(3,6,9) by auto
  moreover have "u \<noteq> t" if "tnodes s u = Some m" "\<not> t_deleted m" "t_rq m \<in> own1" for u m using that assms(3,10) by auto
  ultimately show ?thesis using assms(5-8) by (auto simp: expired_def items in_diff_count)
qed

text \<open>The loop as a whole.\<close>

lemma handle_expire_spec:
  "worker_inv s own \<Longrightarrow> clock_ok s \<Longrightarrow>
   \<exists>s' own'. zv_handle_expire_timers s = Ok s' \<and> worker_inv s' own' \<and> expired s own s' own' \<and>
     (zv_pq_is_empty (zv_timer s') \<or> (\<exists>t n. zv_pq_min (zv_timer s') = Some t \<and> tnodes s' t = Some n \<and> zv_current_msec s' < t_key n))"
proof (induction s arbitrary: own rule: zv_handle_expire_timers.induct)
  case (1 s)
  show ?case
  proof (cases "zv_pq_is_empty (zv_timer s)")
    case True
    then show ?thesis using 1 expired_refl by (auto simp: zv_handle_expire_timers.simps [of s])
  next
    case ne: False
    define s1 where "s1 = zv_time_update s"
    have inv1: "worker_inv s1 own" "clock_ok s1" "expired s own s1 own"
      unfolding s1_def using 1(3,4) worker_inv_time_update clock_ok_update expired_update by blast+
    have ne1: "\<not> zv_pq_is_empty (zv_timer s1)" using ne by (simp add: s1_def)
    obtain t n where t: "zv_pq_min (zv_timer s1) = Some t" "tnodes s1 t = Some n" using worker_inv_front [OF inv1(1) ne1] .
    have ti: "timer_inv s own" "timer_inv s1 own" using 1(3) inv1(1) by (simp_all add: worker_inv_def)
    have eq: "zv_handle_expire_timers s = (if t_deleted n then zv_handle_expire_timers (pop_timer t s1)
        else if t_key n > zv_current_msec s1 then Ok s1
        else (case run_handler n s1 of Ok s \<Rightarrow> zv_handle_expire_timers (pop_timer t s) | Exit c \<Rightarrow> Exit c | Crash \<Rightarrow> Crash | Hang \<Rightarrow> Hang))"
      using ne t by (subst zv_handle_expire_timers.simps) (simp add: s1_def Let_def)
    consider (del) "t_deleted n" | (early) "\<not> t_deleted n" "t_key n > zv_current_msec s1" | (due) "\<not> t_deleted n" "\<not> t_key n > zv_current_msec s1"
      by blast
    then show ?thesis
    proof cases
      case del
      have i2: "worker_inv (pop_timer t s1) own" "clock_ok (pop_timer t s1)"
        using worker_inv_pop_deleted [OF inv1(1) t del] inv1(2) by simp_all
      have e2: "expired s1 own (pop_timer t s1) own" by (rule expired_pop [OF ti(2) t]) (use del in simp_all)
      from 1(1) [OF ne s1_def t del i2] obtain s' own' where "zv_handle_expire_timers (pop_timer t s1) = Ok s'" "worker_inv s' own'"
        "expired (pop_timer t s1) own s' own'" "zv_pq_is_empty (zv_timer s') \<or>
           (\<exists>t n. zv_pq_min (zv_timer s') = Some t \<and> tnodes s' t = Some n \<and> zv_current_msec s' < t_key n)" by blast
      moreover have "timer_inv (pop_timer t s1) own" using i2(1) by (simp add: worker_inv_def)
      ultimately show ?thesis using eq del inv1(3) e2 ti by (metis expired_trans)
    next
      case early
      then show ?thesis using eq inv1 t by auto
    next
      case due
      obtain s2 where s2: "run_handler n s1 = Ok s2" "worker_inv (pop_timer t s2) (own - {t_rq n})" "t_rq n \<in> own"
        "\<And>c. c \<noteq> t_rq n \<Longrightarrow> reqs s2 c = reqs s1 c"
        using worker_inv_expire [OF inv1(1) t due(1)] by metis
      note same = run_handler_timer [OF s2(1)]
      have c2: "clock_ok (pop_timer t s2)" using inv1(2) same by (simp add: clock_ok_def)
      have e2: "expired s1 own (pop_timer t s2) (own - {t_rq n})"
      proof (rule expired_pop [OF ti(2) t])
        show "\<forall>a \<in> own - (own - {t_rq n}). r_timer (req a s1) = t \<and> t_key n \<le> zv_current_msec s1"
          using timer_inv_live(3) [OF ti(2) t(2) due(1)] due(2) by auto
      qed (use same s2(4) in auto)
      from 1(2) [OF ne s1_def t due s2(1,2) c2] obtain s' own' where "zv_handle_expire_timers (pop_timer t s2) = Ok s'" "worker_inv s' own'"
        "expired (pop_timer t s2) (own - {t_rq n}) s' own'" "zv_pq_is_empty (zv_timer s') \<or>
           (\<exists>t n. zv_pq_min (zv_timer s') = Some t \<and> tnodes s' t = Some n \<and> zv_current_msec s' < t_key n)" by blast
      then show ?thesis using eq due s2(1) inv1(3) e2 ti expired_trans [OF ti(1) inv1(3) e2] by (auto intro: expired_trans)
    qed
  qed
qed


section \<open>Operations on the whole worker\<close>

lemma worker_inv_brk: "worker_inv s own \<Longrightarrow> 1 \<le> brk s"
  by (auto simp: worker_inv_def mem_inv_def hc_inv_def)

lemma worker_inv_del_timer:
  assumes "worker_inv s own" and "a \<in> own" and "r_timer (req a s) \<noteq> NULL"
  obtains s' where "zv_del_timer a s = Ok s'" and "worker_inv s' own" and "reqs s' = (reqs s)(a \<mapsto> (req a s)\<lparr>r_timer := NULL\<rparr>)"
    and "io s' = io s" and "mallocs s' = mallocs s" and "clock s' = clock s" and "timer_mem.more s' = timer_mem.more s"
proof -
  from assms(1) obtain xs fs ds L where inv: "mem_inv s own xs fs ds L" and ti: "timer_inv s own" by (auto simp: worker_inv_def)
  obtain r where r: "reqs s a = Some r" "req a s = r" using worker_inv_own [OF assms(1,2)] by blast
  obtain s' n where s': "zv_del_timer a s = Ok s'" "timer_inv s' own" "reqs s' = (reqs s)(a \<mapsto> r\<lparr>r_timer := NULL\<rparr>)"
    "s' = set_req a (r\<lparr>r_timer := NULL\<rparr>) ((zv_time_update s)\<lparr>tnodes := (tnodes s)(r_timer r \<mapsto> n)\<rparr>)"
    using timer_inv_del_timer [OF ti assms(2) r(1)] assms(3) r(2) by metis
  have "mem_inv s' own xs fs ds L"
    by (rule mem_inv_cong [OF inv]) (use r(1) in \<open>auto simp: s'(4) zv_time_update_def set_req_def\<close>)
  then show thesis using that [of s'] s' r by (auto simp: worker_inv_def zv_time_update_def set_req_def)
qed

lemma worker_inv_add_timer:
  assumes "worker_inv s own" and "a \<in> own" and "r_timer (req a s) = NULL" and "\<forall>m \<in> set (mallocs s). m"
  obtains s' t where "zv_add_timer a tmo (Some H_zv_http_close_conn) s = Ok s'" and "worker_inv s' own"
    and "reqs s' = (reqs s)(a \<mapsto> (req a s)\<lparr>r_timer := t\<rparr>)" and "t \<noteq> NULL"
    and "io s' = io s" and "\<forall>m \<in> set (mallocs s'). m" and "clock s' = clock s" and "timer_mem.more s' = timer_mem.more s"
proof -
  from assms(1) obtain xs fs ds L where inv: "mem_inv s own xs fs ds L" and ti: "timer_inv s own" by (auto simp: worker_inv_def)
  obtain r where r: "reqs s a = Some r" "req a s = r" using worker_inv_own [OF assms(1,2)] by blast
  obtain t s1 where m: "malloc s = (t, s1)" by (cases "malloc s")
  have t: "t \<noteq> NULL" using m assms(4) worker_inv_brk [OF assms(1)] by (auto simp: malloc_def split: list.splits bool.splits)
  have rt: "r_timer r = NULL" using assms(3) r(2) by simp
  obtain s' where s': "zv_add_timer a tmo (Some H_zv_http_close_conn) s = Ok s'" "timer_inv s' own"
    "reqs s' = (reqs s)(a \<mapsto> r\<lparr>r_timer := t\<rparr>)" "nxt s' = nxt s" "prv s' = prv s" "hdrs s' = hdrs s" "brk s \<le> brk s'" "io s' = io s"
    "hc_free_count s' = hc_free_count s" "hc_inited s' = hc_inited s" "rc_free_count s' = rc_free_count s" "rc_inited s' = rc_inited s"
    "timer_mem.more s' = timer_mem.more s" "clock s' = clock s" "set (mallocs s') \<subseteq> set (mallocs s)"
    using timer_inv_add_timer [OF ti assms(2) r(1) rt worker_inv_brk [OF assms(1)] m t, of tmo] by metis
  have "mem_inv s' own xs fs ds L" by (rule mem_inv_cong [OF inv]) (use r(1) s' in \<open>auto\<close>)
  then show thesis using that [of s' t] s' r t assms(4) by (auto simp: worker_inv_def)
qed

lemma worker_inv_get:
  assumes "worker_inv s own" and "zv_http_request_get fd epfd cf s = (a, s')"
  shows "if a = NULL then worker_inv s' own
         else a \<notin> own \<and> worker_inv s' (insert a own) \<and> (\<exists>r. reqs s' = (reqs s)(a \<mapsto> r) \<and> fresh_conn fd r)"
proof -
  from assms(1) obtain xs fs ds L where inv: "mem_inv s own xs fs ds L" and ti: "timer_inv s own" by (auto simp: worker_inv_def)
  note get = mem_inv_get [OF inv assms(2)]
  then have fr: "brk s \<le> brk s'" "cache_mem.more s' = cache_mem.more s" by (simp_all add: rc_frame_def)
  then have same: "zv_timer s' = zv_timer s" "tnodes s' = tnodes s" by (cases s; cases s'; simp)+
  show ?thesis
  proof (cases "a = NULL")
    case True
    with get have "mem_inv s' own xs fs ds L" "reqs s' = reqs s" by auto
    moreover have "timer_inv s' own" by (rule timer_inv_cong [OF ti same fr(1)]) (simp add: req_def \<open>reqs s' = reqs s\<close>)
    ultimately show ?thesis using True by (auto simp: worker_inv_def)
  next
    case False
    with get obtain fs' r where g: "a \<notin> own" "mem_inv s' (insert a own) xs fs' ds (L(a := []))" "reqs s' = (reqs s)(a \<mapsto> r)" "fresh_conn fd r"
      by auto
    have ti': "timer_inv s' own" by (rule timer_inv_cong [OF ti same fr(1)]) (use g(1,3) in \<open>auto simp: req_def\<close>)
    have "timer_inv s' (insert a own)"
    proof (rule timer_invI)
      fix c assume c: "c \<in> insert a own" "r_timer (req c s') \<noteq> NULL"
      then have "c \<in> own" using g(3,4) by (auto simp: req_def fresh_conn_def)
      from timer_inv_timer [OF ti' this c(2)] show "\<exists>n. tnodes s' (r_timer (req c s')) = Some n \<and> \<not> t_deleted n \<and> t_rq n = c" by metis
    qed (use timer_inv_queue [OF ti'] timer_inv_live [OF ti'] in auto)
    with False g show ?thesis by (auto simp: worker_inv_def)
  qed
qed

section \<open>Properties\<close>

text \<open>
  C19. Handling expired timers: in every consistent state of a worker, and for a clock that does not run backwards, the loop ends without touching a freed object;
  every connection it closed had a timer whose time had come; every connection that is left with a timer in the queue has time left; the
  requests that stay are unchanged, and the state is consistent again.
\<close>

theorem expire_timers_correct:
  assumes "worker_inv s own" and "clock_ok s"
  shows "\<exists>s' own'. zv_handle_expire_timers s = Ok s' \<and> worker_inv s' own' \<and> own' \<subseteq> own \<and> (\<forall>a \<in> own'. reqs s' a = reqs s a) \<and>
     (\<forall>a \<in> own - own'. r_timer (req a s) \<noteq> NULL \<and> t_key (the (tnodes s (r_timer (req a s)))) \<le> zv_current_msec s') \<and>
     (\<forall>a \<in> own'. r_timer (req a s) \<in># pq_items (zv_timer s) \<longrightarrow> zv_current_msec s' < t_key (the (tnodes s (r_timer (req a s)))))"
proof -
  from handle_expire_spec [OF assms] obtain s' own' where s': "zv_handle_expire_timers s = Ok s'" "worker_inv s' own'" "expired s own s' own'"
    and front: "zv_pq_is_empty (zv_timer s') \<or> (\<exists>t n. zv_pq_min (zv_timer s') = Some t \<and> tnodes s' t = Some n \<and> zv_current_msec s' < t_key n)"
    by blast
  have ti: "timer_inv s own" "timer_inv s' own'" using assms(1) s'(2) by (simp_all add: worker_inv_def)
  have "zv_current_msec s' < t_key (the (tnodes s (r_timer (req a s))))"
    if a: "a \<in> own'" and q: "r_timer (req a s) \<in># pq_items (zv_timer s)" for a
  proof -
    let ?u = "r_timer (req a s)"
    have "?u \<noteq> NULL" using q timer_inv_queue(3) [OF ti(1)] timer_inv_nonnull [OF ti(1)] by (metis domIff subsetD)
    have own: "a \<in> own" using a s'(3) by (auto simp: expired_def)
    obtain n where n: "tnodes s ?u = Some n" "\<not> t_deleted n" "t_rq n = a" using timer_inv_timer [OF ti(1) own \<open>?u \<noteq> NULL\<close>] .
    then have n': "tnodes s' ?u = Some n" "?u \<in># pq_items (zv_timer s')" using s'(3) a q unfolding expired_def by blast+
    have "pq_items (zv_timer s') \<noteq> {#}" using n'(2) by auto
    then have "\<not> zv_pq_is_empty (zv_timer s')" using timer_inv_queue(1) [OF ti(2)] by (auto simp: pq_items_def zv_pq_is_empty_def)
    with front obtain t m where t: "zv_pq_min (zv_timer s') = Some t" "tnodes s' t = Some m" "zv_current_msec s' < t_key m" by blast
    from pop_timer_items(5) [OF timer_inv_queue(1,2) [OF ti(2)] t(1) n'(2)] t(2,3) n'(1) n(1) show ?thesis by simp
  qed
  with s' show ?thesis unfolding expired_def by blast
qed


definition timer_start :: timer_mem where
  "timer_start = \<lparr>nxt = id, prv = id, mallocs = [], brk = 1, hdrs = Map.empty, hc_free_count = 0, hc_inited = False,
     reqs = Map.empty, io = quiet_kio [], rc_free_count = 0, rc_inited = False, rc_get_calls = 0, rc_get_hits = 0, rc_get_mallocs = 0,
     rc_put_calls = 0, rc_put_frees = 0, rc_max_free_count = 0, tnodes = Map.empty,
     zv_timer = \<lparr>pq_arr = replicate 11 0, pq_nalloc = 0, pq_size = 11, pq_comp = timer_comp\<rparr>, zv_current_msec = 0, ticks = 0,
     clock = \<lambda>n. (1, 0)\<rparr>"

lemma timer_start_inv: "worker_inv timer_start {}"
proof -
  have "mem_inv timer_start {} [] [] [] (\<lambda>_. [])" by (rule mem_inv_start) (simp_all add: timer_start_def)
  moreover have "timer_inv timer_start {}"
    by (rule timer_invI) (simp_all add: timer_start_def pq_inv_def pq_bounds_def heap_ok_def pq_items_def)
  ultimately show ?thesis by (auto simp: worker_inv_def)
qed

text \<open>A worker with one connection and its timer.\<close>

definition sample_worker :: timer_mem where
  "sample_worker = (case zv_add_timer 1 1500 (Some H_zv_http_close_conn) (snd (zv_http_request_get 5 3 sample_conf timer_start)) of
     Ok s \<Rightarrow> s | _ \<Rightarrow> timer_start)"

lemma sample_get:
  "fst (zv_http_request_get 5 3 sample_conf timer_start) = 1" "mallocs (snd (zv_http_request_get 5 3 sample_conf timer_start)) = []"
  "clock (snd (zv_http_request_get 5 3 sample_conf timer_start)) = (\<lambda>n. (1, 0))"
  "brk (snd (zv_http_request_get 5 3 sample_conf timer_start)) = 3"
  "ticks (snd (zv_http_request_get 5 3 sample_conf timer_start)) = 0"
  by (simp_all add: zv_http_request_get_def rc_take_def rc_init_once_def timer_start_def malloc_def list_ops_defs
      zv_init_request_t_def Let_def init_items_def init_parse_fields_def set_req_def req_def zero_request_def)

lemma sample_worker_inv:
  "worker_inv sample_worker {1} \<and> clock_ok sample_worker \<and> r_timer (req 1 sample_worker) \<noteq> NULL \<and> mallocs sample_worker = [] \<and>
   zv_add_timer 1 1500 (Some H_zv_http_close_conn) (snd (zv_http_request_get 5 3 sample_conf timer_start)) = Ok sample_worker"
proof -
  obtain a s where g: "zv_http_request_get 5 3 sample_conf timer_start = (a, s)"
    by (cases "zv_http_request_get 5 3 sample_conf timer_start")
  have a: "a = 1" "mallocs s = []" "clock s = (\<lambda>n. (1, 0))" using sample_get by (simp_all add: g)
  from worker_inv_get [OF timer_start_inv g] a(1) obtain r where s: "worker_inv s {1}" "reqs s 1 = Some r" "fresh_conn 5 r"
    by (auto simp: req_def)
  then have rt: "r_timer (req 1 s) = NULL" by (simp add: req_def fresh_conn_def)
  have pre: "\<forall>m \<in> set (mallocs s). m" using a(2) by simp
  obtain s' t where
    s': "zv_add_timer 1 1500 (Some H_zv_http_close_conn) s = Ok s'" "worker_inv s' {1}" "reqs s' = (reqs s)(1 \<mapsto> (req 1 s)\<lparr>r_timer := t\<rparr>)" "t \<noteq> NULL"
    "clock s' = clock s" using worker_inv_add_timer [OF s(1) _ rt pre, where tmo = 1500] by (metis insertI1)
  have "sample_worker = s'" using s'(1) by (simp add: sample_worker_def g)
  moreover have "zv_current_msec s' = msec (1, 0)" "mallocs s' = []"
    using s'(1) a(2,3) by (auto simp: zv_add_timer_def zv_time_update_def malloc_def Let_def set_req_def alloc_answer_def split: option.splits if_splits)
  ultimately show ?thesis using s' a by (auto simp: clock_ok_def req_def g)
qed

theorem expire_timers_correct_witness:
  "\<exists>s' own'. zv_handle_expire_timers sample_worker = Ok s' \<and> worker_inv s' own' \<and> own' \<subseteq> {1}"
  using expire_timers_correct [of sample_worker "{1}"] sample_worker_inv by blast



text \<open>The cast of the time difference to \<^verbatim>\<open>int\<close> loses nothing while the times are less than \<open>2 ^ 31\<close> apart.\<close>

lemma timeout_of_exact:
  assumes "\<bar>uint key - uint now\<bar> < 2 ^ 31"
  shows "timeout_of key now = max 0 (uint key - uint now)"
proof -
  have "sint (ucast (key - now) :: u32) = signed_take_bit 31 (uint (key - now))" by (simp add: signed_ucast_eq)
  also have "uint (key - now) = take_bit 64 (uint key - uint now)" by (simp only: uint_word_ariths take_bit_eq_mod) simp
  also have "signed_take_bit 31 (take_bit 64 (uint key - uint now)) = signed_take_bit 31 (uint key - uint now)"
    by (simp add: signed_take_bit_take_bit)
  also have "\<dots> = uint key - uint now" using assms by (intro signed_take_bit_int_eq_self) simp_all
  finally show ?thesis by (simp add: timeout_of_def Let_def max_def)
qed

lemma timeout_of_nonneg: "0 \<le> timeout_of key now"
  by (simp add: timeout_of_def Let_def)

text \<open>The live nodes in the queue.\<close>

definition live_timers :: "'z timer_mem_scheme \<Rightarrow> addr set" where
  "live_timers s = {t. t \<in># pq_items (zv_timer s) \<and> \<not> t_deleted (the (tnodes s t))}"

lemma live_timers_pop:
  assumes "timer_inv s own" and "zv_pq_min (zv_timer s) = Some t" and "tnodes s t = Some n" and "t_deleted n"
  shows "live_timers (pop_timer t s) = live_timers s"
proof -
  note queue = timer_inv_queue [OF assms(1)]
  note pop = pop_timer_items [OF queue(1,2) assms(2)]
  have rest: "u \<in># pq_items (zv_timer s) - {#t#} \<longleftrightarrow> u \<in># pq_items (zv_timer s) \<and> u \<noteq> t" for u
  proof (cases "u = t")
    case True
    then show ?thesis using queue(4) [of t] by (simp add: in_diff_count)
  qed (simp add: in_diff_count)
  show ?thesis
  proof (intro set_eqI)
    fix u
    show "u \<in> live_timers (pop_timer t s) \<longleftrightarrow> u \<in> live_timers s"
      using assms(3,4) by (cases "u = t") (simp_all add: live_timers_def pop(3) rest)
  qed
qed

lemma find_timer_spec:
  "worker_inv s own \<Longrightarrow>
   \<exists>time s'. zv_find_timer s = Ok (time, s') \<and> worker_inv s' own \<and> reqs s' = reqs s \<and> live_timers s' = live_timers s \<and>
     (\<forall>t \<in> live_timers s. tnodes s' t = tnodes s t) \<and>
     (if live_timers s = {} then time = ZV_TIMER_INFINITE
      else \<exists>t \<in> live_timers s. (\<forall>u \<in> live_timers s. t_key (the (tnodes s t)) \<le> t_key (the (tnodes s u))) \<and>
        time = timeout_of (t_key (the (tnodes s t))) (zv_current_msec s'))"
proof (induction s rule: zv_find_timer.induct)
  case (1 s)
  show ?case
  proof (cases "zv_pq_is_empty (zv_timer s)")
    case True
    then have "live_timers s = {}" by (simp add: live_timers_def pq_items_def zv_pq_is_empty_def)
    with True 1(2) show ?thesis by (simp add: zv_find_timer.simps [of s])
  next
    case ne: False
    define s1 where "s1 = zv_time_update s"
    have inv1: "worker_inv s1 own" unfolding s1_def using 1(2) by (rule worker_inv_time_update)
    have same: "live_timers s1 = live_timers s" "tnodes s1 = tnodes s" "reqs s1 = reqs s" "zv_timer s1 = zv_timer s"
      by (simp_all add: s1_def live_timers_def)
    have ne1: "\<not> zv_pq_is_empty (zv_timer s1)" using ne by (simp add: s1_def)
    obtain t n where t: "zv_pq_min (zv_timer s1) = Some t" "tnodes s1 t = Some n" using worker_inv_front [OF inv1 ne1] .
    have ti: "timer_inv s1 own" using inv1 by (simp add: worker_inv_def)
    have eq: "zv_find_timer s = (if t_deleted n then zv_find_timer (pop_timer t s1)
        else Ok (timeout_of (t_key n) (zv_current_msec s1), s1))"
      using ne t by (subst zv_find_timer.simps) (simp add: s1_def Let_def)
    show ?thesis
    proof (cases "t_deleted n")
      case True
      note live = live_timers_pop [OF ti t True]
      have nt: "t \<notin> live_timers s1" using t(2) True by (simp add: live_timers_def)
      have old: "tnodes (pop_timer t s1) u = tnodes s u" if "u \<in> live_timers s" for u using that nt same by auto
      from 1(1) [OF ne s1_def t True worker_inv_pop_deleted [OF inv1 t True]] obtain time s' where ih:
        "zv_find_timer (pop_timer t s1) = Ok (time, s')" "worker_inv s' own" "reqs s' = reqs s" "live_timers s' = live_timers s"
        "\<forall>u \<in> live_timers s. tnodes s' u = tnodes (pop_timer t s1) u"
        "if live_timers s = {} then time = ZV_TIMER_INFINITE
         else \<exists>v \<in> live_timers s. (\<forall>u \<in> live_timers s. t_key (the (tnodes (pop_timer t s1) v)) \<le> t_key (the (tnodes (pop_timer t s1) u))) \<and>
           time = timeout_of (t_key (the (tnodes (pop_timer t s1) v))) (zv_current_msec s')"
        unfolding live same(1) using same(3) by auto
      have "if live_timers s = {} then time = ZV_TIMER_INFINITE
         else \<exists>v \<in> live_timers s. (\<forall>u \<in> live_timers s. t_key (the (tnodes s v)) \<le> t_key (the (tnodes s u))) \<and>
           time = timeout_of (t_key (the (tnodes s v))) (zv_current_msec s')"
        using ih(6) old by (simp split: if_splits)
      with ih(1-5) eq True old show ?thesis by auto
    next
      case False
      note pop = pop_timer_items [OF timer_inv_queue(1,2) [OF ti] t(1)]
      have "t \<in> live_timers s" using False t(2) pop(4) same by (simp add: live_timers_def)
      moreover have "\<forall>u \<in> live_timers s. t_key (the (tnodes s t)) \<le> t_key (the (tnodes s u))"
        using pop(5) same by (simp add: live_timers_def)
      ultimately have "\<exists>v \<in> live_timers s. (\<forall>u \<in> live_timers s. t_key (the (tnodes s v)) \<le> t_key (the (tnodes s u))) \<and>
           timeout_of (t_key n) (zv_current_msec s1) = timeout_of (t_key (the (tnodes s v))) (zv_current_msec s1)"
        using t(2) same(2) by (intro bexI [of _ t]) simp_all
      moreover have "live_timers s \<noteq> {}" using \<open>t \<in> live_timers s\<close> by auto
      ultimately show ?thesis using eq False inv1 same by simp
    qed
  qed
qed

text \<open>
  C23. The time the event loop may sleep: deleted nodes at the front are dropped, and the state stays consistent. The result is minus one exactly if no live timer
  is in the queue; otherwise it is the time to the earliest live timer, or zero if that has passed, provided the two times are less than \<open>2 ^ 31\<close>
  milliseconds apart.
\<close>

theorem find_timer_correct:
  assumes "worker_inv s own"
  shows "\<exists>time s'. zv_find_timer s = Ok (time, s') \<and> worker_inv s' own \<and> reqs s' = reqs s \<and> live_timers s' = live_timers s \<and>
     (time = -1 \<longleftrightarrow> live_timers s = {}) \<and>
     (\<forall>t \<in> live_timers s. (\<forall>u \<in> live_timers s. t_key (the (tnodes s t)) \<le> t_key (the (tnodes s u))) \<longrightarrow>
        \<bar>uint (t_key (the (tnodes s t))) - uint (zv_current_msec s')\<bar> < 2 ^ 31 \<longrightarrow>
        time = max 0 (uint (t_key (the (tnodes s t))) - uint (zv_current_msec s')))"
proof -
  from find_timer_spec [OF assms] obtain time s' where s': "zv_find_timer s = Ok (time, s')" "worker_inv s' own" "reqs s' = reqs s"
    "live_timers s' = live_timers s"
    and time: "if live_timers s = {} then time = ZV_TIMER_INFINITE
      else \<exists>t \<in> live_timers s. (\<forall>u \<in> live_timers s. t_key (the (tnodes s t)) \<le> t_key (the (tnodes s u))) \<and>
        time = timeout_of (t_key (the (tnodes s t))) (zv_current_msec s')" by blast
  have "time = -1 \<longleftrightarrow> live_timers s = {}"
  proof
    assume "time = -1"
    then show "live_timers s = {}" using time timeout_of_nonneg by (metis not_one_le_zero le_minus_iff minus_zero)
  qed (use time in \<open>simp add: ZV_TIMER_INFINITE_def\<close>)
  moreover have "time = max 0 (uint (t_key (the (tnodes s t))) - uint (zv_current_msec s'))"
    if t: "t \<in> live_timers s" "\<forall>u \<in> live_timers s. t_key (the (tnodes s t)) \<le> t_key (the (tnodes s u))"
      "\<bar>uint (t_key (the (tnodes s t))) - uint (zv_current_msec s')\<bar> < 2 ^ 31" for t
  proof -
    from t(1) time obtain v where v: "v \<in> live_timers s" "\<forall>u \<in> live_timers s. t_key (the (tnodes s v)) \<le> t_key (the (tnodes s u))"
      "time = timeout_of (t_key (the (tnodes s v))) (zv_current_msec s')" by (auto split: if_splits)
    then have "t_key (the (tnodes s v)) = t_key (the (tnodes s t))" using t(1,2) by (meson order_antisym)
    with v(3) timeout_of_exact [OF t(3)] show ?thesis by simp
  qed
  ultimately show ?thesis using s' by blast
qed

theorem find_timer_correct_witness: "\<exists>time s'. zv_find_timer sample_worker = Ok (time, s') \<and> worker_inv s' {1}"
  using find_timer_correct [of sample_worker "{1}"] sample_worker_inv by blast

end
