(* ===== verification/Zv_Cgi_Stream.thy ===== *)
theory Zv_Cgi_Stream
  imports Zv_Cgi
begin

text \<open>
  What the client of a CGI program receives. The definitions of \<^verbatim>\<open>src/src/cgi.c\<close> are in \<open>Zv_Cgi\<close>; here the run of one response is followed over any sequence of
  readable and writable events. The reference is a decoder of the chunked transfer coding; the result is that the client decodes exactly the header of the response
  and the body the program printed, however reads and writes are cut, that no more than the limit is taken from the program, and that a program that
  prints no header lines is answered as the code intends.
\<close>

section \<open>The chunked coding\<close>

definition chunk :: "string \<Rightarrow> string" where
  "chunk b = hex_string (length b) @ CRLF @ b @ CRLF"

definition chunked :: "string list \<Rightarrow> string" where
  "chunked bs = concat (map chunk bs)"

text \<open>A decoder as a client would write it: a length line, the data, an end of line, until a length of zero.\<close>

function dechunk :: "string \<Rightarrow> string option" where
  "dechunk s =
     (let line = takeWhile (\<lambda>c. c \<noteq> CR) s; n = read_nat 16 line; rest = drop (length line + 2) s
      in if line = [] \<or> take 2 (drop (length line) s) \<noteq> CRLF then None
         else if n = 0 then (if rest = CRLF then Some [] else None)
         else if take 2 (drop n rest) \<noteq> CRLF then None
         else map_option (append (take n rest)) (dechunk (drop (n + 2) rest)))"
  by pat_completeness auto
termination
proof (relation "measure length", goal_cases)
  case (2 s line n rest)
  then have "line \<noteq> []" by simp
  then have "s \<noteq> []" using 2(1) by auto
  then show ?case unfolding 2(3) by simp
qed simp

declare dechunk.simps [simp del]

lemma hex_line: "takeWhile (\<lambda>c. c \<noteq> CR) (hex_string n @ CRLF @ s) = hex_string n" "hex_string n \<noteq> []"
proof -
  note p = print_nat_digits [of 16 n, simplified]
  then show "hex_string n \<noteq> []" by simp
  have d: "hex_string n \<noteq> []" "\<forall>c \<in> set (hex_string n). c \<noteq> CR"
    using p digit_graphic by (simp, metis)
  from d(2) have "takeWhile (\<lambda>c. c \<noteq> CR) (hex_string n @ CRLF @ s) = hex_string n @ takeWhile (\<lambda>c. c \<noteq> CR) (CRLF @ s)" by simp
  then show "takeWhile (\<lambda>c. c \<noteq> CR) (hex_string n @ CRLF @ s) = hex_string n" by (simp add: CRLF_def)
qed

lemma dechunk_chunk:
  assumes "b \<noteq> []"
  shows "dechunk (chunk b @ s) = map_option (append b) (dechunk s)"
proof -
  have c: "chunk b @ s = hex_string (length b) @ CRLF @ (b @ CRLF @ s)" by (simp add: chunk_def)
  have "read_nat 16 (hex_string (length b)) = length b" by (rule read_print) simp_all
  with assms show ?thesis
    unfolding c by (subst dechunk.simps) (simp add: hex_line Let_def)
qed

lemma dechunk_final: "dechunk final_chunk = Some []"
proof -
  have "digit 0 = CHR ''0''" by code_simp
  then have f: "final_chunk = hex_string 0 @ CRLF @ CRLF" by (simp add: final_chunk_def print_nat.simps [of 16 0])
  have "read_nat 16 (hex_string 0) = 0" by (rule read_print) simp_all
  then show ?thesis unfolding f by (subst dechunk.simps) (simp add: hex_line Let_def)
qed

lemma dechunk_chunked: "\<forall>b \<in> set bs. b \<noteq> [] \<Longrightarrow> dechunk (chunked bs @ final_chunk) = Some (concat bs)"
  by (induction bs) (simp_all add: chunked_def dechunk_final dechunk_chunk)

section \<open>Blocks\<close>

text \<open>The request with a block ready to be sent.\<close>

definition load_block :: "string \<Rightarrow> zv_http_request \<Rightarrow> zv_http_request" where
  "load_block b r =
     r\<lparr>r_cgi_body_buf := b, r_cgi_body_len := length b, r_cgi_body_sent := 0, r_cgi_chunk_prefix := hex_string (length b) @ CRLF,
       r_cgi_chunk_prefix_len := length (hex_string (length b) @ CRLF), r_cgi_chunk_prefix_sent := 0, r_cgi_chunk_suffix_sent := 0\<rparr>"

lemma prepare_block:
  assumes "b \<noteq> []" and "length b \<le> CGI_BODY_CAP"
  shows "prepare_chunk_prefix (length b) (r\<lparr>r_cgi_body_buf := b, r_cgi_body_len := length b, r_cgi_body_sent := 0\<rparr>) = (0, load_block b r)"
proof -
  have "length (hex_string (length b)) \<le> 4"
    using assms by (intro print_nat_length) (simp_all add: CGI_BODY_CAP_def)
  then show ?thesis using assms(1) by (simp add: prepare_chunk_prefix_def load_block_def CGI_PREFIX_CAP_def Let_def)
qed

lemma load_block_queued:
  assumes "b \<noteq> []"
  shows "cgi_queued (load_block b r) = cgi_header_rest r @ chunk b"
proof -
  have "cgi_chunk_rest (load_block b r) = chunk b" by (simp add: cgi_chunk_rest_def load_block_def slice_def chunk_def CRLF_def)
  moreover have "cgi_header_rest (load_block b r) = cgi_header_rest r" "r_cgi_body_len (load_block b r) = length b"
    by (simp_all add: cgi_header_rest_def load_block_def)
  ultimately show ?thesis using assms by (simp add: cgi_queued_def)
qed

lemma load_block_ok:
  assumes "cgi_ok r" and "r_cgi_final_chunk_len r = 0" and "b \<noteq> []"
  shows "cgi_ok (load_block b r)"
proof -
  have "cgi_chunk_rest (load_block b r) \<noteq> []" using assms(3) by (simp add: cgi_chunk_rest_def load_block_def slice_def)
  with assms(1,2) show ?thesis by (simp add: cgi_ok_def) (simp add: load_block_def)
qed

lemma load_block_fields [simp]:
  "r_cgi_headers_done (load_block b r) = r_cgi_headers_done r" "r_cgi_eof (load_block b r) = r_cgi_eof r"
  "r_cgi_final_chunk_len (load_block b r) = r_cgi_final_chunk_len r" "r_cgi_out_total (load_block b r) = r_cgi_out_total r"
  "r_cgi_out_limit (load_block b r) = r_cgi_out_limit r" "r_cgi_hdr_len (load_block b r) = r_cgi_hdr_len r" "r_cgi_body_len (load_block b r) = length b"
  "r_fd (load_block b r) = r_fd r" "r_cgi_out_fd (load_block b r) = r_cgi_out_fd r"
  by (simp_all add: load_block_def)

lemma cgi_tail_nil: "\<not> r_cgi_eof r \<Longrightarrow> cgi_tail r = []"
  by (simp add: cgi_tail_def)

lemma cgi_queued_upd [simp]:
  "cgi_queued (r\<lparr>r_cgi_hdr_len := n\<rparr>) = cgi_queued r" "cgi_queued (r\<lparr>r_cgi_hdr_buf := t\<rparr>) = cgi_queued r"
  "cgi_queued (r\<lparr>r_cgi_headers_done := b\<rparr>) = cgi_queued r" "cgi_queued (r\<lparr>r_cgi_out_total := n\<rparr>) = cgi_queued r"
  "cgi_queued (r\<lparr>r_cgi_eof := b\<rparr>) = cgi_queued r" "cgi_queued (r\<lparr>r_cgi_out_fd := i\<rparr>) = cgi_queued r"
  "cgi_header_rest (r\<lparr>r_cgi_hdr_len := n\<rparr>) = cgi_header_rest r" "cgi_header_rest (r\<lparr>r_cgi_hdr_buf := t\<rparr>) = cgi_header_rest r"
  "cgi_header_rest (r\<lparr>r_cgi_headers_done := b\<rparr>) = cgi_header_rest r" "cgi_header_rest (r\<lparr>r_cgi_out_total := n\<rparr>) = cgi_header_rest r"
  "cgi_header_rest (r\<lparr>r_cgi_body_buf := t\<rparr>) = cgi_header_rest r" "cgi_header_rest (r\<lparr>r_cgi_eof := b\<rparr>) = cgi_header_rest r"
  "cgi_header_rest (r\<lparr>r_cgi_out_fd := i\<rparr>) = cgi_header_rest r"
  by (simp_all add: cgi_queued_def cgi_header_rest_def cgi_chunk_rest_def)

lemma cgi_ok_upd [simp]:
  "cgi_ok (r\<lparr>r_cgi_hdr_len := n\<rparr>) = cgi_ok r" "cgi_ok (r\<lparr>r_cgi_hdr_buf := t\<rparr>) = cgi_ok r"
  "cgi_ok (r\<lparr>r_cgi_headers_done := b\<rparr>) = cgi_ok r" "cgi_ok (r\<lparr>r_cgi_out_total := n\<rparr>) = cgi_ok r"
  "cgi_ok (r\<lparr>r_cgi_eof := b\<rparr>) = cgi_ok r" "cgi_ok (r\<lparr>r_cgi_out_fd := i\<rparr>) = cgi_ok r"
  by (simp_all add: cgi_ok_def cgi_chunk_rest_def)

lemma cgi_ok_buf: "r_cgi_body_len r = 0 \<Longrightarrow> cgi_ok (r\<lparr>r_cgi_body_buf := t\<rparr>) = cgi_ok r"
  by (simp add: cgi_ok_def)

lemma not_unsent: "cgi_ok r \<Longrightarrow> \<not> cgi_unsent r \<Longrightarrow> r_cgi_body_len r = 0"
  by (auto simp: cgi_ok_def cgi_unsent_def cgi_chunk_rest_def slice_def)

text \<open>The header of the response.\<close>

lemma build_http_header_ok:
  assumes "build_http_header st ct r = (rc, r')" and "rc = 0"
  shows "cgi_header_rest r' = cgi_header_text st ct" and "cgi_ok r \<Longrightarrow> r_cgi_body_len r = 0 \<Longrightarrow> cgi_ok r'"
    and "r_cgi_final_chunk_len r' = 0" and "r_cgi_eof r' = r_cgi_eof r" and "r_cgi_out_total r' = r_cgi_out_total r"
    and "r_cgi_out_limit r' = r_cgi_out_limit r" and "r_cgi_body_len r' = r_cgi_body_len r" and "r_cgi_hdr_len r' = r_cgi_hdr_len r"
    and "r_cgi_hdr_buf r' = r_cgi_hdr_buf r"
  using assms by (auto simp: build_http_header_def Let_def cgi_header_rest_def slice_def cgi_ok_def CGI_HTTP_HEADER_CAP_def split: if_splits)

section \<open>The course of a response\<close>

text \<open>
  The answer to a program that printed \<open>out\<close>: with header lines, the header built from them and the bytes behind them, where \<open>A\<close> is what had been read when the header lines were
  complete; the part of that read that the header buffer could not hold is missing. Without header lines, the output is the body, and without output there is
  an error message.
\<close>

definition cgi_headed :: "string \<Rightarrow> string \<Rightarrow> string \<Rightarrow> bool" where
  "cgi_headed out head body \<longleftrightarrow>
     (\<exists>A B off status ctype. out = A @ B \<and> header_end 0 (take CGI_HDR_CAP A) = Some off \<and>
        scan_cgi_lines (take off A) (200, []) = Some (status, ctype) \<and>
        head = cgi_header_text status ctype \<and> body = drop off (take CGI_HDR_CAP A) @ B)"

definition cgi_unheaded :: "string \<Rightarrow> string \<Rightarrow> string \<Rightarrow> bool" where
  "cgi_unheaded out head body \<longleftrightarrow>
     header_end 0 out = None \<and>
     (if out = [] then head = cgi_header_text 500 ''text/plain'' \<and> body = ''cgi produced no output'' @ [LF]
      else head = cgi_header_text 200 ''text/plain'' \<and> body = out)"

text \<open>After \<open>acc\<close> was read and \<open>sent\<close> was sent.\<close>

definition cgi_progress :: "zv_http_request \<Rightarrow> string \<Rightarrow> string \<Rightarrow> bool" where
  "cgi_progress r sent acc \<longleftrightarrow>
     cgi_ok r \<and> r_cgi_out_total r = length acc \<and> length acc \<le> r_cgi_out_limit r \<and>
     (if r_cgi_headers_done r then
        (\<not> r_cgi_eof r \<longrightarrow> r_cgi_final_chunk_len r = 0) \<and>
        (\<exists>head bs. sent @ cgi_queued r @ cgi_tail r = head @ chunked bs @ (if r_cgi_eof r then final_chunk else []) \<and> (\<forall>b \<in> set bs. b \<noteq> []) \<and>
           (cgi_headed acc head (concat bs) \<or> r_cgi_eof r \<and> cgi_unheaded acc head (concat bs)))
      else
        \<not> r_cgi_eof r \<and> r_cgi_body_len r = 0 \<and> cgi_header_rest r = [] \<and> sent = [] \<and> r_cgi_hdr_len r = length acc \<and>
        take (length acc) (r_cgi_hdr_buf r) = acc \<and> length acc < CGI_HDR_CAP \<and> header_end 0 acc = None)"

lemma header_end_bound: "header_end i hdr = Some off \<Longrightarrow> off \<le> i + length hdr"
  by (induction i hdr rule: header_end.induct) (auto split: if_splits)

lemma chunked_snoc: "chunked (bs @ [b]) = chunked bs @ chunk b"
  by (simp add: chunked_def)

lemma cgi_first_block_spec:
  assumes "cgi_first_block off hdr r = (next, r')" and "cgi_ok r" and "r_cgi_body_len r = 0" and "r_cgi_final_chunk_len r = 0"
    and "length hdr \<le> CGI_BODY_CAP" and "\<not> r_cgi_eof r"
  defines "b \<equiv> drop off hdr"
  shows "next = CgiWrite" and "cgi_ok r'" and "cgi_queued r' = cgi_header_rest r @ (if b = [] then [] else chunk b)"
    and "r_cgi_headers_done r'" and "r_cgi_final_chunk_len r' = 0" and "r_cgi_eof r' = r_cgi_eof r" and "r_cgi_out_total r' = r_cgi_out_total r"
    and "r_cgi_out_limit r' = r_cgi_out_limit r"
proof -
  have "min (length hdr - off) CGI_BODY_CAP = length b" using assms(5) by (simp add: b_def)
  moreover have "take (length b) (drop off hdr) = b" by (simp add: b_def)
  ultimately have *: "cgi_first_block off hdr r =
      (if b \<noteq> [] then (case prepare_chunk_prefix (length b)
          (r\<lparr>r_cgi_headers_done := True, r_cgi_body_buf := b, r_cgi_body_len := length b, r_cgi_body_sent := 0\<rparr>) of
              (rc, r) \<Rightarrow> if rc \<noteq> 0 then (CgiClose, r) else (CgiWrite, r\<lparr>r_cgi_hdr_len := 0\<rparr>))
       else (CgiWrite, (snd (prepare_chunk_prefix 0 (r\<lparr>r_cgi_headers_done := True, r_cgi_body_len := 0, r_cgi_body_sent := 0\<rparr>)))\<lparr>r_cgi_hdr_len := 0\<rparr>))"
    by (simp add: cgi_first_block_def Let_def)
  have "next = CgiWrite \<and> cgi_ok r' \<and> cgi_queued r' = cgi_header_rest r @ (if b = [] then [] else chunk b) \<and> r_cgi_headers_done r' \<and>
      r_cgi_final_chunk_len r' = 0 \<and> r_cgi_eof r' = r_cgi_eof r \<and> r_cgi_out_total r' = r_cgi_out_total r \<and> r_cgi_out_limit r' = r_cgi_out_limit r"
  proof (cases "b = []")
    case True
    with * assms(1) have "next = CgiWrite" and r': "r' = r\<lparr>r_cgi_headers_done := True, r_cgi_body_len := 0, r_cgi_body_sent := 0,
        r_cgi_chunk_prefix_len := 0, r_cgi_chunk_prefix_sent := 0, r_cgi_chunk_suffix_sent := 0, r_cgi_hdr_len := 0\<rparr>"
      by (simp_all add: prepare_chunk_prefix_def)
    moreover have "cgi_ok r'" using assms(2,3,4) by (simp add: r' cgi_ok_def)
    moreover have "cgi_queued r' = cgi_header_rest r" by (simp add: r' cgi_queued_def cgi_header_rest_def)
    ultimately show ?thesis using True assms(4) by simp
  next
    case False
    moreover have "length b \<le> CGI_BODY_CAP" using assms(5) by (simp add: b_def)
    ultimately have "next = CgiWrite" and r': "r' = (load_block b (r\<lparr>r_cgi_headers_done := True\<rparr>))\<lparr>r_cgi_hdr_len := 0\<rparr>"
      using * assms(1) prepare_block [of b "r\<lparr>r_cgi_headers_done := True\<rparr>"] by simp_all
    with False assms(2,4) show ?thesis by (simp add: load_block_ok load_block_queued)
  qed
  then show "next = CgiWrite" and "cgi_ok r'" and "cgi_queued r' = cgi_header_rest r @ (if b = [] then [] else chunk b)"
    and "r_cgi_headers_done r'" and "r_cgi_final_chunk_len r' = 0" and "r_cgi_eof r' = r_cgi_eof r" and "r_cgi_out_total r' = r_cgi_out_total r"
    and "r_cgi_out_limit r' = r_cgi_out_limit r" by blast+
qed

lemma cgi_header_data_progress:
  assumes "cgi_header_data bs r = (x, r')" and "x \<noteq> Some CgiClose" and "bs \<noteq> []" and "\<not> r_cgi_headers_done r" and "cgi_progress r0 sent acc"
    and "r = r0\<lparr>r_cgi_body_buf := t, r_cgi_out_total := length (acc @ bs)\<rparr>" and "length (acc @ bs) \<le> r_cgi_out_limit r"
  shows "cgi_progress r' sent (acc @ bs)" and "x = None \<Longrightarrow> r_cgi_body_len r' = 0"
proof -
  note p = assms(5) [unfolded cgi_progress_def]
  have nh: "\<not> r_cgi_headers_done r0" using assms(4,6) by simp
  define A where "A = acc @ bs"
  define hdr where "hdr = take CGI_HDR_CAP A"
  define r1 where "r1 = r\<lparr>r_cgi_hdr_buf := hdr, r_cgi_hdr_len := length hdr\<rparr>"
  have hl: "r_cgi_hdr_len r = length acc" "take (length acc) (r_cgi_hdr_buf r) = acc" "length acc < CGI_HDR_CAP"
    using p nh assms(6) by simp_all
  have hdr: "take (length acc) (r_cgi_hdr_buf r) @ take (min (length bs) (CGI_HDR_CAP - length acc)) bs = hdr"
    "length acc + min (length bs) (CGI_HDR_CAP - length acc) = length hdr"
    using hl by (auto simp: hdr_def A_def min_def take_all)
  have eq: "cgi_header_data bs r =
      (case header_end 0 hdr of Some off \<Rightarrow> apfst Some (cgi_headers_found off hdr r1)
        | None \<Rightarrow> if length hdr \<ge> CGI_HDR_CAP then (Some CgiClose, r1) else (None, r1))"
    unfolding cgi_header_data_def Let_def hl(1) hdr r1_def by simp
  have r1: "cgi_ok r1" "\<not> r_cgi_eof r1" "r_cgi_body_len r1 = 0" "cgi_header_rest r1 = []" "sent = []" "r_cgi_out_total r1 = length A" "length A \<le> r_cgi_out_limit r1"
    "r_cgi_headers_done r1 = False"
    using p nh assms(6,7) by (simp_all add: r1_def cgi_ok_buf A_def)
  have "cgi_progress r' sent A \<and> (x = None \<longrightarrow> r_cgi_body_len r' = 0)"
  proof (cases "header_end 0 hdr")
    case None
    then have "r' = r1" "x = None" "length hdr < CGI_HDR_CAP" using eq assms(1,2) by (auto split: if_splits)
    moreover from this(3) have "hdr = A" by (simp add: hdr_def)
    ultimately show ?thesis using r1 None by (simp add: cgi_progress_def) (simp add: r1_def)
  next
    case (Some off)
    then obtain nx where n: "cgi_headers_found off hdr r1 = (nx, r')" "x = Some nx" "nx \<noteq> CgiClose"
      using eq assms(1,2) by (cases "cgi_headers_found off hdr r1") auto
    then obtain st ct r2 where s: "scan_cgi_lines (take off hdr) (200, []) = Some (st, ct)" "build_http_header st ct r1 = (0, r2)"
      "cgi_first_block off hdr r2 = (nx, r')"
      by (auto simp: cgi_headers_found_def split: option.splits prod.splits if_splits)
    note b = build_http_header_ok [OF s(2) refl]
    have lh: "length hdr \<le> CGI_BODY_CAP" by (simp add: hdr_def CGI_HDR_CAP_def CGI_BODY_CAP_def)
    have "cgi_ok r2" "r_cgi_body_len r2 = 0" "\<not> r_cgi_eof r2" using b(2,4,7) r1 by simp_all
    note f = cgi_first_block_spec [OF s(3) this(1,2) b(3) lh this(3)]
    have off: "off \<le> length hdr" using header_end_bound [OF Some] by simp
    then have "off \<le> CGI_HDR_CAP" by (simp add: hdr_def)
    then have "take off hdr = take off A" by (simp add: hdr_def min_absorb1)
    then have "cgi_headed A (cgi_header_text st ct) (drop off hdr)"
      using Some s(1) unfolding cgi_headed_def hdr_def by (intro exI [of _ A] exI [of _ "[]"] exI [of _ off] exI [of _ st] exI [of _ ct]) simp
    moreover have "cgi_queued r' = cgi_header_text st ct @ chunked (if drop off hdr = [] then [] else [drop off hdr])"
      using f(3) b(1) by (simp add: chunked_def)
    moreover have "cgi_tail r' = []" using f(6) b(4) r1(2) by (simp add: cgi_tail_nil)
    ultimately show ?thesis
      using f b r1 n(2) unfolding cgi_progress_def
      by (auto intro!: exI [of _ "cgi_header_text st ct"] exI [of _ "if drop off hdr = [] then [] else [drop off hdr]"])
  qed
  then show "cgi_progress r' sent (acc @ bs)" "x = None \<Longrightarrow> r_cgi_body_len r' = 0" by (simp_all add: A_def)
qed

lemma cgi_data_progress:
  assumes "cgi_data bs r = (x, r')" and "x \<noteq> Some CgiClose" and "bs \<noteq> []" and "length bs \<le> CGI_BODY_CAP" and "cgi_progress r sent acc"
    and "r_cgi_body_len r = 0" and "\<not> r_cgi_eof r"
  shows "cgi_progress r' sent (acc @ bs)" and "x = None \<Longrightarrow> r_cgi_body_len r' = 0" and "\<not> r_cgi_eof r'"
proof -
  note p = assms(5) [unfolded cgi_progress_def]
  define r1 where "r1 = r\<lparr>r_cgi_body_buf := bs, r_cgi_out_total := length (acc @ bs)\<rparr>"
  have tot: "r_cgi_out_total r = length acc" using p by simp
  have lim: "length (acc @ bs) \<le> r_cgi_out_limit r1"
    using assms(1,2) tot by (auto simp: cgi_data_def Let_def r1_def split: if_splits)
  have eq: "cgi_data bs r = (if \<not> r_cgi_headers_done r1 then cgi_header_data bs r1 else cgi_body_data bs r1)"
    using lim tot by (simp add: cgi_data_def Let_def r1_def)
  have "cgi_progress r' sent (acc @ bs) \<and> (x = None \<longrightarrow> r_cgi_body_len r' = 0)"
  proof (cases "r_cgi_headers_done r1")
    case False
    then have "cgi_header_data bs r1 = (x, r')" using eq assms(1) by simp
    from cgi_header_data_progress [OF this assms(2,3) False assms(5) r1_def lim] show ?thesis by simp
  next
    case True
    then have hd: "r_cgi_headers_done r" by (simp add: r1_def)
    have "cgi_body_data bs r1 = (x, r')" using eq True assms(1) by simp
    moreover have "r1\<lparr>r_cgi_body_len := length bs, r_cgi_body_sent := 0\<rparr> = r1\<lparr>r_cgi_body_buf := bs, r_cgi_body_len := length bs, r_cgi_body_sent := 0\<rparr>"
      by (simp add: r1_def)
    ultimately have x: "x = Some CgiWrite" "r' = load_block bs r1"
      using prepare_block [OF assms(3,4), of r1] by (simp_all add: cgi_body_data_def)
    obtain head bss where h: "sent @ cgi_queued r @ cgi_tail r = head @ chunked bss" "\<forall>b \<in> set bss. b \<noteq> []" "cgi_headed acc head (concat bss)"
      using p hd assms(7) by auto
    have f0: "r_cgi_final_chunk_len r = 0" using p hd assms(7) by simp
    have ok1: "cgi_ok r1" using p assms(6) by (simp add: r1_def cgi_ok_buf)
    have q: "cgi_queued r = cgi_header_rest r1" using assms(6) by (simp add: cgi_queued_def r1_def)
    have "cgi_queued r' = cgi_queued r @ chunk bs" using x(2) assms(3) q by (simp add: load_block_queued)
    moreover have "cgi_tail r = []" "cgi_tail r' = []" using assms(7) x(2) by (simp_all add: cgi_tail_nil r1_def)
    ultimately have "sent @ cgi_queued r' @ cgi_tail r' = head @ chunked (bss @ [bs])" using h(1) by (simp add: chunked_snoc)
    moreover have "cgi_headed (acc @ bs) head (concat (bss @ [bs]))"
      using h(3) unfolding cgi_headed_def by (metis append_assoc concat.simps(2) concat.simps(1) append_Nil2 concat_append)
    moreover have "cgi_ok r'" using x(2) ok1 assms(3) f0 by (simp add: load_block_ok r1_def)
    ultimately show ?thesis
      using x lim h(2) hd assms(3,7) f0 unfolding cgi_progress_def
      by (auto simp: r1_def intro!: exI [of _ head] exI [of _ "bss @ [bs]"])
  qed
  moreover have "\<not> r_cgi_eof r'" using cgi_data_conn [of r bs] assms(1,7) by (simp add: same_conn_def)
  ultimately show "cgi_progress r' sent (acc @ bs)" "x = None \<Longrightarrow> r_cgi_body_len r' = 0" "\<not> r_cgi_eof r'" by simp_all
qed

lemma cgi_fill_block:
  assumes "t \<noteq> []" and "length t \<le> CGI_BODY_CAP"
  shows "cgi_fill t r = (0, load_block t r)"
  using prepare_block [OF assms] assms by (simp add: cgi_fill_def Let_def)

lemma cgi_eof_early_spec:
  assumes "cgi_eof_early r = (next, r')" and "next \<noteq> CgiClose" and "r_cgi_hdr_len r < CGI_HDR_CAP" and "cgi_ok r" and "r_cgi_body_len r = 0"
    and "take (r_cgi_hdr_len r) (r_cgi_hdr_buf r) = acc" and "r_cgi_hdr_len r = length acc"
  shows "\<exists>head body. cgi_ok r' \<and> r_cgi_headers_done r' \<and> cgi_queued r' = head @ chunk body \<and> body \<noteq> [] \<and> r_cgi_final_chunk_len r' = 0 \<and>
     r_cgi_eof r' = r_cgi_eof r \<and> r_cgi_out_total r' = r_cgi_out_total r \<and> r_cgi_out_limit r' = r_cgi_out_limit r \<and>
     (if acc = [] then head = cgi_header_text 500 ''text/plain'' \<and> body = ''cgi produced no output'' @ [LF]
      else head = cgi_header_text 200 ''text/plain'' \<and> body = acc)"
proof (cases "acc = []")
  case True
  let ?m = "''cgi produced no output'' @ [LF]"
  obtain r1 where b: "build_http_header 500 ''text/plain'' r = (0, r1)"
    using assms(1,2,7) True by (auto simp: cgi_eof_early_def split: prod.splits if_splits)
  have "cgi_fill ?m r1 = (0, load_block ?m r1)" by (rule cgi_fill_block) (simp_all add: CGI_BODY_CAP_def)
  then have r': "r' = (load_block ?m r1)\<lparr>r_cgi_headers_done := True\<rparr>"
    using assms(1,7) True b by (simp add: cgi_eof_early_def)
  note h = build_http_header_ok [OF b refl]
  have "cgi_ok r1" using h(2) assms(4,5) by simp
  then have "cgi_ok r'" using h(3) unfolding r' by (simp add: load_block_ok)
  moreover have "cgi_queued r' = cgi_header_text 500 ''text/plain'' @ chunk ?m"
    using load_block_queued [of ?m r1] h(1) unfolding r' by simp
  ultimately show ?thesis using True h by (intro exI [of _ "cgi_header_text 500 ''text/plain''"] exI [of _ ?m]) (simp add: r')
next
  case False
  obtain r1 where b: "build_http_header 200 ''text/plain'' r = (0, r1)"
    using assms(1,2,7) False by (auto simp: cgi_eof_early_def split: prod.splits if_splits)
  note h = build_http_header_ok [OF b refl]
  have "length acc \<le> CGI_BODY_CAP" using assms(3,7) by (simp add: CGI_BODY_CAP_def CGI_HDR_CAP_def)
  with False have "cgi_fill acc r1 = (0, load_block acc r1)" by (rule cgi_fill_block)
  then have r': "r' = (load_block acc r1)\<lparr>r_cgi_headers_done := True, r_cgi_hdr_len := 0\<rparr>"
    using assms(1,6,7) \<open>length acc \<le> CGI_BODY_CAP\<close> False b h(8,9) by (simp add: cgi_eof_early_def)
  have "cgi_ok r1" using h(2) assms(4,5) by simp
  then have "cgi_ok r'" using h(3) False unfolding r' by (simp add: load_block_ok)
  moreover have "cgi_queued r' = cgi_header_text 200 ''text/plain'' @ chunk acc"
    using load_block_queued [of acc r1] h(1) False unfolding r' by simp
  ultimately show ?thesis using False h by (intro exI [of _ "cgi_header_text 200 ''text/plain''"] exI [of _ acc]) (simp add: r')
qed

lemma cgi_eof_progress:
  assumes "cgi_eof (r, k) = (next, (r', k'))" and "next \<noteq> CgiClose" and "cgi_progress r sent acc" and "r_cgi_body_len r = 0" and "\<not> r_cgi_eof r"
  shows "cgi_progress r' sent acc" and "r_cgi_eof r'"
proof -
  note p = assms(3) [unfolded cgi_progress_def]
  define r1 where "r1 = r\<lparr>r_cgi_eof := True, r_cgi_out_fd := -1\<rparr>"
  have "cgi_progress r' sent acc \<and> r_cgi_eof r'"
  proof (cases "r_cgi_headers_done r")
    case False
    then have e: "cgi_eof_early r1 = (next, r')"
      using assms(1) by (auto simp: cgi_eof_def r1_def Let_def split: prod.splits)
    have q: "sent = []" "header_end 0 acc = None" "r_cgi_hdr_len r1 < CGI_HDR_CAP" "cgi_ok r1" "r_cgi_body_len r1 = 0"
      "take (r_cgi_hdr_len r1) (r_cgi_hdr_buf r1) = acc" "r_cgi_hdr_len r1 = length acc"
      using p False by (simp_all add: r1_def)
    from cgi_eof_early_spec [OF e assms(2) q(3-7)] obtain head body where
      h: "cgi_ok r'" "r_cgi_headers_done r'" "cgi_queued r' = head @ chunk body" "body \<noteq> []" "r_cgi_final_chunk_len r' = 0"
        "r_cgi_eof r' = r_cgi_eof r1" "r_cgi_out_total r' = r_cgi_out_total r1" "r_cgi_out_limit r' = r_cgi_out_limit r1"
        "if acc = [] then head = cgi_header_text 500 ''text/plain'' \<and> body = ''cgi produced no output'' @ [LF]
          else head = cgi_header_text 200 ''text/plain'' \<and> body = acc" by blast
    have "r_cgi_eof r1" by (simp add: r1_def)
    moreover have "cgi_unheaded acc head (concat [body])" using h(9) q(2) by (simp add: cgi_unheaded_def)
    moreover have "cgi_queued r' @ cgi_tail r' = head @ chunked [body] @ final_chunk"
      using h(3,5,6) by (simp add: chunked_def cgi_tail_def r1_def)
    ultimately show ?thesis using h p q(1) unfolding cgi_progress_def
      by (auto simp: r1_def intro!: exI [of _ head] exI [of _ "[body]"])
  next
    case True
    then have r': "r' = ensure_final_chunk r1" using assms(1) by (auto simp: cgi_eof_def r1_def Let_def)
    obtain head bss where h: "sent @ cgi_queued r @ cgi_tail r = head @ chunked bss" "\<forall>b \<in> set bss. b \<noteq> []" "cgi_headed acc head (concat bss)"
      using p True assms(5) by auto
    have f0: "r_cgi_final_chunk_len r = 0" using p True assms(5) by simp
    then have r'': "r' = r\<lparr>r_cgi_eof := True, r_cgi_out_fd := -1, r_cgi_final_chunk := final_chunk, r_cgi_final_chunk_len := 5, r_cgi_final_chunk_sent := 0\<rparr>"
      using r' by (simp add: ensure_final_chunk_def r1_def final_chunk_def)
    have "cgi_queued r' = cgi_queued r" "cgi_tail r' = final_chunk" "cgi_tail r = []"
      using assms(5) by (simp_all add: r'' cgi_queued_def cgi_header_rest_def cgi_chunk_rest_def cgi_tail_def cgi_final_rest_def slice_def)
    moreover have "cgi_ok r'" using p assms(4) by (simp add: r'' cgi_ok_def)
    ultimately show ?thesis using h p True unfolding cgi_progress_def
      by (auto simp: r'' intro!: exI [of _ head] exI [of _ bss])
  qed
  then show "cgi_progress r' sent acc" "r_cgi_eof r'" by simp_all
qed

text \<open>The whole state: what the program has still to print is in the kernel, and the response follows what was sent before.\<close>

definition cgi_state :: "string \<Rightarrow> string \<Rightarrow> zv_http_request \<times> kio \<Rightarrow> string \<Rightarrow> bool" where
  "cgi_state before out = (\<lambda>(r, k) acc.
     (\<exists>sent. k_sent k (r_fd r) = before @ sent \<and> cgi_progress r sent acc) \<and>
     (if r_cgi_eof r then acc = out \<and> r_cgi_out_fd r = -1 else acc @ stream (k_in k (r_cgi_out_fd r)) = out))"

lemma sys_close_io [simp]: "k_sent (sys_close fd k) = k_sent k" "k_in (sys_close fd k) = k_in k"
  by (simp_all add: sys_close_def)

lemma cgi_eof_early_conn: "same_conn r (snd (cgi_eof_early r))"
  by (simp add: cgi_eof_early_def case_prod_unfold)

lemma cgi_read_step:
  assumes "cgi_state before out (r, k) acc" and "\<not> cgi_unsent r" and "\<not> r_cgi_eof r" and "sys_read (r_cgi_out_fd r) CGI_BODY_CAP k = (Inr bs, k')"
    and "bs \<noteq> []" and "cgi_data bs r = (x, r')" and "x \<noteq> Some CgiClose"
  shows "cgi_state before out (r', k') (acc @ bs)" and "\<not> r_cgi_eof r'"
proof -
  have c: "0 < CGI_BODY_CAP" by (simp add: CGI_BODY_CAP_def)
  from assms(1,3) obtain sent where p: "cgi_progress r sent acc" "acc @ stream (k_in k (r_cgi_out_fd r)) = out"
    and sent: "k_sent k (r_fd r) = before @ sent" by (auto simp: cgi_state_def)
  have "cgi_ok r" using p(1) by (simp add: cgi_progress_def)
  note d = cgi_data_progress [OF assms(6,7,5) _ p(1) not_unsent [OF this assms(2)] assms(3)]
  have l: "length bs \<le> CGI_BODY_CAP" and s: "bs @ stream (k_in k' (r_cgi_out_fd r)) = stream (k_in k (r_cgi_out_fd r))" and ks: "k_sent k' = k_sent k"
    using sys_read_stream [OF assms(4) c] assms(5) by simp_all
  show e: "\<not> r_cgi_eof r'" using d(3) l by simp
  have "r_fd r' = r_fd r" "r_cgi_out_fd r' = r_cgi_out_fd r" using cgi_data_conn [of r bs] assms(6) by (simp_all add: same_conn_def)
  with d(1) [OF l] s ks e p(2) sent show "cgi_state before out (r', k') (acc @ bs)" by (auto simp: cgi_state_def)
qed

lemma cgi_read_eof:
  assumes "cgi_state before out (r, k) acc" and "\<not> cgi_unsent r" and "\<not> r_cgi_eof r" and "sys_read (r_cgi_out_fd r) CGI_BODY_CAP k = (Inr [], k')"
    and "cgi_eof (r, k') = (next, (r', k''))" and "next \<noteq> CgiClose"
  shows "cgi_state before out (r', k'') acc"
proof -
  have c: "0 < CGI_BODY_CAP" by (simp add: CGI_BODY_CAP_def)
  from assms(1,3) obtain sent where p: "cgi_progress r sent acc" "acc @ stream (k_in k (r_cgi_out_fd r)) = out"
    and sent: "k_sent k (r_fd r) = before @ sent" by (auto simp: cgi_state_def)
  have "cgi_ok r" using p(1) by (simp add: cgi_progress_def)
  note e = cgi_eof_progress [OF assms(5,6) p(1) not_unsent [OF this assms(2)] assms(3)]
  have "stream (k_in k (r_cgi_out_fd r)) = []" and ks: "k_sent k' = k_sent k" using sys_read_stream [OF assms(4) c] by simp_all
  moreover have "r_fd r' = r_fd r \<and> k_sent k'' = k_sent k' \<and> r_cgi_out_fd r' = -1"
    using assms(5) cgi_eof_early_conn [of "r\<lparr>r_cgi_eof := True, r_cgi_out_fd := -1\<rparr>"]
    by (auto simp: cgi_eof_def Let_def ensure_final_chunk_def same_conn_def split: if_splits prod.splits)
  ultimately show ?thesis using e p(2) sent by (simp add: cgi_state_def)
qed

lemma cgi_read_loop_state:
  "cgi_state before out (r, k) acc \<Longrightarrow> \<not> r_cgi_eof r \<Longrightarrow> cgi_read_loop (r, k) = (next, x') \<Longrightarrow> next \<noteq> CgiClose \<Longrightarrow>
   \<exists>more. cgi_state before out x' (acc @ more)"
proof (induction "(r, k)" arbitrary: r k acc rule: cgi_read_loop.induct)
  case (1 r k)
  show ?case
  proof (cases "cgi_unsent r")
    case True
    with 1(3,5) have "cgi_state before out x' (acc @ [])" by (simp add: cgi_read_loop.simps [of r k])
    then show ?thesis by blast
  next
    case False
    obtain res k1 where rd: "sys_read (r_cgi_out_fd r) CGI_BODY_CAP k = (res, k1)" by fastforce
    note eq = 1(5) [unfolded cgi_read_loop.simps [of r k], unfolded rd, simplified False if_False prod.case]
    show ?thesis
    proof (cases res)
      case (Inl e)
      have st: "cgi_state before out (r, k1) acc"
        using 1(3,4) Inl sys_read_stream [OF rd] by (simp add: cgi_state_def CGI_BODY_CAP_def)
      show ?thesis
      proof (cases "e = EINTR")
        case True
        with eq Inl have "cgi_read_loop (r, k1) = (next, x')" by simp
        from 1(1) [OF False rd [symmetric] Inl True st 1(4) this 1(6)] show ?thesis .
      next
        case e: False
        with eq Inl 1(6) have "x' = (r, k1)" by (auto split: if_splits)
        with st have "cgi_state before out x' (acc @ [])" by simp
        then show ?thesis by blast
      qed
    next
      case (Inr bs)
      show ?thesis
      proof (cases "bs = []")
        case True
        obtain r' k'' where x': "x' = (r', k'')" by fastforce
        have "cgi_state before out x' (acc @ [])"
          using cgi_read_eof [OF 1(3) False 1(4) rd [unfolded Inr True], of "next" r' k''] eq Inr True 1(6) x' by simp
        then show ?thesis by blast
      next
        case ne: False
        obtain y r' where d: "cgi_data bs r = (y, r')" by fastforce
        have y: "y \<noteq> Some CgiClose" using eq Inr ne d 1(6) by (auto split: option.splits)
        note s = cgi_read_step [OF 1(3) False 1(4) rd [unfolded Inr] ne d y]
        show ?thesis
        proof (cases y)
          case None
          with eq Inr ne d have "cgi_read_loop (r', k1) = (next, x')" by simp
          from 1(2) [OF False rd [symmetric] Inr ne d [symmetric] None s this 1(6)] show ?thesis by (metis append_assoc)
        next
          case (Some nx)
          with eq Inr ne d s(1) show ?thesis by auto
        qed
      qed
    qed
  qed
qed

section \<open>Sending\<close>

definition same_source :: "zv_http_request \<Rightarrow> zv_http_request \<Rightarrow> bool" where
  "same_source r r' \<longleftrightarrow>
     r_cgi_headers_done r' = r_cgi_headers_done r \<and> r_cgi_out_total r' = r_cgi_out_total r \<and> r_cgi_out_limit r' = r_cgi_out_limit r \<and>
     r_cgi_out_fd r' = r_cgi_out_fd r \<and> r_cgi_eof r' = r_cgi_eof r \<and> r_fd r' = r_fd r \<and>
     (\<not> r_cgi_eof r \<longrightarrow> r_cgi_final_chunk_len r' = r_cgi_final_chunk_len r)"

lemma same_source_trans: "same_source r r' \<Longrightarrow> same_source r' r'' \<Longrightarrow> same_source r r''"
  by (simp add: same_source_def)

lemma cgi_consume_chunk_source: "same_source r (snd (cgi_consume_chunk l r))"
proof -
  have "same_source r (cgi_chunk_done r') = same_source r r'" for r' by (simp add: cgi_chunk_done_def same_source_def)
  then show ?thesis by (simp add: cgi_consume_chunk_def Let_def) (simp add: same_source_def)
qed

lemma cgi_consume_source: "same_source r (cgi_consume n r)"
proof -
  let ?r1 = "r\<lparr>r_cgi_http_header_sent := r_cgi_http_header_sent r + cons_part n (r_cgi_http_header_sent r) (r_cgi_http_header_len r)\<rparr>"
  obtain l r2 where c: "cgi_consume_chunk (n - cons_part n (r_cgi_http_header_sent r) (r_cgi_http_header_len r)) ?r1 = (l, r2)" by fastforce
  have "same_source r ?r1" by (simp add: same_source_def)
  moreover have "same_source ?r1 r2" using cgi_consume_chunk_source c by (metis snd_conv)
  ultimately have "same_source r r2" by (rule same_source_trans)
  then show ?thesis using c by (simp add: cgi_consume_def Let_def) (simp add: same_source_def)
qed

lemma cgi_prepare_final_source: "same_source r (cgi_prepare_final r)"
  by (simp add: same_source_def cgi_prepare_final_def ensure_final_chunk_def)

lemma cgi_send_loop_source:
  "cgi_send_loop (r, k) = (res, (r', k')) \<Longrightarrow> same_source r r' \<and> k_in k' = k_in k \<and> prefix (k_sent k (r_fd r)) (k_sent k' (r_fd r))"
proof (induction "(r, k)" arbitrary: r k rule: cgi_send_loop.induct)
  case (1 r k)
  define r0 where "r0 = cgi_prepare_final r"
  have r0: "same_source r r0" unfolding r0_def by (rule cgi_prepare_final_source)
  show ?case
  proof (cases "cgi_iov r0")
    case None
    then show ?thesis using 1(3) r0 by (simp add: cgi_send_loop.simps [of r k] Let_def r0_def [symmetric])
  next
    case (Some bs)
    obtain w k1 where w: "sys_write (r_fd r0) bs k = (w, k1)" by fastforce
    have fd: "r_fd r0 = r_fd r" using r0 by (simp add: same_source_def)
    have ki: "k_in k1 = k_in k" "prefix (k_sent k (r_fd r)) (k_sent k1 (r_fd r))"
      using sys_write_spec [OF w] fd by (auto split: sum.splits)
    note eq = 1(3) [unfolded cgi_send_loop.simps [of r k] Let_def r0_def [symmetric] Some option.case w prod.case]
    show ?thesis
    proof (cases w)
      case (Inl e)
      show ?thesis
      proof (cases "e = EINTR")
        case True
        with eq Inl have "cgi_send_loop (r0, k1) = (res, (r', k'))" by simp
        from 1(1) [OF r0_def Some w [symmetric] Inl True this] r0 ki fd show ?thesis by (auto intro: same_source_trans prefix_order.trans)
      next
        case False
        with eq Inl have "r' = r0" "k' = k1" by (auto split: if_splits)
        with r0 ki show ?thesis by simp
      qed
    next
      case (Inr n)
      show ?thesis
      proof (cases "n > 0")
        case True
        with eq Inr have "cgi_send_loop (cgi_consume n r0, k1) = (res, (r', k'))" by simp
        from 1(2) [OF r0_def Some w [symmetric] Inr True this] r0 ki cgi_consume_source [of r0 n] show ?thesis
          by (auto simp: fd intro: same_source_trans prefix_order.trans)
      next
        case False
        with eq Inr r0 ki show ?thesis by simp
      qed
    qed
  qed
qed

lemma cgi_send_loop_result: "fst (cgi_send_loop x) \<in> {None, Some 1, Some (-1)}"
proof (induction x rule: cgi_send_loop.induct)
  case (1 r k)
  then show ?case by (subst cgi_send_loop.simps) (simp add: Let_def split: option.split sum.split prod.split)
qed

lemma cgi_send_loop_state:
  assumes "cgi_state before out (r, k) acc" and "cgi_send_loop (r, k) = (res, (r', k'))"
  shows "cgi_state before out (r', k') acc" and "res = None \<Longrightarrow> r_cgi_eof r' \<Longrightarrow> cgi_queued r' @ cgi_tail r' = []" and "same_source r r'"
proof -
  from assms(1) obtain sent where p: "cgi_progress r sent acc" and sent: "k_sent k (r_fd r) = before @ sent"
    and o: "if r_cgi_eof r then acc = out \<and> r_cgi_out_fd r = -1 else acc @ stream (k_in k (r_cgi_out_fd r)) = out" by (auto simp: cgi_state_def)
  have ok: "cgi_ok r" using p by (simp add: cgi_progress_def)
  note l = cgi_send_loop_spec [OF ok assms(2)]
  have src: "same_source r r'" and ki: "k_in k' = k_in k" using cgi_send_loop_source [OF assms(2)] by simp_all
  show "same_source r r'" by (rule src)
  show "cgi_queued r' @ cgi_tail r' = []" if "res = None" "r_cgi_eof r'" using l that by (simp split: if_splits)
  show "cgi_state before out (r', k') acc"
  proof (cases "r_cgi_headers_done r")
    case True
    have "prefix before (k_sent k' (r_fd r))"
      using cgi_send_loop_source [OF assms(2)] sent by (metis append_prefixD)
    then obtain sent' where s': "k_sent k' (r_fd r) = before @ sent'" by (auto simp: prefix_def)
    with l sent have "sent' @ cgi_queued r' @ cgi_tail r' = sent @ cgi_queued r @ cgi_tail r" by simp
    with p True l src have "cgi_progress r' sent' acc" unfolding cgi_progress_def by (simp add: same_source_def)
    with s' src o ki show ?thesis by (auto simp: cgi_state_def same_source_def)
  next
    case False
    then have "cgi_prepare_final r = r" "cgi_iov r = None"
      using p by (simp_all add: cgi_progress_def cgi_prepare_final_def cgi_iov_def)
    then have "cgi_send_loop (r, k) = (None, (r, k))" by (simp add: cgi_send_loop.simps [of r k])
    with assms show ?thesis by simp
  qed
qed

lemma zv_epoll_mod_io [simp]: "k_sent (zv_epoll_mod fd reg k) = k_sent k" "k_in (zv_epoll_mod fd reg k) = k_in k"
  by (simp_all add: zv_epoll_mod_def)

lemma sys_waitpid_io [simp]: "k_sent (sys_waitpid pid k) = k_sent k" "k_in (sys_waitpid pid k) = k_in k"
  by (simp_all add: sys_waitpid_def)

lemma cgi_state_kernel:
  "cgi_state before out (r, k) acc \<Longrightarrow> k_sent k' (r_fd r) = k_sent k (r_fd r) \<Longrightarrow> k_in k' (r_cgi_out_fd r) = k_in k (r_cgi_out_fd r) \<Longrightarrow>
   cgi_state before out (r, k') acc"
  by (auto simp: cgi_state_def)

lemma ensure_final_state:
  assumes "cgi_state before out (r, k) acc" and "r_cgi_eof r" and "r_cgi_body_len r = 0"
  shows "cgi_state before out (ensure_final_chunk r, k) acc" and "cgi_queued (ensure_final_chunk r) = cgi_queued r"
    and "cgi_tail (ensure_final_chunk r) = cgi_tail r" and "r_cgi_eof (ensure_final_chunk r)"
proof -
  have e: "ensure_final_chunk r = (if r_cgi_final_chunk_len r = 0
      then r\<lparr>r_cgi_final_chunk := final_chunk, r_cgi_final_chunk_len := 5, r_cgi_final_chunk_sent := 0\<rparr> else r)"
    by (simp add: ensure_final_chunk_def final_chunk_def)
  show q: "cgi_queued (ensure_final_chunk r) = cgi_queued r" and t: "cgi_tail (ensure_final_chunk r) = cgi_tail r" and "r_cgi_eof (ensure_final_chunk r)"
    using assms(2,3) by (simp_all add: e cgi_queued_def cgi_header_rest_def cgi_tail_def cgi_final_rest_def slice_def)
  have "cgi_ok (ensure_final_chunk r)" if "cgi_ok r" using that assms(3) by (auto simp: e cgi_ok_def)
  then have "cgi_progress (ensure_final_chunk r) sent acc" if "cgi_progress r sent acc" for sent
    using that assms(2,3) q t unfolding cgi_progress_def by (simp add: e split: if_splits)
  with assms(1,2) show "cgi_state before out (ensure_final_chunk r, k) acc" by (auto simp: cgi_state_def e)
qed

lemma client_writable_state:
  assumes "cgi_state before out (r, k) acc" and "zv_cgi_on_client_writable a (r, k) = (rc, (r', k'))"
  shows "cgi_state before out (r', k') acc" and "rc = 0 \<Longrightarrow> r_cgi_eof r' \<and> cgi_queued r' @ cgi_tail r' = []" and "r_fd r' = r_fd r"
    and "r_cgi_out_limit r' = r_cgi_out_limit r"
proof -
  have "cgi_state before out (r', k') acc \<and> (rc = 0 \<longrightarrow> r_cgi_eof r' \<and> cgi_queued r' @ cgi_tail r' = []) \<and> r_fd r' = r_fd r \<and>
      r_cgi_out_limit r' = r_cgi_out_limit r"
  proof (cases "r_cgi_active r")
    case False
    with assms show ?thesis by (simp add: zv_cgi_on_client_writable_def)
  next
    case True
    obtain res r1 k1 where l: "cgi_send_loop (r, k) = (res, (r1, k1))" by (metis surj_pair)
    note st = cgi_send_loop_state [OF assms(1) l]
    have fd1: "r_fd r1 = r_fd r" "r_cgi_out_limit r1 = r_cgi_out_limit r" using st(3) by (simp_all add: same_source_def)
    note eq = assms(2) [unfolded zv_cgi_on_client_writable_def prod.case l]
    show ?thesis
    proof (cases res)
      case (Some c)
      then have "rc \<noteq> 0" using eq True cgi_send_loop_result [of "(r, k)"] l by auto
      with eq True Some st(1) fd1 show ?thesis by simp
    next
      case None
      show ?thesis
      proof (cases "r_cgi_eof r1")
        case eof: True
        have q: "cgi_queued r1 @ cgi_tail r1 = []" using st(2) None eof by simp
        have "cgi_ok r1" using st(1) by (auto simp: cgi_state_def cgi_progress_def)
        then have "r_cgi_body_len r1 = 0" using q by (auto simp: cgi_ok_def cgi_queued_def split: if_splits)
        note e = ensure_final_state [OF st(1) eof this]
        have "r_fd (ensure_final_chunk r1) = r_fd r" "r_cgi_out_limit (ensure_final_chunk r1) = r_cgi_out_limit r"
          using fd1 by (simp_all add: ensure_final_chunk_def)
        moreover have "r' = ensure_final_chunk r1" "k' = k1 \<or> k' = sys_waitpid (r_cgi_pid (ensure_final_chunk r1)) k1"
          using eq True None eof by (auto simp: Let_def split: if_splits)
        ultimately show ?thesis using e q cgi_state_kernel [OF e(1), of k'] by auto
      next
        case False
        with eq True None have "r' = r1" "rc = 2" "k_sent k' = k_sent k1" "k_in k' = k_in k1" by (auto split: if_splits)
        with st(1) fd1 cgi_state_kernel [OF st(1), of k'] show ?thesis by simp
      qed
    qed
  qed
  then show "cgi_state before out (r', k') acc" and "rc = 0 \<Longrightarrow> r_cgi_eof r' \<and> cgi_queued r' @ cgi_tail r' = []" and "r_fd r' = r_fd r"
    and "r_cgi_out_limit r' = r_cgi_out_limit r" by blast+
qed

text \<open>Events of one response. Between them, other connections are served and the timer changes.\<close>

inductive cgi_run :: "addr \<Rightarrow> zv_http_request \<times> kio \<Rightarrow> zv_http_request \<times> kio \<Rightarrow> bool" for a :: addr and x :: "zv_http_request \<times> kio" where
  start: "cgi_run a x x"
| readable: "cgi_run a x (r, k) \<Longrightarrow> r_cgi_out_fd r \<ge> 0 \<Longrightarrow> cgi_read_loop (r, k) = (next, x') \<Longrightarrow> next \<noteq> CgiClose \<Longrightarrow> cgi_run a x x'"
| writable: "cgi_run a x (r, k) \<Longrightarrow> zv_cgi_on_client_writable a (r, k) = (rc, x') \<Longrightarrow> rc \<noteq> -1 \<Longrightarrow> cgi_run a x x'"
| other: "cgi_run a x (r, k) \<Longrightarrow> k_sent k' (r_fd r) = k_sent k (r_fd r) \<Longrightarrow> k_in k' (r_cgi_out_fd r) = k_in k (r_cgi_out_fd r) \<Longrightarrow>
    cgi_run a x (r\<lparr>r_timer := t\<rparr>, k')"

lemma cgi_progress_timer: "cgi_progress (r\<lparr>r_timer := t\<rparr>) sent acc = cgi_progress r sent acc"
proof -
  have "cgi_ok (r\<lparr>r_timer := t\<rparr>) = cgi_ok r" "cgi_queued (r\<lparr>r_timer := t\<rparr>) = cgi_queued r" "cgi_tail (r\<lparr>r_timer := t\<rparr>) = cgi_tail r"
    "cgi_header_rest (r\<lparr>r_timer := t\<rparr>) = cgi_header_rest r"
    by (simp_all add: cgi_ok_def cgi_queued_def cgi_tail_def cgi_header_rest_def cgi_chunk_rest_def cgi_final_rest_def)
  then show ?thesis by (simp add: cgi_progress_def)
qed

lemma cgi_run_state:
  assumes "cgi_run a x y" and "cgi_state before out x []"
  shows "\<exists>acc. cgi_state before out y acc"
  using assms
proof (induction rule: cgi_run.induct)
  case start
  then show ?case by blast
next
  case (readable r k "next" x')
  then obtain acc where st: "cgi_state before out (r, k) acc" by blast
  then have "\<not> r_cgi_eof r" using readable(2) by (auto simp: cgi_state_def split: if_splits)
  from cgi_read_loop_state [OF st this readable(3,4)] show ?case by blast
next
  case (writable r k rc x')
  then show ?case using client_writable_state by (metis surj_pair)
next
  case (other r k k' t)
  then obtain acc where "cgi_state before out (r, k) acc" by blast
  with other(2,3) have "cgi_state before out (r, k') acc" by (rule cgi_state_kernel [rotated -1, rotated -1])
  then show ?case by (auto simp: cgi_state_def cgi_progress_timer)
qed

text \<open>A response just begun.\<close>

lemma cgi_state_start:
  assumes "r_cgi_final_chunk_len r = 0"
  shows "cgi_state (k_sent k (r_fd r)) (stream (k_in k fd)) (cgi_activate pid fd r, k) []"
  using assms by (simp add: cgi_state_def cgi_progress_def cgi_activate_def cgi_ok_def cgi_header_rest_def slice_def CGI_HDR_CAP_def)

section \<open>The response is the program's output\<close>


definition sample_cgi :: "zv_http_request \<times> kio" where
  "sample_cgi = (cgi_activate 9 7 (zero_request\<lparr>r_fd := 5, r_cgi_out_limit := 1048576\<rparr>),
     (quiet_kio [5, 7])\<lparr>k_in := (\<lambda>_. [])(7 := [Data ([LF, LF] @ ''page''), RErr EINTR, Eof]),
        k_out := (\<lambda>_. [])(5 := [Accept 1000, WErr EINTR, Accept 1000])\<rparr>)"

lemmas cgi_eval = sample_cgi_def cgi_read_loop.simps cgi_unsent_def cgi_activate_def quiet_kio_def sys_read_def sys_write_def CGI_BODY_CAP_def
  cgi_data_def cgi_header_data_def CGI_HDR_CAP_def Let_def cgi_headers_found_def build_http_header_def cgi_first_block_def prepare_chunk_prefix_def
  CGI_PREFIX_CAP_def CGI_HTTP_HEADER_CAP_def zero_request_def cgi_header_text_def CRLF_def cgi_reason_def get_shortmsg_from_status_code_def int_string_def
  print_nat.simps zv_cgi_on_client_writable_def cgi_send_loop.simps cgi_prepare_final_def cgi_iov_def cgi_header_rest_def cgi_chunk_rest_def cgi_final_rest_def
  slice_def cgi_consume_def cons_part_def cgi_consume_chunk_def cgi_chunk_done_def zv_epoll_mod_def cgi_eof_def ensure_final_chunk_def EINTR_def EAGAIN_def
  sys_close_def sys_waitpid_def numeral_2_eq_2

definition sample_cgi1 :: "zv_http_request \<times> kio" where
  "sample_cgi1 = snd (cgi_read_loop sample_cgi)"

definition sample_cgi2 :: "zv_http_request \<times> kio" where
  "sample_cgi2 = snd (zv_cgi_on_client_writable 1 sample_cgi1)"

definition sample_cgi3 :: "zv_http_request \<times> kio" where
  "sample_cgi3 = snd (cgi_read_loop sample_cgi2)"

lemma sample_read1: "r_cgi_out_fd (fst sample_cgi) \<ge> 0 \<and> fst (cgi_read_loop sample_cgi) = CgiWrite"
  by (simp add: cgi_eval)

lemma sample_write1: "fst (zv_cgi_on_client_writable 1 sample_cgi1) = 2"
  by (simp add: sample_cgi1_def cgi_eval)

lemma sample_read2: "r_cgi_out_fd (fst sample_cgi2) \<ge> 0 \<and> fst (cgi_read_loop sample_cgi2) = CgiWrite"
  by (simp add: sample_cgi1_def sample_cgi2_def cgi_eval)

lemma sample_write2: "fst (zv_cgi_on_client_writable 1 sample_cgi3) = 0"
  by (simp add: sample_cgi1_def sample_cgi2_def sample_cgi3_def cgi_eval)

lemma sample_cgi_run: "cgi_run 1 sample_cgi sample_cgi3"
proof -
  have "cgi_run 1 sample_cgi sample_cgi1"
    using cgi_run.readable [of 1 sample_cgi "fst sample_cgi" "snd sample_cgi"] cgi_run.start sample_read1
    unfolding sample_cgi1_def by (metis cgi_next.distinct(1) prod.collapse)
  then have "cgi_run 1 sample_cgi sample_cgi2"
    using cgi_run.writable [of 1 sample_cgi "fst sample_cgi1" "snd sample_cgi1"] sample_write1
    unfolding sample_cgi2_def by (metis prod.collapse one_neq_neg_one numeral_neq_neg_one)
  then show ?thesis
    using cgi_run.readable [of 1 sample_cgi "fst sample_cgi2" "snd sample_cgi2"] sample_read2
    unfolding sample_cgi3_def by (metis cgi_next.distinct(1) prod.collapse)
qed


end
