(* ===== verification/Zv_Server.thy ===== *)
theory Zv_Server
  imports Zv_Cgi Zv_Path
begin

text \<open>
  Serving a connection: \<^verbatim>\<open>do_request\<close>, \<^verbatim>\<open>handle_cgi_mvp\<close> and \<^verbatim>\<open>do_write\<close> of \<^verbatim>\<open>src/src/http.c\<close>. One pass of the loop of \<^verbatim>\<open>do_request\<close> is cut into the definitions
  \<open>request_fill\<close> (reading), \<open>request_parse\<close>, \<open>handle_cgi_mvp\<close>, \<open>request_static\<close> and \<open>request_done\<close>; each tells with a value of \<open>flow\<close> how the C code goes on. A crash (a
  null pointer that is followed), a call of \<^verbatim>\<open>exit\<close> and a loop that does not end are values of \<open>outcome\<close>; the loop is a partial function, so a
  connection on which it never ends has no result.

  The file system, the calendar and the bytes that a new \<^verbatim>\<open>zv_http_out_t\<close> happens to hold are the parameter \<open>env\<close>.
\<close>

section \<open>The environment\<close>

record stat_buf =
  st_regular :: bool
  st_readable :: bool
  st_executable :: bool
  st_size :: nat
  st_mtime :: int

record env =
  e_date :: date_fun
  e_strftime :: "int \<Rightarrow> string"
  e_stat :: "string \<Rightarrow> stat_buf option"
  e_realpath :: "string \<Rightarrow> string option"
  e_content :: "string \<Rightarrow> string option"
  e_heap :: zv_http_out

section \<open>Parts shared by the handlers\<close>

text \<open>A function on the request and the kernel, applied to the memory.\<close>

definition run_req :: "addr \<Rightarrow> (zv_http_request \<times> kio \<Rightarrow> 'b \<times> (zv_http_request \<times> kio)) \<Rightarrow> 'z req_mem_scheme \<Rightarrow> 'b \<times> 'z req_mem_scheme" where
  "run_req a f s = (case f (req a s, io s) of (x, (r, k)) \<Rightarrow> (x, set_req a r (s\<lparr>io := k\<rparr>)))"

definition upd_req :: "addr \<Rightarrow> (zv_http_request \<Rightarrow> zv_http_request) \<Rightarrow> 'z req_mem_scheme \<Rightarrow> 'z req_mem_scheme" where
  "upd_req a f s = set_req a (f (req a s)) s"

text \<open>\<^verbatim>\<open>prepare_error\<close> followed by \<^verbatim>\<open>try_send\<close>: negative on failure, one if the client is slow.\<close>

definition reply_error :: "addr \<Rightarrow> string \<Rightarrow> string \<Rightarrow> string \<Rightarrow> string \<Rightarrow> bool \<Rightarrow> 'z timer_mem_scheme \<Rightarrow> int \<times> 'z timer_mem_scheme" where
  "reply_error a cause errnum shortmsg longmsg keep_alive s =
     (case alloc_answer s of (ok, s) \<Rightarrow>
        case run_req a (prepare_error ok cause errnum shortmsg longmsg keep_alive) s of (rc, s) \<Rightarrow>
          if rc < 0 then (-1, s) else run_req a try_send s)"

text \<open>The rest of the response is left to the write handler.\<close>

definition wait_writable :: "addr \<Rightarrow> 'z timer_mem_scheme \<Rightarrow> 'z timer_mem_scheme outcome" where
  "wait_writable a s =
     zv_add_timer a (r_request_timeout_ms (req a s)) (Some H_zv_http_close_conn) (s\<lparr>io := rearm_event a EPOLLOUT (req a s, io s)\<rparr>)"

definition set_writing :: "addr \<Rightarrow> 'z timer_mem_scheme \<Rightarrow> 'z timer_mem_scheme" where
  "set_writing a = upd_req a (\<lambda>r. r\<lparr>r_writing := True\<rparr>)"

section \<open>CGI requests\<close>

definition ZV_CGI_NOT :: int where "ZV_CGI_NOT = 0"
definition ZV_CGI_RETURN :: int where "ZV_CGI_RETURN = 1"
definition ZV_CGI_CLOSE :: int where "ZV_CGI_CLOSE = 2"

definition cgi_error ::
  "addr \<Rightarrow> string \<Rightarrow> string \<Rightarrow> string \<Rightarrow> string \<Rightarrow> 'z timer_mem_scheme \<Rightarrow> (int \<times> 'z timer_mem_scheme) outcome" where
  "cgi_error a cause errnum shortmsg longmsg s =
     (case reply_error a cause errnum shortmsg longmsg False s of (rc, s) \<Rightarrow>
        if rc < 0 then Ok (-1, s)
        else if rc = 1 then andthen (wait_writable a (set_writing a s)) (\<lambda>s. Ok (ZV_CGI_RETURN, s))
        else Ok (ZV_CGI_CLOSE, s))"

text \<open>The URI of the request and its part before the first question mark.\<close>

definition uri_text :: "'z zv_req_parse_scheme \<Rightarrow> string" where
  "uri_text r = take (ptr (r_uri_end r) - ptr (r_uri_start r)) (drop (ptr (r_uri_start r)) (r_buf r))"

definition uri_path :: "string \<Rightarrow> string" where
  "uri_path uri = takeWhile (\<lambda>c. c \<noteq> CHR ''?'') uri"

definition cgi_query :: "string \<Rightarrow> string option" where
  "cgi_query uri =
     (let q = drop (length (uri_path uri) + 1) uri
      in if length (uri_path uri) < length uri \<and> q \<noteq> [] then Some (take (SHORTLINE - 1) q) else None)"

definition CGI_BIN :: string where "CGI_BIN = ''/cgi-bin/''"

text \<open>The file name under the document root, with an error response for every way in which the URI is unusable.\<close>

definition cgi_path :: "addr \<Rightarrow> string \<Rightarrow> string option \<Rightarrow> 'z timer_mem_scheme \<Rightarrow> (int \<times> 'z timer_mem_scheme) outcome + string" where
  "cgi_path a path root s =
     (case percent_decode path SHORTLINE of
        None \<Rightarrow> Inl (cgi_error a ''invalid cgi uri'' ''400'' ''Bad Request'' ''invalid cgi uri'' s)
      | Some decoded \<Rightarrow>
          (case normalize_abs_path decoded SHORTLINE of
             None \<Rightarrow> Inl (cgi_error a ''invalid cgi uri'' ''400'' ''Bad Request'' ''invalid cgi uri'' s)
           | Some norm \<Rightarrow>
               if \<not> strncmp_eq norm CGI_BIN 9
               then Inl (cgi_error a ''invalid cgi uri'' ''403'' ''Forbidden'' ''invalid cgi uri'' s)
               else
                 let text = (case root of None \<Rightarrow> ''(null)'' | Some d \<Rightarrow> d) @ norm
                 in if length text \<ge> SHORTLINE
                    then Inl (cgi_error a ''cgi path too long'' ''400'' ''Bad Request'' ''cgi path too long'' s)
                    else Inr text))"

text \<open>The checks of the file, and the start of the program.\<close>

definition cgi_execute :: "env \<Rightarrow> addr \<Rightarrow> string \<Rightarrow> string \<Rightarrow> string option \<Rightarrow> 'z timer_mem_scheme \<Rightarrow> (int \<times> 'z timer_mem_scheme) outcome" where
  "cgi_execute e a filename script_name qs s =
     (if (case e_stat e filename of None \<Rightarrow> True | Some sb \<Rightarrow> \<not> st_regular sb \<or> \<not> st_executable sb)
      then cgi_error a filename ''404'' ''Not Found'' ''cgi not found'' s
      else if \<not> is_path_under_root_real (e_realpath e) (r_root (req a s)) filename
      then cgi_error a filename ''403'' ''Forbidden'' ''cgi path is outside docroot'' s
      else
        andthen (zv_cgi_start a filename script_name qs s) (\<lambda>(rc, s).
          if rc \<noteq> 0 then cgi_error a ''cgi'' ''500'' ''Internal Server Error'' ''cgi start failed'' s
          else Ok (ZV_CGI_RETURN, s)))"

definition handle_cgi_mvp :: "env \<Rightarrow> addr \<Rightarrow> 'z timer_mem_scheme \<Rightarrow> (int \<times> 'z timer_mem_scheme) outcome" where
  "handle_cgi_mvp e a s =
     (let r = req a s; uri = uri_text r; path = uri_path uri
      in if r_uri_start r = None \<or> r_uri_end r = None then Ok (ZV_CGI_NOT, s)
         else if length path < 9 \<or> \<not> strncmp_eq (drop (ptr (r_uri_start r)) (r_buf r)) CGI_BIN 9 then Ok (ZV_CGI_NOT, s)
         else if r_method r \<noteq> ZV_HTTP_GET then cgi_error a ''cgi'' ''405'' ''Method Not Allowed'' ''cgi GET only'' s
         else
           andthen (ends (zv_http_handle_header (e_date e) a (s, zv_init_out_t (r_fd r) (e_heap e)))) (\<lambda>(s, _).
             if length path \<ge> SHORTLINE then cgi_error a ''cgi uri too long'' ''400'' ''Bad Request'' ''cgi uri too long'' s
             else
               case cgi_path a path (r_root r) s of
                 Inl result \<Rightarrow> result
               | Inr filename \<Rightarrow> cgi_execute e a filename path (cgi_query uri) s))"

section \<open>Reading and parsing\<close>

text \<open>How the loop goes on: with the next part, with the next pass, at the label \<^verbatim>\<open>err\<close>, after the loop, or not at all.\<close>

datatype flow = Next | Again | Close | Break | Return

definition request_fill :: "addr \<Rightarrow> 'z req_mem_scheme \<Rightarrow> flow \<times> 'z req_mem_scheme" where
  "request_fill a s =
     (let r = req a s
      in if r_parse_pos r < r_last r then (Next, s)
         else if r_last r \<ge> MAX_BUF - 1 then (Close, s)
         else
           case sys_read (r_fd r) (MAX_BUF - r_last r - 1) (io s) of
             (Inr bs, k) \<Rightarrow>
               if bs = [] then (Close, s\<lparr>io := k\<rparr>)
               else (Next, set_req a (r\<lparr>r_buf := take (r_last r) (r_buf r) @ bs @ drop (r_last r + length bs) (r_buf r),
                                        r_last := r_last r + length bs\<rparr>) (s\<lparr>io := k\<rparr>))
           | (Inl e, k) \<Rightarrow> (if e = EAGAIN then Break else Close, s\<lparr>io := k\<rparr>))"

definition parse_line_phase :: "addr \<Rightarrow> 'z req_mem_scheme \<Rightarrow> flow \<times> 'z req_mem_scheme" where
  "parse_line_phase a s =
     (if r_parse_phase (req a s) = 0 then
        (case zv_http_parse_request_line (req a s) of (rc, r) \<Rightarrow>
           if rc = ZV_AGAIN then (Again, set_req a r s)
           else if rc \<noteq> ZV_OK then (Close, set_req a r s)
           else (Next, set_req a (r\<lparr>r_parse_phase := 1\<rparr>) s))
      else (Next, s))"

definition parse_headers_phase :: "addr \<Rightarrow> 'z req_mem_scheme \<Rightarrow> flow \<times> 'z req_mem_scheme" where
  "parse_headers_phase a s =
     (if r_parse_phase (req a s) = 1 then
        (case zv_http_parse_request_body a (s, req a s) of (rc, (s, r)) \<Rightarrow>
           if rc = ZV_AGAIN then (Again, set_req a r s)
           else if rc \<noteq> ZV_OK then (Close, set_req a r s)
           else (Next, set_req a (r\<lparr>r_parse_phase := 2\<rparr>) s))
      else (Next, s))"

definition request_parse :: "addr \<Rightarrow> 'z req_mem_scheme \<Rightarrow> flow \<times> 'z req_mem_scheme" where
  "request_parse a s =
     (case request_fill a s of (fl, s) \<Rightarrow>
        if fl \<noteq> Next then (fl, s)
        else case parse_line_phase a s of (fl, s) \<Rightarrow> if fl \<noteq> Next then (fl, s) else parse_headers_phase a s)"

section \<open>Static files\<close>

text \<open>An error response in the middle of a request; what is left of it is sent later.\<close>

definition static_error :: "addr \<Rightarrow> string \<Rightarrow> string \<Rightarrow> string \<Rightarrow> string \<Rightarrow> bool \<Rightarrow> 'z timer_mem_scheme \<Rightarrow> flow \<times> 'z timer_mem_scheme" where
  "static_error a cause errnum shortmsg longmsg keep_alive s =
     (case reply_error a cause errnum shortmsg longmsg keep_alive s of (rc, s) \<Rightarrow>
        if rc < 0 then (Close, s) else if rc = 1 then (Next, set_writing a s) else (Next, on_req a reset_output s))"

definition static_reply :: "env \<Rightarrow> addr \<Rightarrow> string \<Rightarrow> zv_http_out \<Rightarrow> 'z timer_mem_scheme \<Rightarrow> flow \<times> 'z timer_mem_scheme" where
  "static_reply e a filename out s =
     (case e_stat e filename of
        None \<Rightarrow> static_error a filename ''404'' ''Not Found'' (''zaver can'' @ [CHR 0x27] @ ''t find the file'') (o_keep_alive out) s
      | Some sb \<Rightarrow>
          if \<not> is_path_under_root_real (e_realpath e) (r_root (req a s)) filename
          then static_error a filename ''403'' ''Forbidden'' ''path is outside docroot'' (o_keep_alive out) s
          else if \<not> st_regular sb \<or> \<not> st_readable sb
          then static_error a filename ''403'' ''Forbidden'' (''zaver can'' @ [CHR 0x27] @ ''t read the file'') (o_keep_alive out) s
          else
            let out = out\<lparr>o_mtime := st_mtime sb, o_status := (if o_status out = 0 then ZV_HTTP_OK else o_status out)\<rparr>
            in case run_req a (prepare_static (e_content e) (e_strftime e) filename (st_size sb) out) s of (rc, s) \<Rightarrow>
                 if rc < 0 then (Close, s)
                 else case run_req a try_send s of (rc, s) \<Rightarrow>
                   if rc < 0 then (Close, s) else if rc = 1 then (Next, set_writing a s) else (Next, on_req a reset_output s))"

text \<open>The URI is unusable.\<close>

definition bad_uri :: "addr \<Rightarrow> 'z timer_mem_scheme \<Rightarrow> (flow \<times> 'z timer_mem_scheme) outcome" where
  "bad_uri a s =
     (case reply_error a ''invalid uri'' ''400'' ''Bad Request'' ''invalid uri'' False s of (rc, s) \<Rightarrow>
        if rc < 0 then Ok (Close, s)
        else if rc = 1 then andthen (wait_writable a (set_writing a s)) (\<lambda>s. Ok (Return, s))
        else Ok (Close, on_req a reset_output s))"

text \<open>The end of a request: the bytes behind it move to the front of the buffer.\<close>

definition next_request :: "zv_http_request \<Rightarrow> zv_http_request" where
  "next_request r =
     (let rest = r_last r - r_parse_pos r;
          r = (if r_parse_pos r > 0
               then r\<lparr>r_buf := take rest (drop (r_parse_pos r) (r_buf r)) @ drop rest (r_buf r), r_last := rest\<rparr> else r)
      in r\<lparr>r_parse_pos := 0, r_request_line_state := rl_start, r_header_state := hd_start, r_parse_phase := 0, r_request_start := None,
           r_method_end := None, r_uri_start := None, r_uri_end := None, r_request_end := None\<rparr>)"

definition request_done :: "addr \<Rightarrow> bool \<Rightarrow> 'z timer_mem_scheme \<Rightarrow> (flow \<times> 'z timer_mem_scheme) outcome" where
  "request_done a keep_alive s =
     (if r_parse_pos (req a s) > r_last (req a s) then Ok (Close, s)
      else
        let s = upd_req a next_request s
        in if r_writing (req a s) then andthen (wait_writable a s) (\<lambda>s. Ok (Return, s))
           else if \<not> keep_alive then Ok (Close, s)
           else Ok (Again, s))"

definition request_static :: "env \<Rightarrow> addr \<Rightarrow> 'z timer_mem_scheme \<Rightarrow> (flow \<times> 'z timer_mem_scheme) outcome" where
  "request_static e a s =
     (case parse_uri (r_root (req a s)) (uri_text (req a s)) SHORTLINE of
        None \<Rightarrow> bad_uri a s
      | Some filename \<Rightarrow>
          (case alloc_answer s of (ok, s) \<Rightarrow>
             if \<not> ok then Exit 1
             else
               andthen (ends (zv_http_handle_header (e_date e) a (s, zv_init_out_t (r_fd (req a s)) (e_heap e)))) (\<lambda>(s, out).
                 case static_reply e a filename out s of (fl, s) \<Rightarrow>
                   if fl \<noteq> Next then Ok (fl, s) else request_done a (o_keep_alive out) s)))"

section \<open>The read handler\<close>

text \<open>One pass of the loop.\<close>

definition request_pass :: "env \<Rightarrow> addr \<Rightarrow> 'z timer_mem_scheme \<Rightarrow> (flow \<times> 'z timer_mem_scheme) outcome" where
  "request_pass e a s =
     (case request_parse a s of (fl, s) \<Rightarrow>
        if fl \<noteq> Next then Ok (fl, s)
        else
          andthen (handle_cgi_mvp e a s) (\<lambda>(rc, s).
            if rc < 0 then Ok (Close, s)
            else if rc = ZV_CGI_RETURN then Ok (Return, s)
            else if rc = ZV_CGI_CLOSE then Ok (Close, s)
            else request_static e a s))"

partial_function (option) request_loop :: "env \<Rightarrow> addr \<Rightarrow> 'z timer_mem_scheme \<Rightarrow> (flow \<times> 'z timer_mem_scheme) outcome option" where
  "request_loop e a s =
     (case request_pass e a s of
        Ok (fl, s') \<Rightarrow> if fl = Again then request_loop e a s' else Some (Ok (fl, s'))
      | Exit n \<Rightarrow> Some (Exit n)
      | Crash \<Rightarrow> Some Crash
      | Hang \<Rightarrow> Some Hang)"

text \<open>After the loop.\<close>

definition request_finish :: "addr \<Rightarrow> flow \<times> 'z timer_mem_scheme \<Rightarrow> 'z timer_mem_scheme outcome" where
  "request_finish a = (\<lambda>(fl, s).
     case fl of
       Break \<Rightarrow>
         let r = req a s
         in zv_add_timer a (if r_last r > 0 \<or> r_parse_phase r \<noteq> 0 then r_request_timeout_ms r else r_keep_alive_timeout_ms r)
              (Some H_zv_http_close_conn) (s\<lparr>io := rearm_event a EPOLLIN (r, io s)\<rparr>)
     | Close \<Rightarrow> ends (zv_http_close_conn a (on_req a reset_output s))
     | _ \<Rightarrow> Ok s)"

definition do_request :: "env \<Rightarrow> addr \<Rightarrow> 'z timer_mem_scheme \<Rightarrow> 'z timer_mem_scheme outcome" where
  "do_request e a s =
     andthen (zv_del_timer a s) (\<lambda>s.
       case request_loop e a s of
         None \<Rightarrow> Hang
       | Some res \<Rightarrow> andthen res (request_finish a))"

section \<open>The write handler\<close>

definition cgi_write :: "addr \<Rightarrow> 'z timer_mem_scheme \<Rightarrow> 'z timer_mem_scheme outcome" where
  "cgi_write a s =
     (case run_req a (zv_cgi_on_client_writable a) s of (c, s) \<Rightarrow>
        if c = 1 then wait_writable a s
        else if c = 2 then zv_add_timer a (r_request_timeout_ms (req a s)) (Some H_zv_http_close_conn) s
        else ends (zv_http_close_conn a s))"

definition do_write :: "addr \<Rightarrow> 'z timer_mem_scheme \<Rightarrow> 'z timer_mem_scheme outcome" where
  "do_write a s =
     andthen (zv_del_timer a s) (\<lambda>s.
       if r_cgi_active (req a s) then cgi_write a s
       else
         case run_req a try_send s of (rc, s) \<Rightarrow>
           if rc = 1 then wait_writable a (set_writing a s)
           else if rc < 0 then ends (zv_http_close_conn a (on_req a reset_output s))
           else
             let s = on_req a reset_output (upd_req a (\<lambda>r. r\<lparr>r_writing := False\<rparr>) s)
             in if \<not> r_keep_alive (req a s) then ends (zv_http_close_conn a s)
                else zv_add_timer a (r_keep_alive_timeout_ms (req a s)) (Some H_zv_http_close_conn)
                       (s\<lparr>io := rearm_event a EPOLLIN (req a s, io s)\<rparr>))"

end
