(* ===== verification/Zv_Handler.thy ===== *)
theory Zv_Handler
  imports Zv_Server Zv_Cgi_Stream Zv_Parse_Headers
begin

text \<open>
  The handlers of \<open>Zv_Server\<close> keep the worker consistent: from a consistent state in which the connection has a timer, a handler ends with the connection closed and
  its request given up, or with the connection waiting for an event and a timer set, and it touches no other request; no null or freed pointer is
  followed as long as the allocator answers.

  \<open>busy\<close> is the state inside a handler (the timer is deleted), \<open>waiting\<close> the state between two events. The operations on the request and the kernel share one
  contract, the locale \<open>output_op\<close>, of which they are instances.
\<close>

section \<open>States of a connection\<close>

definition conn_ok :: "'z zv_req_parse_scheme \<Rightarrow> bool" where
  "conn_ok r \<longleftrightarrow> buf_ok r \<and> r_parse_pos r \<le> r_last r \<and> r_last r < MAX_BUF"

definition conn_same :: "zv_http_request \<Rightarrow> zv_http_request \<Rightarrow> bool" where
  "conn_same r r' \<longleftrightarrow>
     r_buf r' = r_buf r \<and> r_last r' = r_last r \<and> r_parse_pos r' = r_parse_pos r \<and> r_parse_phase r' = r_parse_phase r \<and> r_fd r' = r_fd r \<and>
     r_timer r' = r_timer r"

lemma conn_same_refl [simp]: "conn_same r r"
  by (simp add: conn_same_def)

lemma conn_same_trans: "conn_same r r' \<Longrightarrow> conn_same r' r'' \<Longrightarrow> conn_same r r''"
  by (simp add: conn_same_def)

lemma conn_same_ok: "conn_same r r' \<Longrightarrow> conn_ok r' = conn_ok r"
  by (simp add: conn_same_def conn_ok_def buf_ok_def)

definition granted :: "'z memory_scheme \<Rightarrow> bool" where
  "granted s \<longleftrightarrow> False \<notin> set (mallocs s)"

lemma granted_iff: "granted s \<longleftrightarrow> (\<forall>m \<in> set (mallocs s). m)"
  unfolding granted_def by (metis (full_types))

definition busy :: "addr set \<Rightarrow> addr \<Rightarrow> 'z timer_mem_scheme \<Rightarrow> bool" where
  "busy own a s \<longleftrightarrow> worker_inv s own \<and> a \<in> own \<and> r_timer (req a s) = NULL \<and> conn_ok (req a s) \<and> granted s"

definition waiting :: "addr set \<Rightarrow> addr \<Rightarrow> 'z timer_mem_scheme \<Rightarrow> bool" where
  "waiting own a s \<longleftrightarrow> worker_inv s own \<and> a \<in> own \<and> r_timer (req a s) \<noteq> NULL \<and> conn_ok (req a s) \<and> granted s"

definition gone :: "addr set \<Rightarrow> addr \<Rightarrow> 'z timer_mem_scheme \<Rightarrow> bool" where
  "gone own a s \<longleftrightarrow> worker_inv s (own - {a}) \<and> length (r_buf (req a s)) = MAX_BUF \<and> granted s"

text \<open>Nothing but the request of the connection changes, and the clock goes on.\<close>

definition touches :: "addr \<Rightarrow> 'z timer_mem_scheme \<Rightarrow> 'z timer_mem_scheme \<Rightarrow> bool" where
  "touches a s s' \<longleftrightarrow>
     (\<forall>c. c \<noteq> a \<longrightarrow> reqs s' c = reqs s c) \<and> clock s' = clock s \<and> (clock_ok s \<longrightarrow> clock_ok s') \<and> timer_mem.more s' = timer_mem.more s"

lemma touches_refl [simp]: "touches a s s"
  by (simp add: touches_def)

lemma touches_trans: "touches a s s' \<Longrightarrow> touches a s' s'' \<Longrightarrow> touches a s s''"
  by (simp add: touches_def)

definition served :: "addr set \<Rightarrow> addr \<Rightarrow> 'z timer_mem_scheme \<Rightarrow> 'z timer_mem_scheme outcome \<Rightarrow> bool" where
  "served own a s res \<longleftrightarrow> (\<exists>s'. res = Ok s' \<and> touches a s s' \<and> (waiting own a s' \<or> gone own a s'))"

lemma served_step: "touches a s s1 \<Longrightarrow> served own a s1 res \<Longrightarrow> served own a s res"
  by (auto simp: served_def intro: touches_trans)

section \<open>Steps inside a handler\<close>

lemma busy_req:
  assumes "busy own a s"
  obtains r where "reqs s a = Some r" and "req a s = r"
  using assms worker_inv_own by (metis busy_def)

lemma busy_set_req:
  assumes "busy own a s" and "r_timer r = NULL" and "conn_ok r"
  shows "busy own a (set_req a r (s\<lparr>io := k\<rparr>))" and "touches a s (set_req a r (s\<lparr>io := k\<rparr>))"
proof -
  obtain r0 where r0: "reqs s a = Some r0" using busy_req [OF assms(1)] .
  have "worker_inv s own" "r_timer (req a s) = NULL" using assms(1) by (simp_all add: busy_def)
  then have "worker_inv (set_req a r (s\<lparr>io := k\<rparr>)) own"
    using r0 assms(2) by (elim worker_inv_cong) (auto simp: set_req_def req_def)
  then show "busy own a (set_req a r (s\<lparr>io := k\<rparr>))" using assms by (simp add: busy_def granted_def set_req_def req_def)
  show "touches a s (set_req a r (s\<lparr>io := k\<rparr>))" by (simp add: touches_def set_req_def clock_ok_def)
qed

lemma busy_io:
  assumes "busy own a s"
  shows "busy own a (s\<lparr>io := k\<rparr>)" and "touches a s (s\<lparr>io := k\<rparr>)"
proof -
  have "worker_inv s own" using assms by (simp add: busy_def)
  then have "worker_inv (s\<lparr>io := k\<rparr>) own" by (rule worker_inv_cong) (simp_all add: req_def)
  then show "busy own a (s\<lparr>io := k\<rparr>)" using assms by (simp add: busy_def granted_def req_def)
  show "touches a s (s\<lparr>io := k\<rparr>)" by (simp add: touches_def clock_ok_def)
qed

lemma set_req_io: "set_req a r s = set_req a r (s\<lparr>io := io s\<rparr>)"
  by simp

lemma busy_upd:
  assumes "busy own a s" and "r_timer (f (req a s)) = NULL" and "conn_ok (f (req a s))"
  shows "busy own a (upd_req a f s)" and "touches a s (upd_req a f s)"
  using busy_set_req [OF assms, of "io s"] by (simp_all add: upd_req_def)

lemma busy_alloc:
  assumes "busy own a s" and "alloc_answer s = (ok, s1)"
  shows "ok" and "busy own a s1" and "touches a s s1" and "req a s1 = req a s" and "io s1 = io s"
proof -
  have g: "\<forall>m \<in> set (mallocs s). m" and w: "worker_inv s own" using assms(1) granted_iff busy_def by blast+
  have s1: "ok \<and> (s1 = s \<or> s1 = s\<lparr>mallocs := tl (mallocs s)\<rparr>)"
    using assms(2) g by (auto simp: alloc_answer_def split: list.splits)
  then show "ok" "req a s1 = req a s" "io s1 = io s" "touches a s s1" by (auto simp: req_def touches_def clock_ok_def)
  have "worker_inv s1 own" using s1 by (auto intro!: worker_inv_cong [OF w] simp: req_def)
  moreover have "granted s1" using s1 g by (cases "mallocs s") (auto simp: granted_def)
  ultimately show "busy own a s1" using assms(1) \<open>req a s1 = req a s\<close> by (simp add: busy_def)
qed

lemma clock_ok_tick: "clock_ok s \<Longrightarrow> clock s' = clock s \<Longrightarrow> ticks s' = ticks s + 1 \<Longrightarrow> zv_current_msec s' = msec (clock s (ticks s)) \<Longrightarrow> clock_ok s'"
  by (simp add: clock_ok_def)

lemma add_timer_clock:
  fixes s :: "'a timer_mem_scheme"
  assumes "zv_add_timer a tm h s = Ok s'"
  shows "ticks s' = ticks s + 1 \<and> zv_current_msec s' = msec (clock s (ticks s))"
proof -
  obtain t s1 where m: "malloc s = (t, s1)" by fastforce
  have m1: "clock s1 = clock s" "ticks s1 = ticks s" using m by (auto simp: malloc_def split: list.splits bool.splits)
  have al: "ticks (snd (alloc_answer s2)) = ticks s2" "zv_current_msec (snd (alloc_answer s2)) = zv_current_msec s2" for s2 :: "'a timer_mem_scheme"
    by (simp_all add: alloc_answer_def split: list.split)
  obtain s2 q where s2: "s' = snd (alloc_answer s2)\<lparr>zv_timer := q\<rparr>" and "ticks s2 = ticks (zv_time_update s1)"
    "zv_current_msec s2 = zv_current_msec (zv_time_update s1)"
  proof (cases "reqs (zv_time_update s1) a")
    case None
    then have False using assms m by (simp add: zv_add_timer_def Let_def)
    then show thesis ..
  next
    case (Some r)
    have "t \<noteq> NULL"
    proof
      assume "t = NULL"
      with assms m Some show False by (simp add: zv_add_timer_def Let_def)
    qed
    let ?s2 = "set_req a (r\<lparr>r_timer := t\<rparr>) (zv_time_update s1)"
    let ?s3 = "?s2\<lparr>tnodes := (tnodes ?s2)(t \<mapsto> \<lparr>t_key = zv_current_msec ?s2 + tm, t_deleted = False, t_handler = h, t_rq = a\<rparr>)\<rparr>"
    obtain ok s4 where s4: "alloc_answer ?s3 = (ok, s4)" by fastforce
    have "s' = s4\<lparr>zv_timer := snd (zv_pq_insert ok (tnodes s4) (zv_timer s4) t)\<rparr>"
      using assms m Some \<open>t \<noteq> NULL\<close> s4 by (simp add: zv_add_timer_def Let_def)
    then show thesis using that [of _ ?s3] s4 by (simp add: set_req_def)
  qed
  then show ?thesis using al [of s2] m1 by (simp add: zv_time_update_def)
qed

lemma del_timer_clock:
  assumes "zv_del_timer a s = Ok s'"
  shows "ticks s' = ticks s + 1 \<and> zv_current_msec s' = msec (clock s (ticks s))"
  using assms by (auto simp: zv_del_timer_def zv_time_update_def Let_def set_req_def split: option.splits if_splits)

text \<open>Waiting again.\<close>

lemma busy_add_timer:
  assumes "busy own a s"
  shows "\<exists>s'. zv_add_timer a t (Some H_zv_http_close_conn) (s\<lparr>io := k\<rparr>) = Ok s' \<and> waiting own a s' \<and> touches a s s'"
proof -
  let ?s = "s\<lparr>io := k\<rparr>"
  have "busy own a ?s" by (rule busy_io(1) [OF assms])
  then have pre: "worker_inv ?s own" "a \<in> own" "r_timer (req a ?s) = NULL" "\<forall>m \<in> set (mallocs ?s). m" "conn_ok (req a ?s)"
    using granted_iff busy_def by blast+
  obtain s' tm where s': "zv_add_timer a t (Some H_zv_http_close_conn) ?s = Ok s'" "worker_inv s' own"
    "reqs s' = (reqs ?s)(a \<mapsto> (req a ?s)\<lparr>r_timer := tm\<rparr>)" "tm \<noteq> NULL" "\<forall>m \<in> set (mallocs s'). m" "clock s' = clock ?s" "timer_mem.more s' = timer_mem.more ?s"
    using worker_inv_add_timer [OF pre(1-4), where tmo = t] by metis
  have "conn_ok (req a s')" using pre(5) s'(3) by (simp add: conn_ok_def buf_ok_def req_def)
  moreover have "r_timer (req a s') \<noteq> NULL" using s'(3,4) by (simp add: req_def)
  moreover have "granted s'" using s'(5) granted_iff by blast
  ultimately have "waiting own a s'" using s'(2) pre(2) by (simp add: waiting_def)
  moreover have "touches a s s'"
    using s'(3,6,7) add_timer_clock [OF s'(1)] clock_ok_tick [of s s'] by (auto simp: touches_def)
  ultimately show ?thesis using s'(1) by blast
qed

lemma busy_add_timer0:
  "busy own a s \<Longrightarrow> \<exists>s'. zv_add_timer a t (Some H_zv_http_close_conn) s = Ok s' \<and> waiting own a s' \<and> touches a s s'"
  using busy_add_timer [of own a s t "io s"] by simp

text \<open>Closing.\<close>

lemma closed_buf: "r_buf (fst (free_resources (r, k))) = r_buf r"
  by (simp add: free_resources_def Let_def)

lemma busy_close:
  assumes "busy own a s"
  shows "\<exists>s'. ends (zv_http_close_conn a s) = Ok s' \<and> gone own a s' \<and> touches a s s'"
proof -
  have pre: "worker_inv s own" "a \<in> own" "r_timer (req a s) = NULL" "granted s" using assms by (simp_all add: busy_def)
  obtain s' where s': "zv_http_close_conn a s = Some s'" "worker_inv s' (own - {a})"
    "reqs s' = (reqs s)(a \<mapsto> closed_request (req a s) (io s))" "mallocs s' = mallocs s"
    using worker_inv_close [OF pre(1-3)] by metis
  have "touches a s s'" using s'(3) close_conn_timer [OF s'(1)] by (auto simp: touches_def clock_ok_def)
  moreover have "length (r_buf (req a s')) = MAX_BUF"
    using assms by (simp add: s'(3) req_def closed_request_def closed_buf) (simp add: busy_def conn_ok_def buf_ok_def req_def)
  ultimately show ?thesis using s' pre(4) by (auto simp: gone_def granted_def)
qed

lemma served_close: "busy own a s \<Longrightarrow> served own a s (ends (zv_http_close_conn a s))"
  using busy_close [of own a s] by (auto simp: served_def)

lemma served_wait: "busy own a s \<Longrightarrow> served own a s (zv_add_timer a t (Some H_zv_http_close_conn) (s\<lparr>io := k\<rparr>))"
  using busy_add_timer [of own a s t k] by (auto simp: served_def)

lemma served_wait0: "busy own a s \<Longrightarrow> served own a s (zv_add_timer a t (Some H_zv_http_close_conn) s)"
  using busy_add_timer0 [of own a s t] by (auto simp: served_def)

text \<open>Entering a handler.\<close>

lemma waiting_del_timer:
  assumes "waiting own a s"
  obtains s' where "zv_del_timer a s = Ok s'" and "busy own a s'" and "touches a s s'" and "req a s' = (req a s)\<lparr>r_timer := NULL\<rparr>" and "io s' = io s"
proof -
  have pre: "worker_inv s own" "a \<in> own" "r_timer (req a s) \<noteq> NULL" "conn_ok (req a s)" "granted s" using assms by (simp_all add: waiting_def)
  obtain s' where s': "zv_del_timer a s = Ok s'" "worker_inv s' own" "reqs s' = (reqs s)(a \<mapsto> (req a s)\<lparr>r_timer := NULL\<rparr>)"
    "mallocs s' = mallocs s" "clock s' = clock s" "timer_mem.more s' = timer_mem.more s" "io s' = io s"
    using worker_inv_del_timer [OF pre(1-3)] by metis
  have "conn_ok (req a s')" using pre(4) s'(3) by (simp add: conn_ok_def buf_ok_def req_def)
  then have "busy own a s'" using s' pre by (simp add: busy_def granted_def req_def)
  moreover have "touches a s s'" using s' del_timer_clock [OF s'(1)] clock_ok_tick [of s s'] by (auto simp: touches_def)
  ultimately show thesis using that s' by (simp add: req_def)
qed

section \<open>Operations on the request and the kernel\<close>

text \<open>The contract of the output functions: they leave the parser, the timer and the descriptor of the connection alone, and read nothing.\<close>

locale output_op =
  fixes f :: "zv_http_request \<times> kio \<Rightarrow> 'b \<times> (zv_http_request \<times> kio)"
  assumes conn: "f (r, k) = (x, (r', k')) \<Longrightarrow> conn_same r r' \<and> k_in k' = k_in k"
begin

lemma run_busy:
  assumes "busy own a s" and "run_req a f s = (x, s')"
  shows "busy own a s'" and "touches a s s'" and "conn_same (req a s) (req a s')" and "k_in (io s') = k_in (io s)"
proof -
  obtain y r k where f: "f (req a s, io s) = (y, (r, k))" by (metis surj_pair)
  then have s': "s' = set_req a r (s\<lparr>io := k\<rparr>)" using assms(2) by (simp add: run_req_def)
  have c: "conn_same (req a s) r" "k_in k = k_in (io s)" using conn [OF f] by simp_all
  have "r_timer r = NULL" "conn_ok r" using c(1) assms(1) conn_same_ok [OF c(1)] by (simp_all add: conn_same_def busy_def)
  from busy_set_req [OF assms(1) this, of k] show "busy own a s'" "touches a s s'" unfolding s' by simp_all
  show "conn_same (req a s) (req a s')" "k_in (io s') = k_in (io s)" using c by (simp_all add: s' req_def set_req_def)
qed

end

lemma consume_conn: "conn_same r (consume n r)"
  by (simp add: consume_def Let_def conn_same_def)

lemma send_mem_conn:
  fixes r :: zv_http_request
  shows "send_mem (r, k) = (x, (r', k')) \<Longrightarrow> conn_same r r' \<and> k_in k' = k_in k"
proof (induction "(r, k)" arbitrary: r k rule: send_mem.induct)
  case (1 r k)
  obtain w k1 where w: "sys_write (r_fd r) (header_rest r @ body_rest r) k = (w, k1)" by fastforce
  have ki: "k_in k1 = k_in k" using sys_write_spec [OF w] by simp
  note eq = 1(3) [unfolded send_mem.simps [of r k] w prod.case]
  show ?case
  proof (cases "mem_pending r")
    case True
    show ?thesis
    proof (cases w)
      case (Inl e)
      show ?thesis using 1(1) [OF True w [symmetric] Inl] eq True Inl ki by (cases "e = EINTR") (auto split: if_splits)
    next
      case (Inr n)
      show ?thesis using 1(2) [OF True w [symmetric] Inr] eq True Inr ki consume_conn [of r n]
        by (cases "n > 0") (auto intro: conn_same_trans)
    qed
  qed (use eq in simp)
qed

lemma send_file_conn:
  fixes r :: zv_http_request
  shows "send_file (r, k) = (x, (r', k')) \<Longrightarrow> conn_same r r' \<and> k_in k' = k_in k"
proof (induction "(r, k)" arbitrary: r k rule: send_file.induct)
  case (1 r k)
  let ?more = "r_out_file_fd r \<ge> 0 \<and> r_out_file_offset r < r_out_file_size r"
  obtain w k1 where w: "sys_sendfile (r_fd r) (r_out_file_fd r) (r_out_file_offset r) (r_out_file_size r - r_out_file_offset r) k = (w, k1)"
    by fastforce
  have ki: "k_in k1 = k_in k" using sys_sendfile_spec [OF w] by simp
  note eq = 1(3) [unfolded send_file.simps [of r k] w prod.case]
  show ?case
  proof (cases ?more)
    case True
    show ?thesis
    proof (cases w)
      case (Inl e)
      show ?thesis using 1(1) [OF True w [symmetric] Inl] eq True Inl ki by (cases "e = EINTR") (auto split: if_splits)
    next
      case (Inr n)
      have "conn_same r (r\<lparr>r_out_file_offset := r_out_file_offset r + n\<rparr>)" by (simp add: conn_same_def)
      with 1(2) [OF True w [symmetric] Inr] eq True Inr ki show ?thesis
        by (cases "n > 0") (auto intro: conn_same_trans)
    qed
  qed (use eq in auto)
qed

lemma reset_output_conn:
  fixes r :: zv_http_request
  shows "conn_same r (fst (reset_output (r, k))) \<and> k_in (snd (reset_output (r, k))) = k_in k"
  by (simp add: reset_output_def Let_def conn_same_def)

lemma new_fd_in: "new_fd k = (fd, k') \<Longrightarrow> k_in k' = k_in k"
  by (auto simp: new_fd_def Let_def)

interpretation try_send_op: output_op try_send
proof
  fix r r' :: zv_http_request and k k' x
  assume "try_send (r, k) = (x, (r', k'))"
  then show "conn_same r r' \<and> k_in k' = k_in k"
    by (auto simp: try_send_def dest!: send_mem_conn send_file_conn intro: conn_same_trans split: prod.splits option.splits)
qed

interpretation prepare_error_op: output_op "prepare_error ok cause errnum shortmsg longmsg keep_alive" for ok cause errnum shortmsg longmsg keep_alive
proof
  fix r r' :: zv_http_request and k k' x
  assume a: "prepare_error ok cause errnum shortmsg longmsg keep_alive (r, k) = (x, (r', k'))"
  obtain r1 k1 where r1: "reset_output (r, k) = (r1, k1)" by fastforce
  have "conn_same r1 r' \<and> k' = k1" using a r1 by (auto simp: prepare_error_def Let_def conn_same_def split: if_splits)
  with reset_output_conn [of r k] r1 show "conn_same r r' \<and> k_in k' = k_in k" by (auto intro: conn_same_trans)
qed

interpretation prepare_static_op: output_op "prepare_static content strftime filename filesize out" for content strftime filename filesize out
proof
  fix r r' :: zv_http_request and k k' x
  assume a: "prepare_static content strftime filename filesize out (r, k) = (x, (r', k'))"
  obtain r1 k1 where r1: "reset_output (r, k) = (r1, k1)" by fastforce
  have "conn_same r1 r' \<and> k_in k' = k_in k1"
    using a r1 by (auto simp: prepare_static_def Let_def conn_same_def sys_open_def dest!: new_fd_in split: if_splits prod.splits option.splits)
  with reset_output_conn [of r k] r1 show "conn_same r r' \<and> k_in k' = k_in k" by (auto intro: conn_same_trans)
qed

lemma cgi_consume_conn: "conn_same r (cgi_consume n r)"
proof -
  have d: "conn_same r (cgi_chunk_done r') = conn_same r r'" for r r' by (simp add: cgi_chunk_done_def conn_same_def)
  have c: "conn_same r (snd (cgi_consume_chunk l r'))  = conn_same r r'" for l r r'
    by (simp add: cgi_consume_chunk_def Let_def d) (simp add: conn_same_def)
  have u: "conn_same r (r'\<lparr>r_cgi_final_chunk_sent := i\<rparr>) = conn_same r r'" "conn_same r (r'\<lparr>r_cgi_http_header_sent := i\<rparr>) = conn_same r r'" for r r' i
    by (simp_all add: conn_same_def)
  show ?thesis by (simp add: cgi_consume_def case_prod_unfold Let_def c u)
qed

lemma cgi_prepare_final_conn: "conn_same r (cgi_prepare_final r)" "conn_same r (ensure_final_chunk r)"
  by (simp_all add: cgi_prepare_final_def ensure_final_chunk_def conn_same_def)

lemma cgi_send_loop_conn: "cgi_send_loop (r, k) = (x, (r', k')) \<Longrightarrow> conn_same r r'"
proof (induction "(r, k)" arbitrary: r k rule: cgi_send_loop.induct)
  case (1 r k)
  define r0 where "r0 = cgi_prepare_final r"
  have r0: "conn_same r r0" unfolding r0_def by (rule cgi_prepare_final_conn)
  show ?case
  proof (cases "cgi_iov r0")
    case None
    then show ?thesis using 1(3) r0 by (simp add: cgi_send_loop.simps [of r k] Let_def r0_def [symmetric])
  next
    case (Some bs)
    obtain w k1 where w: "sys_write (r_fd r0) bs k = (w, k1)" by fastforce
    note eq = 1(3) [unfolded cgi_send_loop.simps [of r k] Let_def r0_def [symmetric] Some option.case w prod.case]
    show ?thesis
    proof (cases w)
      case (Inl e)
      show ?thesis using 1(1) [OF r0_def Some w [symmetric] Inl] eq Inl r0
        by (cases "e = EINTR") (auto intro: conn_same_trans split: if_splits)
    next
      case (Inr n)
      show ?thesis using 1(2) [OF r0_def Some w [symmetric] Inr] eq Inr r0 cgi_consume_conn [of r0 n]
        by (cases "n > 0") (auto intro: conn_same_trans)
    qed
  qed
qed

interpretation cgi_writable_op: output_op "zv_cgi_on_client_writable a" for a
proof
  fix r r' :: zv_http_request and k k' x
  assume eq: "zv_cgi_on_client_writable a (r, k) = (x, (r', k'))"
  obtain res r1 k1 where l: "cgi_send_loop (r, k) = (res, (r1, k1))" by (metis surj_pair)
  note c = cgi_send_loop_conn [OF l]
  have ki: "k_in k1 = k_in k" using cgi_send_loop_source [OF l] by simp
  have "conn_same r1 (ensure_final_chunk r1)" by (rule cgi_prepare_final_conn)
  with c ki eq l show "conn_same r r' \<and> k_in k' = k_in k"
    by (auto simp: zv_cgi_on_client_writable_def Let_def intro: conn_same_trans split: if_splits option.splits)
qed

lemma busy_reset:
  assumes "busy own a s"
  shows "busy own a (on_req a reset_output s)" and "touches a s (on_req a reset_output s)"
    and "conn_same (req a s) (req a (on_req a reset_output s))" and "k_in (io (on_req a reset_output s)) = k_in (io s)"
proof -
  obtain r k where r: "reset_output (req a s, io s) = (r, k)" by fastforce
  have c: "conn_same (req a s) r" "k_in k = k_in (io s)" using reset_output_conn [of "req a s" "io s"] r by simp_all
  then have "r_timer r = NULL" "conn_ok r" using assms conn_same_ok [OF c(1)] by (simp_all add: conn_same_def busy_def)
  have eq: "on_req a reset_output s = set_req a r (s\<lparr>io := k\<rparr>)" by (simp add: on_req_def r)
  from busy_set_req [OF assms \<open>r_timer r = NULL\<close> \<open>conn_ok r\<close>, of k]
  show "busy own a (on_req a reset_output s)" "touches a s (on_req a reset_output s)" unfolding eq by simp_all
  show "conn_same (req a s) (req a (on_req a reset_output s))" "k_in (io (on_req a reset_output s)) = k_in (io s)"
    using c unfolding eq by (simp_all add: req_def set_req_def)
qed

section \<open>Parts of the handlers\<close>

text \<open>A step that leaves the connection busy: nothing is read, and the parser and the timer stay as they are.\<close>

definition stays :: "addr set \<Rightarrow> addr \<Rightarrow> 'z timer_mem_scheme \<Rightarrow> 'z timer_mem_scheme \<Rightarrow> bool" where
  "stays own a s s' \<longleftrightarrow> busy own a s' \<and> touches a s s' \<and> conn_same (req a s) (req a s') \<and> k_in (io s') = k_in (io s)"

lemma stays_trans: "stays own a s s' \<Longrightarrow> stays own a s' s'' \<Longrightarrow> stays own a s s''"
  by (auto simp: stays_def intro: touches_trans conn_same_trans)

lemma stays_refl: "busy own a s \<Longrightarrow> stays own a s s"
  by (simp add: stays_def)

lemma stays_reset: "busy own a s \<Longrightarrow> stays own a s (on_req a reset_output s)"
  unfolding stays_def using busy_reset by blast

lemma stays_writing:
  assumes "busy own a s"
  shows "stays own a s (set_writing a s)"
proof -
  have c: "conn_same (req a s) ((req a s)\<lparr>r_writing := b\<rparr>)" for b by (simp add: conn_same_def)
  have "r_timer ((req a s)\<lparr>r_writing := True\<rparr>) = NULL" "conn_ok ((req a s)\<lparr>r_writing := True\<rparr>)"
    using assms conn_same_ok [OF c] by (simp_all add: busy_def)
  from busy_upd [OF assms, of "\<lambda>r. r\<lparr>r_writing := True\<rparr>", OF this] c show ?thesis
    by (simp add: stays_def set_writing_def) (simp add: upd_req_def set_req_def req_def)
qed

lemma reply_error_stays:
  assumes "busy own a s" and "reply_error a cause errnum shortmsg longmsg keep_alive s = (rc, s')"
  shows "stays own a s s'"
proof -
  obtain ok s1 where s1: "alloc_answer s = (ok, s1)" by fastforce
  note al = busy_alloc [OF assms(1) s1]
  obtain rc2 s2 where s2: "run_req a (prepare_error ok cause errnum shortmsg longmsg keep_alive) s1 = (rc2, s2)" by fastforce
  note pe = prepare_error_op.run_busy [OF al(2) s2]
  have st2: "stays own a s s2" using al(3-5) pe by (auto simp: stays_def intro: touches_trans)
  show ?thesis
  proof (cases "rc2 < 0")
    case True
    then show ?thesis using assms(2) s1 s2 st2 by (simp add: reply_error_def)
  next
    case False
    then have "run_req a try_send s2 = (rc, s')" using assms(2) s1 s2 by (simp add: reply_error_def)
    from try_send_op.run_busy [OF pe(1) this] st2 show ?thesis by (auto simp: stays_def intro: touches_trans conn_same_trans)
  qed
qed

lemma wait_writable_ends:
  "busy own a s \<Longrightarrow> \<exists>s'. wait_writable a s = Ok s' \<and> waiting own a s' \<and> touches a s s'"
  unfolding wait_writable_def by (rule busy_add_timer)

text \<open>The result of a part that may have ended the handler.\<close>

definition cgi_part :: "addr set \<Rightarrow> addr \<Rightarrow> 'z timer_mem_scheme \<Rightarrow> (int \<times> 'z timer_mem_scheme) outcome \<Rightarrow> bool" where
  "cgi_part own a s res \<longleftrightarrow>
     (\<exists>rc s'. res = Ok (rc, s') \<and> touches a s s' \<and> (rc = ZV_CGI_RETURN \<longrightarrow> waiting own a s') \<and>
        (rc \<noteq> ZV_CGI_RETURN \<longrightarrow> busy own a s') \<and> (rc = ZV_CGI_NOT \<longrightarrow> s' = s) \<and> rc \<in> {-1, ZV_CGI_NOT, ZV_CGI_RETURN, ZV_CGI_CLOSE})"

lemma cgi_partI:
  "touches a s s' \<Longrightarrow> rc = ZV_CGI_RETURN \<and> waiting own a s' \<or> rc \<in> {-1, ZV_CGI_CLOSE} \<and> busy own a s' \<Longrightarrow>
   cgi_part own a s (Ok (rc, s'))"
  by (auto simp: cgi_part_def ZV_CGI_RETURN_def ZV_CGI_NOT_def ZV_CGI_CLOSE_def)

lemma cgi_part_step: "touches a s s1 \<Longrightarrow> cgi_part own a s1 res \<Longrightarrow> \<forall>s2. res \<noteq> Ok (ZV_CGI_NOT, s2) \<Longrightarrow> cgi_part own a s res"
  by (auto simp: cgi_part_def intro: touches_trans)

lemma cgi_error_part:
  assumes "busy own a s"
  shows "cgi_part own a s (cgi_error a cause errnum shortmsg longmsg s) \<and> (\<forall>s2. cgi_error a cause errnum shortmsg longmsg s \<noteq> Ok (ZV_CGI_NOT, s2))"
proof -
  obtain rc s1 where r: "reply_error a cause errnum shortmsg longmsg False s = (rc, s1)" by fastforce
  have b: "busy own a s1" "touches a s s1" using reply_error_stays [OF assms r] by (simp_all add: stays_def)
  have w: "stays own a s1 (set_writing a s1)" by (rule stays_writing [OF b(1)])
  then obtain s2 where s2: "wait_writable a (set_writing a s1) = Ok s2" "waiting own a s2" "touches a (set_writing a s1) s2"
    using wait_writable_ends by (metis stays_def)
  have "touches a s s2" using b(2) w s2(3) by (auto simp: stays_def intro: touches_trans)
  then show ?thesis
    using b s2 by (auto simp: cgi_error_def r ZV_CGI_RETURN_def ZV_CGI_CLOSE_def ZV_CGI_NOT_def intro!: cgi_partI)
qed

lemma busy_malloc:
  assumes "busy own a s" and "malloc s = (p, s1)"
  shows "busy own a s1" and "touches a s s1" and "req a s1 = req a s"
proof -
  have w: "worker_inv s own" using assms(1) by (simp add: busy_def)
  have s1: "s1 = s\<lparr>mallocs := tl (mallocs s), brk := Suc (brk s)\<rparr> \<or> s1 = s\<lparr>mallocs := tl (mallocs s)\<rparr> \<or> s1 = s\<lparr>brk := Suc (brk s)\<rparr>"
    using assms(2) by (auto simp: malloc_def split: list.splits bool.splits)
  then show "req a s1 = req a s" "touches a s s1" by (auto simp: req_def touches_def clock_ok_def)
  have "worker_inv s1 own" using s1 by (elim disjE) (simp_all add: worker_inv_cong [OF w] req_def)
  moreover have "granted s1" using s1 assms(1) by (cases "mallocs s") (auto simp: busy_def granted_def)
  ultimately show "busy own a s1" using assms(1) \<open>req a s1 = req a s\<close> by (simp add: busy_def)
qed

lemma busy_set_same:
  assumes "busy own a s" and "conn_same (req a s) r"
  shows "busy own a (set_req a r s)" and "touches a s (set_req a r s)"
proof -
  have "r_timer r = NULL" "conn_ok r" using assms conn_same_ok [OF assms(2)] by (simp_all add: conn_same_def busy_def)
  from busy_set_req [OF assms(1) this, of "io s"] show "busy own a (set_req a r s)" "touches a s (set_req a r s)" by simp_all
qed

lemma ensure_cgi_items_busy:
  assumes "busy own a s"
  shows "busy own a (ensure_cgi_items a s)" and "touches a s (ensure_cgi_items a s)"
proof -
  let ?r = "(req a s)\<lparr>r_cgi_out_item := Some \<lparr>it_kind = ZV_EP_KIND_CGI_OUT, it_fd = r_cgi_out_fd (req a s), it_r = a\<rparr>\<rparr>"
  have c: "conn_same (req a s) ?r" by (simp add: conn_same_def)
  have "busy own a (ensure_cgi_items a s) \<and> touches a s (ensure_cgi_items a s)"
  proof (cases "r_cgi_out_item (req a s)")
    case (Some it)
    then have "ensure_cgi_items a s = set_req a ?r s" by (simp add: ensure_cgi_items_def Let_def)
    with busy_set_same [OF assms c] show ?thesis by simp
  next
    case None
    obtain p s1 where m: "malloc s = (p, s1)" by fastforce
    note b = busy_malloc [OF assms m]
    have "ensure_cgi_items a s = (if p = NULL then s1 else set_req a ?r s1)" using None m by (simp add: ensure_cgi_items_def Let_def)
    moreover have "busy own a (set_req a ?r s1)" "touches a s1 (set_req a ?r s1)" using busy_set_same [OF b(1)] c b(3) by simp_all
    ultimately show ?thesis using b touches_trans by auto
  qed
  then show "busy own a (ensure_cgi_items a s)" and "touches a s (ensure_cgi_items a s)" by simp_all
qed

lemma cgi_start_part:
  assumes "busy own a s"
  shows "\<exists>rc s'. zv_cgi_start a file name query s = Ok (rc, s') \<and> touches a s s' \<and> (rc = 0 \<and> waiting own a s' \<or> rc = -1 \<and> busy own a s')"
proof (cases "fst (cgi_spawn file name query (io s))")
  case None
  then obtain k where "cgi_spawn file name query (io s) = (None, k)" by (metis prod.collapse)
  then show ?thesis using busy_io [OF assms, of k] by (simp add: zv_cgi_start_def)
next
  case (Some pd)
  then obtain pid out k where sp: "cgi_spawn file name query (io s) = (Some (pid, out), k)" by (metis prod.collapse)
  let ?s1 = "set_req a (cgi_activate pid out (req a s)) (s\<lparr>io := k\<rparr>)"
  have b0: "busy own a (s\<lparr>io := k\<rparr>)" "touches a s (s\<lparr>io := k\<rparr>)" using busy_io [OF assms] by auto
  have "conn_same (req a (s\<lparr>io := k\<rparr>)) (cgi_activate pid out (req a s))" by (simp add: conn_same_def cgi_activate_def req_def)
  note b1 = busy_set_same [OF b0(1) this]
  note b2 = ensure_cgi_items_busy [OF b1(1)]
  define s2 where "s2 = ensure_cgi_items a ?s1"
  define s3 where "s3 = s2\<lparr>io := zv_epoll_add out (cgi_reg a (req a s2)) (io s2)\<rparr>"
  have b3: "busy own a s3" "touches a s2 s3" using busy_io b2(1) unfolding s3_def s2_def by blast+
  define s4 where "s4 = set_req a ((req a s3)\<lparr>r_keep_alive := False\<rparr>) s3"
  have b4: "busy own a s4" "touches a s3 s4" using busy_set_same [OF b3(1)] unfolding s4_def by (simp_all add: conn_same_def)
  have t4: "touches a s s4" using b0(2) b1(2) b2(2) b3(2) b4(2) unfolding s2_def by (meson touches_trans)
  obtain s5 where s5: "zv_add_timer a (r_request_timeout_ms (req a s4)) (Some H_zv_http_close_conn) s4 = Ok s5" "waiting own a s5" "touches a s4 s5"
    using busy_add_timer0 [OF b4(1)] by blast
  have "zv_cgi_start a file name query s = Ok (0, s5)"
    using s5(1) by (simp add: zv_cgi_start_def sp Let_def s4_def s3_def s2_def)
  with s5 t4 touches_trans show ?thesis by blast
qed

lemma cgi_execute_part:
  assumes "busy own a s"
  shows "cgi_part own a s (cgi_execute e a file name query s) \<and> (\<forall>s2. cgi_execute e a file name query s \<noteq> Ok (ZV_CGI_NOT, s2))"
proof -
  obtain rc s1 where s1: "zv_cgi_start a file name query s = Ok (rc, s1)" "touches a s s1" "rc = 0 \<and> waiting own a s1 \<or> rc = -1 \<and> busy own a s1"
    using cgi_start_part [OF assms] by blast
  show ?thesis
  proof (cases "rc = 0")
    case True
    then show ?thesis using cgi_error_part [OF assms] s1
      by (auto simp: cgi_execute_def cgi_part_def ZV_CGI_RETURN_def ZV_CGI_NOT_def)
  next
    case False
    then have "busy own a s1" using s1(3) by simp
    note e = cgi_error_part [OF this]
    from e cgi_part_step [OF s1(2)] have
      "cgi_part own a s (cgi_error a c n sh l s1) \<and> (\<forall>s2. cgi_error a c n sh l s1 \<noteq> Ok (ZV_CGI_NOT, s2))" for c n sh l by blast
    then show ?thesis using cgi_error_part [OF assms] s1(1) False by (simp add: cgi_execute_def)
  qed
qed

lemma handle_header_busy:
  assumes "busy own a s"
  obtains s' o' where "zv_http_handle_header date a (s, out) = Some (s', o')" and "stays own a s s'"
proof -
  have w: "worker_inv s own" "a \<in> own" using assms by (simp_all add: busy_def)
  from w(1) obtain xs fs ds L where inv: "mem_inv s own xs fs ds L" and ti: "timer_inv s own" by (auto simp: worker_inv_def)
  obtain s' xs' o' where s': "zv_http_handle_header date a (s, out) = Some (s', o')" "mem_inv s' own xs' fs ds (L(a := []))" "reqs s' = reqs s" "io s' = io s"
    "req_mem.more s' = req_mem.more s" "brk s' = brk s" "mallocs s' = mallocs s"
    using mem_inv_handle_header [OF inv w(2)] by metis
  have tm: "zv_timer s' = zv_timer s" "tnodes s' = tnodes s" "clock s' = clock s" "ticks s' = ticks s" "zv_current_msec s' = zv_current_msec s"
    "timer_mem.more s' = timer_mem.more s"
    using s'(5) by (cases s; cases s'; simp)+
  have "timer_inv s' own" by (rule timer_inv_cong [OF ti tm(1,2)]) (simp_all add: s' req_def)
  then have "busy own a s'" using assms s' by (auto simp: busy_def worker_inv_def granted_def req_def)
  moreover have "touches a s s'" using s'(3) tm by (simp add: touches_def clock_ok_def)
  ultimately have "stays own a s s'" using s'(3,4) by (simp add: stays_def req_def)
  with s'(1) show thesis by (rule that)
qed

lemma handle_cgi_part:
  assumes "busy own a s"
  shows "cgi_part own a s (handle_cgi_mvp e a s)"
proof -
  let ?uri = "uri_text (req a s)"
  have not: "cgi_part own a s (Ok (ZV_CGI_NOT, s))" using assms by (simp add: cgi_part_def ZV_CGI_NOT_def ZV_CGI_RETURN_def)
  obtain s1 o1 where h: "zv_http_handle_header (e_date e) a (s, zv_init_out_t (r_fd (req a s)) (e_heap e)) = Some (s1, o1)" and st: "stays own a s s1"
    using handle_header_busy [OF assms] by blast
  have b1: "busy own a s1" "touches a s s1" using st by (simp_all add: stays_def)
  have err: "cgi_part own a s (cgi_error a c n sh l s1)" for c n sh l using cgi_error_part [OF b1(1)] cgi_part_step [OF b1(2)] by blast
  have ex: "cgi_part own a s (cgi_execute e a f n q s1)" for f n q using cgi_execute_part [OF b1(1)] cgi_part_step [OF b1(2)] by blast
  have path: "cgi_part own a s (case cgi_path a p root s1 of Inl result \<Rightarrow> result | Inr f \<Rightarrow> cgi_execute e a f n q s1)" for p root n q
    by (simp add: cgi_path_def Let_def err ex split: option.split)
  show ?thesis
    using not cgi_error_part [OF assms] h err path by (simp add: handle_cgi_mvp_def Let_def)
qed

section \<open>Reading and parsing\<close>

definition parse_frame :: "zv_http_request \<Rightarrow> zv_http_request \<Rightarrow> bool" where
  "parse_frame r r' \<longleftrightarrow>
     r_buf r' = r_buf r \<and> r_last r' = r_last r \<and> r_timer r' = r_timer r \<and> r_fd r' = r_fd r \<and> r_parse_phase r' = r_parse_phase r"

lemma rl_step_frame:
  assumes "rl_step p ch st r = (res, r')"
  shows "parse_frame r r'"
proof -
  have m: "parse_frame r (rl_set_method p r1) = parse_frame r r1" for r1 by (simp add: rl_set_method_def parse_frame_def Let_def)
  show ?thesis using assms by (cases st) (auto simp: Let_def m split: if_splits, auto simp: parse_frame_def)
qed

lemma rl_scan_frame: "scan rl_step p cs st r = (res, q, r') \<Longrightarrow> parse_frame r r'"
  by (rule scan_invariant [where I = "parse_frame r" and f = rl_step and x = r])
     (auto simp: parse_frame_def dest!: rl_step_frame)

lemma parse_line_conn:
  assumes "conn_ok r" and "zv_http_parse_request_line r = (rc, r')"
  shows "conn_ok r'" and "parse_frame r r'"
    and "rc = ZV_OK \<Longrightarrow> r_parse_pos r < r_parse_pos r'"
    and "rc = ZV_AGAIN \<Longrightarrow> r_parse_pos r' = r_last r \<or> r_parse_pos r' = r_parse_pos r \<and> r_parse_pos r < r_last r"
proof -
  have b: "buf_ok r" "r_parse_pos r \<le> r_last r" using assms(1) by (simp_all add: conn_ok_def)
  obtain res q r1 where sc: "scan rl_step (r_parse_pos r) (unread r (r_parse_pos r)) (r_request_line_state r) r = (res, q, r1)" by (metis prod.collapse)
  note fr = rl_scan_frame [OF sc] and inp = rl_scan_input [OF sc] and pos = scan_pos [OF sc]
  note eq = assms(2) [unfolded parse_line_scan [OF b] sc prod.case]
  have len: "length (unread r (r_parse_pos r)) = r_last r - r_parse_pos r" using b by (simp add: unread_def buf_ok_def)
  have "conn_ok r' \<and> parse_frame r r' \<and> (rc = ZV_OK \<longrightarrow> r_parse_pos r < r_parse_pos r') \<and>
    (rc = ZV_AGAIN \<longrightarrow> r_parse_pos r' = r_last r \<or> r_parse_pos r' = r_parse_pos r \<and> r_parse_pos r < r_last r)"
  proof (cases res)
    case (Go st)
    then have "rc = ZV_AGAIN" "r' = repos q st r1" "q = r_last r" using eq pos len b(2) by simp_all
    then show ?thesis using fr inp assms(1)
      by (simp add: repos_def conn_ok_def buf_ok_def parse_frame_def same_input_def ZV_OK_def ZV_AGAIN_def EAGAIN_def)
  next
    case (Fail e)
    then have "rc = e" "r' = r1" using eq by simp_all
    moreover have "e \<noteq> ZV_OK" using sc Fail rl_scan_Fail by blast
    moreover have "r_parse_pos r < r_last r" using pos len Fail b(2) by simp
    ultimately show ?thesis using fr inp assms(1) by (simp add: conn_ok_def buf_ok_def parse_frame_def same_input_def)
  next
    case Done
    then have "rc = ZV_OK" "r' = rl_done q q r1" "q < r_last r" "r_parse_pos r \<le> q" using eq pos len b(2) by simp_all
    then show ?thesis using fr inp assms(1)
      by (simp add: rl_done_def Let_def conn_ok_def buf_ok_def parse_frame_def same_input_def ZV_OK_def ZV_AGAIN_def EAGAIN_def)
  qed
  then show "conn_ok r'" "parse_frame r r'" "rc = ZV_OK \<Longrightarrow> r_parse_pos r < r_parse_pos r'"
    "rc = ZV_AGAIN \<Longrightarrow> r_parse_pos r' = r_last r \<or> r_parse_pos r' = r_parse_pos r \<and> r_parse_pos r < r_last r" by blast+
qed

lemma header_alloc_mallocs: "set (mallocs (snd (zv_http_header_alloc s))) \<subseteq> set (mallocs s)"
proof -
  have i: "mallocs (hc_init_once s) = mallocs s" by (simp add: hc_init_once_def list_ops_defs)
  then have "set (mallocs (snd (malloc (hc_init_once s)))) \<subseteq> set (mallocs s)"
    by (auto simp: malloc_def split: list.splits bool.splits)
  with i have "set (mallocs (snd (hc_take (hc_init_once s)))) \<subseteq> set (mallocs s)"
    by (simp add: hc_take_def Let_def list_ops_defs)
  then show ?thesis by (auto simp: zv_http_header_alloc_def list_ops_defs split: prod.splits)
qed

lemma hp_step_frame:
  assumes "hp_step a p ch st (s, r) = (res, (s', r'))"
  shows "parse_frame r r' \<and> set (mallocs s') \<subseteq> set (mallocs s)"
proof -
  have sv: "parse_frame r r' \<and> set (mallocs s') \<subseteq> set (mallocs s)" if "hp_save a (s, r) = (res, (s', r'))" for res s' r'
    using that header_alloc_mallocs [of s]
    by (auto simp: hp_save_def Let_def list_ops_defs parse_frame_def split: prod.splits if_splits)
  show ?thesis using assms sv by (cases st) (auto split: if_splits simp: parse_frame_def)
qed

lemma hp_scan_frame:
  assumes "scan (hp_step a) p cs st (s, r) = (res, q, (s', r'))"
  shows "parse_frame r r'" and "set (mallocs s') \<subseteq> set (mallocs s)"
proof -
  have "parse_frame r (snd (s', r')) \<and> set (mallocs (fst (s', r'))) \<subseteq> set (mallocs s)"
  proof (rule scan_invariant [where I = "\<lambda>y. parse_frame r (snd y) \<and> set (mallocs (fst y)) \<subseteq> set (mallocs s)", OF _ _ assms])
    fix p c st res y y'
    assume "parse_frame r (snd y) \<and> set (mallocs (fst y)) \<subseteq> set (mallocs s)" "hp_step a p c st y = (res, y')"
    then show "parse_frame r (snd y') \<and> set (mallocs (fst y')) \<subseteq> set (mallocs s)"
      using hp_step_frame by (cases y; cases y') (fastforce simp: parse_frame_def)
  qed (simp add: parse_frame_def)
  then show "parse_frame r r'" "set (mallocs s') \<subseteq> set (mallocs s)" by simp_all
qed

lemma parse_body_conn:
  assumes "conn_ok r" and "zv_http_parse_request_body a (s, r) = (rc, (s', r'))"
  shows "conn_ok r'" and "parse_frame r r'" and "set (mallocs s') \<subseteq> set (mallocs s)"
    and "rc = ZV_OK \<Longrightarrow> r_parse_pos r < r_parse_pos r'" and "rc = ZV_AGAIN \<Longrightarrow> r_parse_pos r' = r_last r"
proof -
  have b: "buf_ok (snd (s, r))" "r_parse_pos (snd (s, r)) \<le> r_last (snd (s, r))" using assms(1) by (simp_all add: conn_ok_def)
  obtain res q s1 r1 where sc: "scan (hp_step a) (r_parse_pos r) (unread r (r_parse_pos r)) (r_header_state r) (s, r) = (res, q, (s1, r1))"
    by (metis prod.collapse)
  note fr = hp_scan_frame [OF sc] and inp = hp_scan_input [OF sc] and pos = scan_pos [OF sc]
  note eq = assms(2) [unfolded parse_body_scan [OF b], simplified snd_conv sc prod.case]
  have len: "length (unread r (r_parse_pos r)) = r_last r - r_parse_pos r" using b by (simp add: unread_def buf_ok_def)
  have "conn_ok r' \<and> parse_frame r r' \<and> set (mallocs s') \<subseteq> set (mallocs s) \<and> (rc = ZV_OK \<longrightarrow> r_parse_pos r < r_parse_pos r') \<and>
    (rc = ZV_AGAIN \<longrightarrow> r_parse_pos r' = r_last r)"
  proof (cases res)
    case (Go st)
    then have "rc = ZV_AGAIN" "(s', r') = hp_repos q st (s1, r1)" "q = r_last r" using eq pos len b(2) by simp_all
    then show ?thesis using fr inp assms(1)
      by (simp add: hp_repos_def conn_ok_def buf_ok_def parse_frame_def same_input_def ZV_OK_def ZV_AGAIN_def EAGAIN_def)
  next
    case (Fail e)
    then have "rc = e" "s' = s1" "r' = r1" using eq by simp_all
    moreover have "e \<notin> {ZV_OK, ZV_AGAIN}" using sc Fail hp_scan_Fail by blast
    ultimately show ?thesis using fr inp assms(1) by (simp add: conn_ok_def buf_ok_def parse_frame_def same_input_def)
  next
    case Done
    then have "rc = ZV_OK" "(s', r') = hp_repos (q + 1) hd_start (s1, r1)" "q < r_last r" "r_parse_pos r \<le> q" using eq pos len b(2) by simp_all
    then show ?thesis using fr inp assms(1)
      by (simp add: hp_repos_def conn_ok_def buf_ok_def parse_frame_def same_input_def ZV_OK_def ZV_AGAIN_def EAGAIN_def)
  qed
  then show "conn_ok r'" "parse_frame r r'" "set (mallocs s') \<subseteq> set (mallocs s)" "rc = ZV_OK \<Longrightarrow> r_parse_pos r < r_parse_pos r'"
    "rc = ZV_AGAIN \<Longrightarrow> r_parse_pos r' = r_last r" by blast+
qed

text \<open>What is left to do on a connection: the bytes to come count twice, the buffered ones once.\<close>

definition unparsed :: "zv_http_request \<Rightarrow> kio \<Rightarrow> nat" where
  "unparsed r k = 2 * script_weight (k_in k (r_fd r)) + (r_last r - r_parse_pos r)"

definition todo :: "addr \<Rightarrow> 'z timer_mem_scheme \<Rightarrow> nat" where
  "todo a s = unparsed (req a s) (io s) + (if r_parse_phase (req a s) \<ge> 2 then 1 else 0)"

lemma request_fill_busy:
  assumes "busy own a s" and "request_fill a s = (fl, s')"
  shows "busy own a s'" and "touches a s s'" and "fl \<in> {Next, Close, Break}"
    and "fl = Next \<Longrightarrow> r_parse_pos (req a s') < r_last (req a s')" and "unparsed (req a s') (io s') \<le> unparsed (req a s) (io s) \<or> fl \<noteq> Next"
    and "r_parse_phase (req a s') = r_parse_phase (req a s)"
proof -
  let ?r = "req a s"
  have ok: "conn_ok ?r" "r_timer ?r = NULL" using assms(1) by (simp_all add: busy_def)
  have "busy own a s' \<and> touches a s s' \<and> fl \<in> {Next, Close, Break} \<and> (fl = Next \<longrightarrow> r_parse_pos (req a s') < r_last (req a s')) \<and>
      (unparsed (req a s') (io s') \<le> unparsed (req a s) (io s) \<or> fl \<noteq> Next) \<and> r_parse_phase (req a s') = r_parse_phase (req a s)"
  proof (cases "r_parse_pos ?r < r_last ?r \<or> r_last ?r \<ge> MAX_BUF - 1")
    case True
    then show ?thesis using assms by (auto simp: request_fill_def Let_def split: if_splits)
  next
    case False
    obtain res k where rd: "sys_read (r_fd ?r) (MAX_BUF - r_last ?r - 1) (io s) = (res, k)" by fastforce
    note io = busy_io [OF assms(1), of k]
    have eq: "request_fill a s = (case (res, k) of
             (Inr bs, k) \<Rightarrow>
               if bs = [] then (Close, s\<lparr>io := k\<rparr>)
               else (Next, set_req a (?r\<lparr>r_buf := take (r_last ?r) (r_buf ?r) @ bs @ drop (r_last ?r + length bs) (r_buf ?r),
                                        r_last := r_last ?r + length bs\<rparr>) (s\<lparr>io := k\<rparr>))
           | (Inl e, k) \<Rightarrow> (if e = EAGAIN then Break else Close, s\<lparr>io := k\<rparr>))"
      using False rd by (simp add: request_fill_def Let_def)
    show ?thesis
    proof (cases "\<exists>bs. res = Inr bs \<and> bs \<noteq> []")
      case True
      then obtain bs where bs: "res = Inr bs" "bs \<noteq> []" by blast
      let ?r' = "?r\<lparr>r_buf := take (r_last ?r) (r_buf ?r) @ bs @ drop (r_last ?r + length bs) (r_buf ?r), r_last := r_last ?r + length bs\<rparr>"
      note am = sys_read_amount [OF rd [unfolded bs(1)] bs(2)]
      have s': "fl = Next" "s' = set_req a ?r' (s\<lparr>io := k\<rparr>)" using eq assms(2) bs by simp_all
      have "r_timer ?r' = NULL" "conn_ok ?r'" using ok am(2) False by (auto simp: conn_ok_def buf_ok_def)
      note b = busy_set_req [OF assms(1) this, of k]
      have "req a s' = ?r'" "io s' = k" by (simp_all add: s'(2) req_def set_req_def)
      moreover have "unparsed ?r' k \<le> unparsed ?r (io s)" using am(1) False ok(1) by (auto simp: unparsed_def conn_ok_def)
      moreover have "r_parse_pos ?r < r_last ?r + length bs" using ok(1) bs(2) by (cases bs) (simp_all add: conn_ok_def)
      ultimately show ?thesis using b s' by auto
    next
      case False
      then have "fl \<noteq> Next" "fl \<in> {Close, Break}" "s' = s\<lparr>io := k\<rparr>" using eq assms(2) by (auto split: sum.splits if_splits)
      then show ?thesis using io by (simp add: req_def)
    qed
  qed
  then show "busy own a s'" and "touches a s s'" and "fl \<in> {Next, Close, Break}"
    and "fl = Next \<Longrightarrow> r_parse_pos (req a s') < r_last (req a s')" and "unparsed (req a s') (io s') \<le> unparsed (req a s) (io s) \<or> fl \<noteq> Next"
    and "r_parse_phase (req a s') = r_parse_phase (req a s)" by blast+
qed

text \<open>A request line that the parser refuses with the code that means \<^verbatim>\<open>EAGAIN\<close>.\<close>

definition bad_line :: "zv_http_request \<Rightarrow> bool" where
  "bad_line r \<longleftrightarrow> r_parse_phase r = 0 \<and> r_parse_pos r < r_last r \<and>
     (\<exists>r'. zv_http_parse_request_line r = (ZV_AGAIN, r') \<and> r_parse_pos r' = r_parse_pos r)"

lemma busy_set_parsed:
  assumes "busy own a s" and "conn_ok r" and "r_timer r = NULL"
  shows "busy own a (set_req a r s)" and "touches a s (set_req a r s)" and "req a (set_req a r s) = r" and "io (set_req a r s) = io s"
  using busy_set_req [OF assms(1,3,2), of "io s"] by (simp_all add: req_def set_req_def)

lemma parse_line_phase_busy:
  assumes "busy own a s" and "parse_line_phase a s = (fl, s')"
  shows "busy own a s'" and "touches a s s'" and "fl \<in> {Next, Again, Close}"
    and "fl = Again \<Longrightarrow> r_parse_phase (req a s') = 0 \<and> (unparsed (req a s') (io s') < unparsed (req a s) (io s) \<or> r_last (req a s) \<le> r_parse_pos (req a s) \<or> bad_line (req a s))"
    and "fl = Next \<Longrightarrow> (if r_parse_phase (req a s) = 0 then unparsed (req a s') (io s') < unparsed (req a s) (io s) \<and> r_parse_phase (req a s') = 1 else s' = s)"
proof -
  let ?r = "req a s"
  have ok: "conn_ok ?r" "r_timer ?r = NULL" using assms(1) by (simp_all add: busy_def)
  obtain rc r where p: "zv_http_parse_request_line ?r = (rc, r)" by fastforce
  note c = parse_line_conn [OF ok(1) p]
  let ?r1 = "r\<lparr>r_parse_phase := 1\<rparr>"
  have t: "r_timer r = NULL" "r_timer ?r1 = NULL" "conn_ok ?r1" using c(1,2) ok(2) by (simp_all add: parse_frame_def conn_ok_def buf_ok_def)
  note b = busy_set_parsed [OF assms(1) c(1) t(1)] and b1 = busy_set_parsed [OF assms(1) t(3,2)]
  have fd: "r_fd r = r_fd ?r" "r_last r = r_last ?r" "r_parse_phase r = r_parse_phase ?r" using c(2) by (simp_all add: parse_frame_def)
  have lt: "unparsed r (io s) < unparsed ?r (io s)" "unparsed ?r1 (io s) < unparsed ?r (io s)" if "r_parse_pos ?r < r_parse_pos r"
    using that c(1) fd by (auto simp: unparsed_def conn_ok_def)
  have more: "unparsed r (io s) < unparsed ?r (io s) \<or> r_last ?r \<le> r_parse_pos ?r \<or> bad_line ?r" if "rc = ZV_AGAIN" "r_parse_phase ?r = 0"
    using c(4) [OF that(1)] lt(1) that p by (auto simp: bad_line_def not_le)
  have "busy own a s' \<and> touches a s s' \<and> fl \<in> {Next, Again, Close} \<and>
    (fl = Again \<longrightarrow> r_parse_phase (req a s') = 0 \<and> (unparsed (req a s') (io s') < unparsed ?r (io s) \<or> r_last ?r \<le> r_parse_pos ?r \<or> bad_line ?r)) \<and>
    (fl = Next \<longrightarrow> (if r_parse_phase ?r = 0 then unparsed (req a s') (io s') < unparsed ?r (io s) \<and> r_parse_phase (req a s') = 1 else s' = s))"
  proof (cases "r_parse_phase ?r = 0")
    case False
    then show ?thesis using assms by (simp add: parse_line_phase_def)
  next
    case ph: True
    consider (ok) "rc = ZV_OK" | (again) "rc = ZV_AGAIN" | (err) "rc \<noteq> ZV_OK" "rc \<noteq> ZV_AGAIN" by blast
    then show ?thesis
    proof cases
      case ok
      then have "fl = Next" "s' = set_req a ?r1 s" using ph p assms(2) by (simp_all add: parse_line_phase_def ZV_OK_def ZV_AGAIN_def EAGAIN_def)
      then show ?thesis using b1 lt(2) c(3) [OF ok] ph by simp
    next
      case again
      then have "fl = Again" "s' = set_req a r s" using ph p assms(2) by (simp_all add: parse_line_phase_def)
      then show ?thesis using b more again ph fd(3) by simp
    next
      case err
      then have "fl = Close" "s' = set_req a r s" using ph p assms(2) by (simp_all add: parse_line_phase_def)
      then show ?thesis using b by simp
    qed
  qed
  then show "busy own a s'" and "touches a s s'" and "fl \<in> {Next, Again, Close}"
    and "fl = Again \<Longrightarrow> r_parse_phase (req a s') = 0 \<and> (unparsed (req a s') (io s') < unparsed (req a s) (io s) \<or> r_last (req a s) \<le> r_parse_pos (req a s) \<or> bad_line (req a s))"
    and "fl = Next \<Longrightarrow> (if r_parse_phase (req a s) = 0 then unparsed (req a s') (io s') < unparsed (req a s) (io s) \<and> r_parse_phase (req a s') = 1 else s' = s)"
    by blast+
qed

lemma parse_headers_phase_busy:
  assumes "busy own a s" and "parse_headers_phase a s = (fl, s')"
  shows "busy own a s'" and "touches a s s'" and "fl \<in> {Next, Again, Close}"
    and "fl = Again \<Longrightarrow> r_parse_phase (req a s') = 1 \<and> unparsed (req a s') (io s') \<le> unparsed (req a s) (io s) \<and>
           (r_parse_pos (req a s) < r_last (req a s) \<longrightarrow> unparsed (req a s') (io s') < unparsed (req a s) (io s))"
    and "fl = Next \<Longrightarrow> (if r_parse_phase (req a s) = 1 then unparsed (req a s') (io s') < unparsed (req a s) (io s) else s' = s)"
proof -
  let ?r = "req a s"
  have ok: "conn_ok ?r" "r_timer ?r = NULL" "worker_inv s own" "a \<in> own" "granted s" using assms(1) by (simp_all add: busy_def)
  obtain rc s1 r where p: "zv_http_parse_request_body a (s, ?r) = (rc, (s1, r))" by (metis prod.collapse)
  note c = parse_body_conn [OF ok(1) p]
  from ok(3) obtain xs fs ds L where inv: "mem_inv s own xs fs ds L" and ti: "timer_inv s own" by (auto simp: worker_inv_def)
  have "parses_into s own fs ds L a s1" using mem_inv_parse_body [OF inv ok(4) _ _ p] ok(1) by (simp add: conn_ok_def)
  then have pi: "\<exists>xs' L'. mem_inv s1 own xs' fs ds L'" "header_mem.more s1 = header_mem.more s" "brk s \<le> brk s1" by (auto simp: parses_into_def)
  have same: "reqs s1 = reqs s" "io s1 = io s" "zv_timer s1 = zv_timer s" "tnodes s1 = tnodes s" "clock s1 = clock s" "ticks s1 = ticks s"
    "zv_current_msec s1 = zv_current_msec s" "timer_mem.more s1 = timer_mem.more s"
    using pi(2) by (cases s; cases s1; simp)+
  have "timer_inv s1 own" by (rule timer_inv_cong [OF ti same(3,4) pi(3)]) (simp add: req_def same(1))
  then have "worker_inv s1 own" using pi(1) by (auto simp: worker_inv_def)
  moreover have "granted s1" using ok(5) c(3) by (auto simp: granted_def)
  ultimately have bz: "busy own a s1" using ok(1,2,4) by (simp add: busy_def req_def same(1))
  have tc: "touches a s s1" by (simp add: touches_def clock_ok_def same)
  let ?r2 = "r\<lparr>r_parse_phase := 2\<rparr>"
  have t: "r_timer r = NULL" "r_timer ?r2 = NULL" "conn_ok ?r2" using c(1,2) ok(2) by (simp_all add: parse_frame_def conn_ok_def buf_ok_def)
  note b = busy_set_parsed [OF bz c(1) t(1)] and b2 = busy_set_parsed [OF bz t(3,2)]
  have fd: "r_fd r = r_fd ?r" "r_last r = r_last ?r" "r_parse_phase r = r_parse_phase ?r" using c(2) by (simp_all add: parse_frame_def)
  have lt: "unparsed ?r2 (io s) < unparsed ?r (io s)" if "r_parse_pos ?r < r_parse_pos r"
    using that c(1) fd by (auto simp: unparsed_def conn_ok_def)
  have "busy own a s' \<and> touches a s s' \<and> fl \<in> {Next, Again, Close} \<and>
    (fl = Again \<longrightarrow> r_parse_phase (req a s') = 1 \<and> unparsed (req a s') (io s') \<le> unparsed ?r (io s) \<and>
           (r_parse_pos ?r < r_last ?r \<longrightarrow> unparsed (req a s') (io s') < unparsed ?r (io s))) \<and>
    (fl = Next \<longrightarrow> (if r_parse_phase ?r = 1 then unparsed (req a s') (io s') < unparsed ?r (io s) else s' = s))"
  proof (cases "r_parse_phase ?r = 1")
    case False
    then show ?thesis using assms by (simp add: parse_headers_phase_def)
  next
    case ph: True
    consider (ok) "rc = ZV_OK" | (again) "rc = ZV_AGAIN" | (err) "rc \<noteq> ZV_OK" "rc \<noteq> ZV_AGAIN" by blast
    then show ?thesis
    proof cases
      case ok
      then have "fl = Next" "s' = set_req a ?r2 s1" using ph p assms(2) by (simp_all add: parse_headers_phase_def ZV_OK_def ZV_AGAIN_def EAGAIN_def)
      then show ?thesis using b2 lt c(4) [OF ok] ph same(2) touches_trans [OF tc b2(2)] by simp
    next
      case again
      then have "fl = Again" "s' = set_req a r s1" using ph p assms(2) by (simp_all add: parse_headers_phase_def)
      moreover have "unparsed r (io s) = 2 * script_weight (k_in (io s) (r_fd ?r))" using c(5) [OF again] fd by (simp add: unparsed_def)
      ultimately show ?thesis using b ph fd(3) same(2) touches_trans [OF tc b(2)] by (auto simp: unparsed_def)
    next
      case err
      then have "fl = Close" "s' = set_req a r s1" using ph p assms(2) by (simp_all add: parse_headers_phase_def)
      then show ?thesis using b touches_trans [OF tc b(2)] by simp
    qed
  qed
  then show "busy own a s'" and "touches a s s'" and "fl \<in> {Next, Again, Close}"
    and "fl = Again \<Longrightarrow> r_parse_phase (req a s') = 1 \<and> unparsed (req a s') (io s') \<le> unparsed (req a s) (io s) \<and>
           (r_parse_pos (req a s) < r_last (req a s) \<longrightarrow> unparsed (req a s') (io s') < unparsed (req a s) (io s))"
    and "fl = Next \<Longrightarrow> (if r_parse_phase (req a s) = 1 then unparsed (req a s') (io s') < unparsed (req a s) (io s) else s' = s)"
    by blast+
qed

text \<open>Reading and parsing together.\<close>

lemma request_parse_busy:
  assumes "busy own a s" and "request_parse a s = (fl, s')"
  shows "busy own a s'" and "touches a s s'" and "fl \<in> {Next, Again, Close, Break}"
    and "fl = Again \<Longrightarrow> todo a s' < todo a s \<or> (\<exists>s1. request_fill a s = (Next, s1) \<and> bad_line (req a s1))"
    and "fl = Next \<Longrightarrow> unparsed (req a s') (io s') < todo a s"
proof -
  obtain fl1 s1 where f1: "request_fill a s = (fl1, s1)" by fastforce
  note fill = request_fill_busy [OF assms(1) f1]
  obtain fl2 s2 where f2: "parse_line_phase a s1 = (fl2, s2)" by fastforce
  note line = parse_line_phase_busy [OF fill(1) f2]
  obtain fl3 s3 where f3: "parse_headers_phase a s2 = (fl3, s3)" by fastforce
  note hdr = parse_headers_phase_busy [OF line(1) f3]
  note t = touches_trans [OF fill(2) line(2)] and t3 = touches_trans [OF touches_trans [OF fill(2) line(2)] hdr(2)]
  consider (stop) "fl1 \<noteq> Next" | (at_line) "fl1 = Next" "fl2 \<noteq> Next" | (at_headers) "fl1 = Next" "fl2 = Next" by blast
  then have "busy own a s' \<and> touches a s s' \<and> fl \<in> {Next, Again, Close, Break} \<and>
    (fl = Again \<longrightarrow> todo a s' < todo a s \<or> (\<exists>s1. request_fill a s = (Next, s1) \<and> bad_line (req a s1))) \<and>
    (fl = Next \<longrightarrow> unparsed (req a s') (io s') < todo a s)"
  proof cases
    case stop
    then show ?thesis using fill assms(2) f1 by (auto simp: request_parse_def)
  next
    case at_line
    then have e: "fl = fl2" "s' = s2" using assms(2) f1 f2 by (simp_all add: request_parse_def)
    have "todo a s2 < todo a s \<or> bad_line (req a s1)" if "fl2 = Again"
      using line(4) [OF that] fill(4,5) at_line(1) by (auto simp: todo_def)
    then show ?thesis using e line(1,3) t f1 at_line by auto
  next
    case at_headers
    then have e: "fl = fl3" "s' = s3" using assms(2) f1 f2 f3 by (simp_all add: request_parse_def)
    have u1: "unparsed (req a s1) (io s1) \<le> unparsed (req a s) (io s)" "r_parse_pos (req a s1) < r_last (req a s1)" using fill(4,5) at_headers(1) by simp_all
    have l: "if r_parse_phase (req a s) = 0 then unparsed (req a s2) (io s2) < unparsed (req a s1) (io s1) \<and> r_parse_phase (req a s2) = 1 else s2 = s1"
      using line(5) at_headers(2) fill(6) by simp
    have "todo a s3 < todo a s" if "fl3 = Again"
      using hdr(4) [OF that] l u1 by (auto simp: todo_def split: if_splits)
    moreover have "unparsed (req a s3) (io s3) < todo a s" if "fl3 = Next"
      using hdr(5) [OF that] l u1 fill(6) by (auto simp: todo_def split: if_splits)
    ultimately show ?thesis using e hdr(1,3) t3 by auto
  qed
  then show "busy own a s'" and "touches a s s'" and "fl \<in> {Next, Again, Close, Break}"
    and "fl = Again \<Longrightarrow> todo a s' < todo a s \<or> (\<exists>s1. request_fill a s = (Next, s1) \<and> bad_line (req a s1))"
    and "fl = Next \<Longrightarrow> unparsed (req a s') (io s') < todo a s" by blast+
qed

section \<open>Static responses\<close>

lemma try_send_stays: "busy own a s \<Longrightarrow> run_req a try_send s = (rc, s') \<Longrightarrow> stays own a s s'"
  unfolding stays_def using try_send_op.run_busy by blast

lemma after_send_stays:
  assumes "busy own a s" and "run_req a try_send s = (rc, s1)"
    and "(fl, s') = (if rc < 0 then (Close, s1) else if rc = 1 then (Next, set_writing a s1) else (Next, on_req a reset_output s1))"
  shows "stays own a s s'" and "fl \<in> {Close, Next}"
proof -
  have st: "stays own a s s1" by (rule try_send_stays [OF assms(1,2)])
  then have b: "busy own a s1" by (simp add: stays_def)
  from assms(3) st stays_trans [OF st stays_writing [OF b]] stays_trans [OF st stays_reset [OF b]]
  show "stays own a s s'" "fl \<in> {Close, Next}" by (auto split: if_splits)
qed

lemma static_error_stays:
  assumes "busy own a s" and "static_error a cause errnum shortmsg longmsg ka s = (fl, s')"
  shows "stays own a s s'" and "fl \<in> {Close, Next}"
proof -
  obtain rc s1 where r: "reply_error a cause errnum shortmsg longmsg ka s = (rc, s1)" by fastforce
  have st: "stays own a s s1" by (rule reply_error_stays [OF assms(1) r])
  then have b: "busy own a s1" by (simp add: stays_def)
  from assms(2) r st stays_trans [OF st stays_writing [OF b]] stays_trans [OF st stays_reset [OF b]]
  show "stays own a s s'" "fl \<in> {Close, Next}" by (auto simp: static_error_def split: if_splits)
qed

lemma static_reply_stays:
  assumes "busy own a s" and "static_reply e a filename out s = (fl, s')"
  shows "stays own a s s' \<and> fl \<in> {Close, Next}"
proof (cases "\<exists>sb. e_stat e filename = Some sb \<and> is_path_under_root_real (e_realpath e) (r_root (req a s)) filename \<and> st_regular sb \<and> st_readable sb")
  case False
  then show ?thesis using assms(2) static_error_stays [OF assms(1)] by (auto simp: static_reply_def split: option.splits if_splits)
next
  case True
  then obtain sb where sb: "e_stat e filename = Some sb" "is_path_under_root_real (e_realpath e) (r_root (req a s)) filename" "st_regular sb" "st_readable sb"
    by blast
  let ?out = "out\<lparr>o_mtime := st_mtime sb, o_status := (if o_status out = 0 then ZV_HTTP_OK else o_status out)\<rparr>"
  obtain rc s1 where p: "run_req a (prepare_static (e_content e) (e_strftime e) filename (st_size sb) ?out) s = (rc, s1)" by fastforce
  have st: "stays own a s s1" unfolding stays_def using prepare_static_op.run_busy [OF assms(1) p] by blast
  then have b: "busy own a s1" by (simp add: stays_def)
  obtain rc2 s2 where t: "run_req a try_send s1 = (rc2, s2)" by fastforce
  show ?thesis
  proof (cases "rc < 0")
    case True
    then show ?thesis using assms(2) sb p st by (simp add: static_reply_def Let_def)
  next
    case False
    then have "(fl, s') = (if rc2 < 0 then (Close, s2) else if rc2 = 1 then (Next, set_writing a s2) else (Next, on_req a reset_output s2))"
      using assms(2) sb p t by (simp add: static_reply_def Let_def)
    from after_send_stays [OF b t this] st stays_trans show ?thesis by blast
  qed
qed

definition flow_part :: "addr set \<Rightarrow> addr \<Rightarrow> 'z timer_mem_scheme \<Rightarrow> (flow \<times> 'z timer_mem_scheme) outcome \<Rightarrow> bool" where
  "flow_part own a s res \<longleftrightarrow>
     (\<exists>fl s'. res = Ok (fl, s') \<and> touches a s s' \<and> (fl = Return \<longrightarrow> waiting own a s') \<and> (fl \<noteq> Return \<longrightarrow> busy own a s') \<and> fl \<noteq> Next \<and>
        (fl = Again \<longrightarrow> todo a s' \<le> unparsed (req a s) (io s)))"

lemma flow_part_step:
  "stays own a s s1 \<Longrightarrow> flow_part own a s1 res \<Longrightarrow> flow_part own a s res"
  by (auto simp: flow_part_def stays_def conn_same_def unparsed_def intro: touches_trans)

lemma flow_part_close: "stays own a s s1 \<Longrightarrow> flow_part own a s (Ok (Close, s1))"
  by (simp add: flow_part_def stays_def)

lemma flow_part_wait:
  assumes "busy own a s"
  shows "flow_part own a s (andthen (wait_writable a s) (\<lambda>s. Ok (Return, s)))"
  using wait_writable_ends [OF assms] by (auto simp: flow_part_def)

lemma bad_uri_part:
  assumes "busy own a s"
  shows "flow_part own a s (bad_uri a s)"
proof -
  obtain rc s1 where r: "reply_error a ''invalid uri'' ''400'' ''Bad Request'' ''invalid uri'' False s = (rc, s1)" by fastforce
  have st: "stays own a s s1" by (rule reply_error_stays [OF assms r])
  then have b: "busy own a s1" by (simp add: stays_def)
  have w: "stays own a s (set_writing a s1)" by (rule stays_trans [OF st stays_writing [OF b]])
  have "busy own a (set_writing a s1)" using w by (simp add: stays_def)
  then have "flow_part own a s (andthen (wait_writable a (set_writing a s1)) (\<lambda>s. Ok (Return, s)))"
    by (intro flow_part_step [OF w] flow_part_wait)
  then show ?thesis
    using flow_part_close [OF st] flow_part_close [OF stays_trans [OF st stays_reset [OF b]]] by (simp add: bad_uri_def r)
qed

lemma next_request_conn:
  assumes "conn_ok r"
  shows "conn_ok (next_request r)" and "r_timer (next_request r) = r_timer r" and "r_fd (next_request r) = r_fd r"
    and "r_last (next_request r) - r_parse_pos (next_request r) = r_last r - r_parse_pos r" and "r_parse_phase (next_request r) = 0"
  using assms by (auto simp: next_request_def Let_def conn_ok_def buf_ok_def)

lemma request_done_part:
  assumes "busy own a s"
  shows "flow_part own a s (request_done a ka s)"
proof -
  have ok: "conn_ok (req a s)" "r_timer (req a s) = NULL" using assms by (simp_all add: busy_def)
  note n = next_request_conn [OF ok(1)]
  let ?s = "upd_req a next_request s"
  have b: "busy own a ?s" "touches a s ?s" using busy_upd [OF assms, of next_request] n ok by simp_all
  have r: "req a ?s = next_request (req a s)" "io ?s = io s" by (simp_all add: upd_req_def req_def set_req_def)
  have "todo a ?s = unparsed (req a s) (io s)" using n by (simp add: todo_def unparsed_def r)
  moreover obtain s' where "wait_writable a ?s = Ok s'" "waiting own a s'" "touches a ?s s'" using wait_writable_ends [OF b(1)] by blast
  moreover have "\<not> r_last (req a s) < r_parse_pos (req a s)" using ok(1) by (simp add: conn_ok_def)
  ultimately show ?thesis using b by (auto simp: request_done_def Let_def flow_part_def intro: touches_trans)
qed

lemma request_static_part:
  assumes "busy own a s"
  shows "flow_part own a s (request_static e a s)"
proof (cases "parse_uri (r_root (req a s)) (uri_text (req a s)) SHORTLINE")
  case None
  then show ?thesis using bad_uri_part [OF assms] by (simp add: request_static_def)
next
  case (Some filename)
  obtain ok s1 where s1: "alloc_answer s = (ok, s1)" by fastforce
  note al = busy_alloc [OF assms s1]
  have st1: "stays own a s s1" using al by (simp add: stays_def)
  obtain s2 out where h: "zv_http_handle_header (e_date e) a (s1, zv_init_out_t (r_fd (req a s1)) (e_heap e)) = Some (s2, out)" "stays own a s1 s2"
    using handle_header_busy [OF al(2)] by blast
  have b2: "busy own a s2" using h(2) by (simp add: stays_def)
  obtain fl s3 where r: "static_reply e a filename out s2 = (fl, s3)" by fastforce
  note rep = static_reply_stays [OF b2 r]
  then have st: "stays own a s s3" using stays_trans [OF stays_trans [OF st1 h(2)]] by blast
  then have b3: "busy own a s3" by (simp add: stays_def)
  have "flow_part own a s (if fl \<noteq> Next then Ok (fl, s3) else request_done a (o_keep_alive out) s3)"
    using rep flow_part_close [OF st] flow_part_step [OF st request_done_part [OF b3]] by auto
  then show ?thesis using Some s1 al(1) h(1) r by (simp add: request_static_def)
qed

section \<open>The read handler\<close>

lemma request_pass_part:
  assumes "busy own a s"
  shows "\<exists>fl s'. request_pass e a s = Ok (fl, s') \<and> touches a s s' \<and> (fl = Return \<longrightarrow> waiting own a s') \<and> (fl \<noteq> Return \<longrightarrow> busy own a s') \<and>
     fl \<noteq> Next \<and> (fl = Again \<longrightarrow> todo a s' < todo a s \<or> (\<exists>s1. request_fill a s = (Next, s1) \<and> bad_line (req a s1)))"
proof -
  obtain fl s1 where p: "request_parse a s = (fl, s1)" by fastforce
  note rp = request_parse_busy [OF assms p]
  show ?thesis
  proof (cases "fl = Next")
    case False
    then show ?thesis using rp p by (auto simp: request_pass_def)
  next
    case True
    note lt = rp(5) [OF True]
    obtain rc s2 where c: "handle_cgi_mvp e a s1 = Ok (rc, s2)" "touches a s1 s2" "rc = ZV_CGI_RETURN \<longrightarrow> waiting own a s2"
      "rc \<noteq> ZV_CGI_RETURN \<longrightarrow> busy own a s2" "rc = ZV_CGI_NOT \<longrightarrow> s2 = s1" "rc \<in> {-1, ZV_CGI_NOT, ZV_CGI_RETURN, ZV_CGI_CLOSE}"
      using handle_cgi_part [OF rp(1), of e] unfolding cgi_part_def by blast
    have t2: "touches a s s2" using rp(2) c(2) by (rule touches_trans)
    show ?thesis
    proof (cases "rc < 0 \<or> rc = ZV_CGI_RETURN \<or> rc = ZV_CGI_CLOSE")
      case True
      then show ?thesis using p \<open>fl = Next\<close> c t2 by (auto simp: request_pass_def ZV_CGI_RETURN_def ZV_CGI_CLOSE_def)
    next
      case False
      then have "s2 = s1" using c(5,6) by auto
      have eq: "request_pass e a s = request_static e a s1" using p \<open>fl = Next\<close> c(1) False \<open>s2 = s1\<close> by (simp add: request_pass_def)
      obtain fl' s3 where r: "request_static e a s1 = Ok (fl', s3)" "touches a s1 s3" "fl' = Return \<longrightarrow> waiting own a s3" "fl' \<noteq> Return \<longrightarrow> busy own a s3"
        "fl' \<noteq> Next" "fl' = Again \<longrightarrow> todo a s3 \<le> unparsed (req a s1) (io s1)"
        using request_static_part [OF rp(1), of e] unfolding flow_part_def by blast
      have "touches a s s3" using rp(2) r(2) by (rule touches_trans)
      with r lt show ?thesis unfolding eq by auto
    qed
  qed
qed

definition loop_end :: "addr set \<Rightarrow> addr \<Rightarrow> 'z timer_mem_scheme \<Rightarrow> (flow \<times> 'z timer_mem_scheme) outcome \<Rightarrow> bool" where
  "loop_end own a s res \<longleftrightarrow>
     (\<exists>fl s'. res = Ok (fl, s') \<and> touches a s s' \<and> (fl = Return \<longrightarrow> waiting own a s') \<and> (fl \<noteq> Return \<longrightarrow> busy own a s') \<and>
        fl \<in> {Return, Break, Close})"

lemma request_loop_part:
  "request_loop e a s = Some res \<Longrightarrow> busy own a s \<longrightarrow> loop_end own a s res"
proof (rule request_loop.raw_induct [where P = "\<lambda>e a s res. busy own a s \<longrightarrow> loop_end own a s res"])
  fix loop e a res and s :: "'a timer_mem_scheme"
  assume ih: "\<And>e a s res. loop e a s = Some res \<Longrightarrow> busy own a s \<longrightarrow> loop_end own a s res"
    and eq: "(case request_pass e a s of
        Ok (fl, s') \<Rightarrow> if fl = Again then loop e a s' else Some (Ok (fl, s'))
      | Exit n \<Rightarrow> Some (Exit n) | Crash \<Rightarrow> Some Crash | Hang \<Rightarrow> Some Hang) = Some res"
  show "busy own a s \<longrightarrow> loop_end own a s res"
  proof
    assume "busy own a s"
    from request_pass_part [OF this, of e] obtain fl s' where p: "request_pass e a s = Ok (fl, s')" "touches a s s'"
      "fl = Return \<longrightarrow> waiting own a s'" "fl \<noteq> Return \<longrightarrow> busy own a s'" "fl \<noteq> Next" by blast
    show "loop_end own a s res"
    proof (cases "fl = Again")
      case True
      then have "loop_end own a s' res" using eq p ih [of e a s' res] by simp
      with p(2) show ?thesis by (auto simp: loop_end_def intro: touches_trans)
    next
      case False
      then have "res = Ok (fl, s')" using eq p(1) by simp
      with p False show ?thesis by (cases fl) (auto simp: loop_end_def)
    qed
  qed
qed

lemma request_finish_served:
  assumes "touches a s s'" and "fl = Return \<longrightarrow> waiting own a s'" and "fl \<noteq> Return \<longrightarrow> busy own a s'" and "fl \<in> {Return, Break, Close}"
  shows "served own a s (request_finish a (fl, s'))"
proof (cases fl)
  case Break
  then have b: "busy own a s'" using assms(3) by simp
  then have "served own a s' (request_finish a (fl, s'))" using Break by (simp add: request_finish_def Let_def served_wait)
  with assms(1) show ?thesis by (rule served_step)
next
  case Close
  then have b: "busy own a s'" using assms(3) by simp
  have "served own a (on_req a reset_output s') (request_finish a (fl, s'))" using Close served_close [OF busy_reset(1) [OF b]] by (simp add: request_finish_def)
  with touches_trans [OF assms(1) busy_reset(2) [OF b]] show ?thesis by (rule served_step)
next
  case Return
  then show ?thesis using assms by (auto simp: request_finish_def served_def)
qed (use assms(4) in simp_all)

text \<open>When the loop does not end.\<close>

inductive passes :: "env \<Rightarrow> addr \<Rightarrow> 'z timer_mem_scheme \<Rightarrow> 'z timer_mem_scheme \<Rightarrow> bool" for e :: env and a :: addr where
  here: "passes e a s s"
| again: "request_pass e a s = Ok (Again, s1) \<Longrightarrow> passes e a s1 s2 \<Longrightarrow> passes e a s s2"

definition bad_input :: "addr \<Rightarrow> 'z timer_mem_scheme \<Rightarrow> bool" where
  "bad_input a s \<longleftrightarrow> (\<exists>s1. request_fill a s = (Next, s1) \<and> bad_line (req a s1))"

lemma loop_ends:
  "busy own a s \<Longrightarrow> (\<And>s'. passes e a s s' \<Longrightarrow> \<not> bad_input a s') \<Longrightarrow> request_loop e a s \<noteq> None"
proof (induction "todo a s" arbitrary: s rule: less_induct)
  case less
  from request_pass_part [OF less(2), of e] obtain fl s' where p: "request_pass e a s = Ok (fl, s')" "fl \<noteq> Return \<longrightarrow> busy own a s'"
    "fl = Again \<longrightarrow> todo a s' < todo a s \<or> bad_input a s" unfolding bad_input_def by blast
  show ?case
  proof (cases "fl = Again")
    case True
    have "\<not> bad_input a s" using less(3) passes.here by blast
    then have "todo a s' < todo a s" using p(3) True by simp
    moreover have "\<not> bad_input a s2" if "passes e a s' s2" for s2 using that less(3) passes.again p(1) True by blast
    ultimately have "request_loop e a s' \<noteq> None" using less(1) p(2) True by simp
    then show ?thesis using p(1) True by (subst request_loop.simps) simp
  next
    case False
    then show ?thesis using p(1) by (subst request_loop.simps) simp
  qed
qed

lemma rl_step_result: "fst (rl_step p ch st r) = fst (rl_step p ch st r')"
  by (cases st) (simp_all add: Let_def)

lemma rl_scan_result:
  assumes "scan rl_step p cs st r = (res, q, r1)"
  shows "\<exists>r2. scan rl_step p cs st r' = (res, q, r2)"
  using assms
proof (induction cs arbitrary: p st r r')
  case (Cons c cs)
  obtain x y where xy: "rl_step p c st r = (x, y)" by fastforce
  then obtain y' where xy': "rl_step p c st r' = (x, y')" using rl_step_result [of p c st r r'] by (metis fst_conv prod.collapse)
  show ?case using Cons xy xy' by (cases x) auto
qed simp

lemma rl_set_method_state [simp]: "r_request_line_state (rl_set_method p r) = r_request_line_state r"
  by (simp add: rl_set_method_def Let_def)

lemma rl_scan_state: "scan rl_step p cs st r = (res, q, r') \<Longrightarrow> r_request_line_state r' = r_request_line_state r"
proof (rule scan_invariant [where I = "\<lambda>x. r_request_line_state x = r_request_line_state r" and f = rl_step and x = r])
  fix p c st res x x'
  assume "r_request_line_state x = r_request_line_state r" "rl_step p c st x = (res, x')"
  then show "r_request_line_state x' = r_request_line_state r" by (cases st) (auto simp: Let_def split: if_splits)
qed simp_all

text \<open>The parser refuses the same bytes again.\<close>

lemma bad_line_again:
  assumes "conn_ok r" and "bad_line r" and "zv_http_parse_request_line r = (rc, r')"
  shows "rc = ZV_AGAIN" and "bad_line r'" and "r_parse_pos r' = r_parse_pos r" and "r_last r' = r_last r"
proof -
  have b: "buf_ok r" "r_parse_pos r \<le> r_last r" using assms(1) by (simp_all add: conn_ok_def)
  have lt: "r_parse_pos r < r_last r" "r_parse_phase r = 0" and rc: "rc = ZV_AGAIN" "r_parse_pos r' = r_parse_pos r" using assms(2,3) by (auto simp: bad_line_def)
  obtain res q r1 where sc: "scan rl_step (r_parse_pos r) (unread r (r_parse_pos r)) (r_request_line_state r) r = (res, q, r1)" by (metis prod.collapse)
  note eq = assms(3) [unfolded parse_line_scan [OF b] sc prod.case] and pos = scan_pos [OF sc]
  have len: "length (unread r (r_parse_pos r)) = r_last r - r_parse_pos r" using b by (simp add: unread_def buf_ok_def)
  note inp = rl_scan_input [OF sc]
  have f: "res = Fail ZV_AGAIN" "r' = r1"
    using eq pos len lt rc by (cases res; auto simp: ZV_AGAIN_def EAGAIN_def ZV_OK_def)+
  have same: "r_buf r' = r_buf r" "r_last r' = r_last r" "r_request_line_state r' = r_request_line_state r" "r_parse_phase r' = r_parse_phase r"
    using inp rl_scan_state [OF sc] rl_scan_frame [OF sc] f(2) by (simp_all add: same_input_def parse_frame_def)
  then have b': "buf_ok r'" "r_parse_pos r' \<le> r_last r'" "unread r' (r_parse_pos r') = unread r (r_parse_pos r)"
    using b rc(2) by (simp_all add: buf_ok_def unread_def)
  obtain r2 where s2: "scan rl_step (r_parse_pos r') (unread r' (r_parse_pos r')) (r_request_line_state r') r' = (res, q, r2)"
    using rl_scan_result [OF sc, of r'] b'(3) rc(2) same(3) by auto
  have "zv_http_parse_request_line r' = (ZV_AGAIN, r2)" unfolding parse_line_scan [OF b'(1,2)] s2 f(1) by simp
  moreover have "r_parse_pos r2 = r_parse_pos r'" using rl_scan_input [OF s2] by (simp add: same_input_def)
  ultimately show "bad_line r'" using lt rc(2) same by (simp add: bad_line_def)
  show "rc = ZV_AGAIN" "r_parse_pos r' = r_parse_pos r" "r_last r' = r_last r" using rc same by simp_all
qed

lemma bad_input_pass:
  assumes "busy own a s" and "bad_input a s"
  shows "\<exists>s2. request_pass e a s = Ok (Again, s2) \<and> busy own a s2 \<and> bad_input a s2"
proof -
  obtain s1 where f: "request_fill a s = (Next, s1)" and bad: "bad_line (req a s1)" using assms(2) by (auto simp: bad_input_def)
  note fill = request_fill_busy [OF assms(1) f]
  obtain rc r where p: "zv_http_parse_request_line (req a s1) = (rc, r)" by fastforce
  have ok: "conn_ok (req a s1)" using fill(1) by (simp add: busy_def)
  note again = bad_line_again [OF ok bad p]
  let ?s2 = "set_req a r s1"
  have "r_parse_phase (req a s1) = 0" using bad by (simp add: bad_line_def)
  then have l: "parse_line_phase a s1 = (Again, ?s2)" using p again(1) by (simp add: parse_line_phase_def)
  then have "request_pass e a s = Ok (Again, ?s2)" using f by (simp add: request_pass_def request_parse_def)
  moreover have "busy own a ?s2" by (rule parse_line_phase_busy(1) [OF fill(1) l])
  moreover have "req a ?s2 = r" by (simp add: req_def set_req_def)
  then have "request_fill a ?s2 = (Next, ?s2)" using again(3,4) fill(4) by (simp add: request_fill_def Let_def)
  with \<open>req a ?s2 = r\<close> again(2) have "bad_input a ?s2" by (auto simp: bad_input_def)
  ultimately show ?thesis by blast
qed

lemma bad_input_loops:
  assumes "busy own a s" and "bad_input a s"
  shows "request_loop e a s = None"
proof (rule ccontr)
  assume "request_loop e a s \<noteq> None"
  then obtain res where res: "request_loop e a s = Some res" by blast
  have "\<not> (busy own a s \<and> bad_input a s)"
  proof (rule request_loop.raw_induct [where P = "\<lambda>e a s res. \<not> (busy own a s \<and> bad_input a s)", OF _ res])
    fix loop e a res and s :: "'a timer_mem_scheme"
    assume ih: "\<And>e a s res. loop e a s = Some res \<Longrightarrow> \<not> (busy own a s \<and> bad_input a s)"
      and eq: "(case request_pass e a s of
        Ok (fl, s') \<Rightarrow> if fl = Again then loop e a s' else Some (Ok (fl, s'))
      | Exit n \<Rightarrow> Some (Exit n) | Crash \<Rightarrow> Some Crash | Hang \<Rightarrow> Some Hang) = Some res"
    show "\<not> (busy own a s \<and> bad_input a s)"
    proof
      assume "busy own a s \<and> bad_input a s"
      then obtain s2 where s2: "request_pass e a s = Ok (Again, s2)" "busy own a s2" "bad_input a s2" using bad_input_pass by blast
      with eq ih [of e a s2 res] show False by simp
    qed
  qed
  with assms show False by simp
qed

lemma request_loop_none_iff:
  assumes "busy own a s"
  shows "request_loop e a s = None \<longleftrightarrow> (\<exists>s'. passes e a s s' \<and> bad_input a s')"
proof
  show "\<exists>s'. passes e a s s' \<and> bad_input a s'" if "request_loop e a s = None" using that loop_ends [OF assms] by blast
next
  assume "\<exists>s'. passes e a s s' \<and> bad_input a s'"
  then obtain s' where "passes e a s s'" "bad_input a s'" by blast
  then show "request_loop e a s = None" using assms
  proof (induction rule: passes.induct)
    case (here s)
    then show ?case using bad_input_loops by blast
  next
    case (again s s1 s2)
    have "busy own a s1" using request_pass_part [OF again(5), of e] again(1) by auto
    then have "request_loop e a s1 = None" using again by blast
    then show ?case using again(1) by (subst request_loop.simps) simp
  qed
qed

lemma do_request_served:
  assumes "waiting own a s"
  shows "served own a s (do_request e a s) \<or> do_request e a s = Hang"
proof -
  obtain s1 where s1: "zv_del_timer a s = Ok s1" "busy own a s1" "touches a s s1" using waiting_del_timer [OF assms] by metis
  show ?thesis
  proof (cases "request_loop e a s1")
    case None
    then show ?thesis using s1(1) by (simp add: do_request_def)
  next
    case (Some res)
    from request_loop_part [OF Some] s1(2) obtain fl s2 where r: "res = Ok (fl, s2)" "touches a s1 s2" "fl = Return \<longrightarrow> waiting own a s2"
      "fl \<noteq> Return \<longrightarrow> busy own a s2" "fl \<in> {Return, Break, Close}" unfolding loop_end_def by blast
    from request_finish_served [OF r(2-5)] s1(3) have "served own a s (request_finish a (fl, s2))" by (blast intro: served_step)
    then show ?thesis using s1(1) Some r(1) by (simp add: do_request_def)
  qed
qed

section \<open>The write handler\<close>

lemma do_write_served:
  assumes "waiting own a s"
  shows "served own a s (do_write a s)"
proof -
  obtain s1 where s1: "zv_del_timer a s = Ok s1" "busy own a s1" "touches a s s1" using waiting_del_timer [OF assms] by metis
  have "served own a s1 (if r_cgi_active (req a s1) then cgi_write a s1 else
         case run_req a try_send s1 of (rc, s) \<Rightarrow>
           if rc = 1 then wait_writable a (set_writing a s)
           else if rc < 0 then ends (zv_http_close_conn a (on_req a reset_output s))
           else
             let s = on_req a reset_output (upd_req a (\<lambda>r. r\<lparr>r_writing := False\<rparr>) s)
             in if \<not> r_keep_alive (req a s) then ends (zv_http_close_conn a s)
                else zv_add_timer a (r_keep_alive_timeout_ms (req a s)) (Some H_zv_http_close_conn)
                       (s\<lparr>io := rearm_event a EPOLLIN (req a s, io s)\<rparr>))" (is "served own a s1 ?res")
  proof (cases "r_cgi_active (req a s1)")
    case True
    obtain c s2 where c: "run_req a (zv_cgi_on_client_writable a) s1 = (c, s2)" by fastforce
    note b = cgi_writable_op.run_busy [OF s1(2) c]
    have "served own a s2 (wait_writable a s2)" using served_wait [OF b(1)] by (simp add: wait_writable_def)
    then have "served own a s2 (cgi_write a s1)"
      using served_wait0 [OF b(1)] served_close [OF b(1)] by (simp add: cgi_write_def c)
    then show ?thesis using True b(2) served_step by (simp add: served_step)
  next
    case False
    obtain rc s2 where t: "run_req a try_send s1 = (rc, s2)" by fastforce
    have st: "stays own a s1 s2" by (rule try_send_stays [OF s1(2) t])
    then have b2: "busy own a s2" by (simp add: stays_def)
    have w: "stays own a s1 (set_writing a s2)" by (rule stays_trans [OF st stays_writing [OF b2]])
    then have r1: "served own a s1 (wait_writable a (set_writing a s2))"
      unfolding wait_writable_def by (intro served_step [OF _ served_wait]) (simp_all add: stays_def)
    have r: "stays own a s1 (on_req a reset_output s2)" by (rule stays_trans [OF st stays_reset [OF b2]])
    then have r2: "served own a s1 (ends (zv_http_close_conn a (on_req a reset_output s2)))"
      by (intro served_step [OF _ served_close]) (simp_all add: stays_def)
    let ?s3 = "upd_req a (\<lambda>r. r\<lparr>r_writing := False\<rparr>) s2"
    have "conn_same (req a s2) ((req a s2)\<lparr>r_writing := False\<rparr>)" by (simp add: conn_same_def)
    from busy_set_same [OF b2 this] have b3: "busy own a ?s3" "touches a s2 ?s3" by (simp_all add: upd_req_def)
    let ?s4 = "on_req a reset_output ?s3"
    have b4: "busy own a ?s4" "touches a s1 ?s4" using busy_reset(1,2) [OF b3(1)] b3(2) st by (auto simp: stays_def intro: touches_trans)
    have r3: "served own a s1 (ends (zv_http_close_conn a ?s4))" "served own a s1 (zv_add_timer a tmo (Some H_zv_http_close_conn) (?s4\<lparr>io := k\<rparr>))" for tmo k
      using served_step [OF b4(2)] served_close [OF b4(1)] served_wait [OF b4(1)] by blast+
    show ?thesis using False r1 r2 r3 by (simp add: t Let_def)
  qed
  then have "served own a s ?res" using s1(3) by (rule served_step [rotated])
  then show ?thesis by (simp add: do_write_def s1(1))
qed

section \<open>Output of a CGI program\<close>

lemma conn_same_cgi [simp]:
  "conn_same r (r'\<lparr>r_cgi_headers_done := b\<rparr>) = conn_same r r'" "conn_same r (r'\<lparr>r_cgi_body_buf := t\<rparr>) = conn_same r r'"
  "conn_same r (r'\<lparr>r_cgi_body_len := n\<rparr>) = conn_same r r'" "conn_same r (r'\<lparr>r_cgi_body_sent := n\<rparr>) = conn_same r r'"
  "conn_same r (r'\<lparr>r_cgi_hdr_len := n\<rparr>) = conn_same r r'" "conn_same r (r'\<lparr>r_cgi_hdr_buf := t\<rparr>) = conn_same r r'"
  "conn_same r (r'\<lparr>r_cgi_out_total := m\<rparr>) = conn_same r r'" "conn_same r (r'\<lparr>r_cgi_eof := b\<rparr>) = conn_same r r'"
  "conn_same r (r'\<lparr>r_cgi_out_fd := fd\<rparr>) = conn_same r r'"
  by (simp_all add: conn_same_def)

lemma chunk_prefix_same [simp]: "conn_same r (snd (prepare_chunk_prefix n r')) = conn_same r r'"
  by (simp add: prepare_chunk_prefix_def conn_same_def Let_def)

lemma http_header_same [simp]: "conn_same r (snd (build_http_header st ct r')) = conn_same r r'"
  by (simp add: build_http_header_def conn_same_def Let_def)

lemma first_block_same: "conn_same r (snd (cgi_first_block off hdr r')) = conn_same r r'"
  by (simp add: cgi_first_block_def case_prod_unfold Let_def)

lemma headers_found_same: "conn_same r (snd (cgi_headers_found off hdr r')) = conn_same r r'"
  by (cases "scan_cgi_lines (take off hdr) (200, [])") (simp_all add: cgi_headers_found_def case_prod_unfold first_block_same)

lemma header_data_same: "conn_same r (snd (cgi_header_data bs r')) = conn_same r r'"
  by (simp add: cgi_header_data_def Let_def headers_found_same split: option.split)

lemma cgi_data_same: "conn_same r (snd (cgi_data bs r))"
  by (simp add: cgi_data_def cgi_body_data_def case_prod_unfold header_data_same Let_def)

lemma cgi_eof_same:
  assumes "cgi_eof (r, k) = (x, (r', k'))"
  shows "conn_same r r'"
proof -
  have fill: "conn_same r (snd (cgi_fill t r'))  = conn_same r r'" for t r r' by (simp add: cgi_fill_def Let_def)
  have "conn_same r (snd (cgi_eof_early r'))  = conn_same r r'" for r r'
    by (simp add: cgi_eof_early_def case_prod_unfold fill)
  moreover have "conn_same r (ensure_final_chunk r') = conn_same r r'" for r r' by (simp add: ensure_final_chunk_def conn_same_def)
  ultimately have "conn_same r (fst (snd (cgi_eof (r, k))))" by (simp add: cgi_eof_def case_prod_unfold Let_def)
  then show ?thesis using assms by simp
qed

lemma cgi_read_loop_same: "cgi_read_loop (r, k) = (x, (r', k')) \<Longrightarrow> conn_same r r'"
proof (induction "(r, k)" arbitrary: r k rule: cgi_read_loop.induct)
  case (1 r k)
  show ?case
  proof (cases "cgi_unsent r")
    case True
    then show ?thesis using 1(3) by (simp add: cgi_read_loop.simps [of r k])
  next
    case False
    obtain res k1 where rd: "sys_read (r_cgi_out_fd r) CGI_BODY_CAP k = (res, k1)" by fastforce
    note eq = 1(3) [unfolded cgi_read_loop.simps [of r k], unfolded rd, simplified False if_False prod.case]
    show ?thesis
    proof (cases res)
      case (Inl e)
      then show ?thesis using eq 1(1) [OF False rd [symmetric] Inl] by (auto split: if_splits)
    next
      case (Inr bs)
      obtain y r1 where d: "cgi_data bs r = (y, r1)" by fastforce
      have c: "conn_same r r1" using cgi_data_same [of r bs] d by simp
      show ?thesis
      proof (cases "bs = []")
        case True
        then show ?thesis using eq Inr cgi_eof_same by simp
      next
        case ne: False
        show ?thesis
        proof (cases y)
          case None
          then have "cgi_read_loop (r1, k1) = (x, (r', k'))" using eq Inr ne d by simp
          from 1(2) [OF False rd [symmetric] Inr ne d [symmetric] None this] c show ?thesis by (rule conn_same_trans [rotated])
        qed (use eq Inr ne d c in simp)
      qed
    qed
  qed
qed

lemma stdout_ready_served:
  assumes "waiting own a s"
  shows "served own a s (zv_cgi_on_stdout_ready a s)"
proof (cases "r_cgi_active (req a s) \<and> r_cgi_out_fd (req a s) \<ge> 0")
  case False
  then show ?thesis using assms by (auto simp: zv_cgi_on_stdout_ready_def served_def)
next
  case True
  obtain s1 where s1: "zv_del_timer a s = Ok s1" "busy own a s1" "touches a s s1" using waiting_del_timer [OF assms] by metis
  obtain nx r k where l: "cgi_read_loop (req a s1, io s1) = (nx, (r, k))" by (metis surj_pair)
  note c = cgi_read_loop_same [OF l]
  have "r_timer r = NULL" "conn_ok r" using c s1(2) conn_same_ok [OF c] by (simp_all add: conn_same_def busy_def)
  note b = busy_set_req [OF s1(2) this, of k]
  let ?s2 = "set_req a r (s1\<lparr>io := k\<rparr>)"
  have "served own a ?s2 (zv_cgi_on_stdout_ready a s)"
    using True s1(1) l served_close [OF b(1)] served_wait [OF b(1)]
    by (cases nx) (simp_all add: zv_cgi_on_stdout_ready_def Let_def)
  then show ?thesis using served_step [OF touches_trans [OF s1(3) b(2)]] by blast
qed

section \<open>New connections\<close>

text \<open>The request object of a new connection is a cleared block of the free list or a new block.\<close>

lemma request_get_fields:
  assumes "worker_inv s own" and "zv_http_request_get fd epfd cf s = (a, s')" and "a \<noteq> NULL"
  shows "\<exists>r0 got. req a s' = init_output_fields (init_items a fd got (init_parse_fields fd epfd cf r0)) \<and>
    (r0 = zero_request \<or> reqs s a = Some r0) \<and> (granted s \<longrightarrow> r_conn_item r0 = None \<longrightarrow> got)"
proof -
  from assms(1) obtain xs fs ds L where "mem_inv s own xs fs ds L" by (auto simp: worker_inv_def)
  then have rc: "rc_inv s fs ds" by (simp add: mem_inv_def rc_accounted_def)
  let ?s = "(rc_init_once s)\<lparr>rc_get_calls := rc_get_calls (rc_init_once s) + 1\<rparr>"
  obtain s1 where t: "rc_take ?s = (a, s1)" "s' = zv_init_request_t a fd epfd cf s1"
    using assms(2,3) by (cases "rc_take ?s") (auto simp: zv_http_request_get_def Let_def split: if_splits)
  let ?r = "init_parse_fields fd epfd cf (req a s1)"
  obtain p s2 where p: "(if r_conn_item ?r = None then malloc (INIT_LIST_HEAD (ReqFree a) (INIT_LIST_HEAD (ReqList a) s1))
      else (NULL, INIT_LIST_HEAD (ReqFree a) (INIT_LIST_HEAD (ReqList a) s1))) = (p, s2)" by fastforce
  have r1: "req a (INIT_LIST_HEAD (ReqList a) s1) = req a s1" by (simp add: req_def)
  have "req a s' = init_output_fields (init_items a fd (p \<noteq> NULL) ?r)"
    using p by (simp add: t(2) zv_init_request_t_def Let_def r1)
  moreover have "r_conn_item ?r = r_conn_item (req a s1)" by (simp add: init_parse_fields_def)
  moreover have "req a s1 = zero_request \<or> reqs s a = Some (req a s1)" and gr: "granted s \<longrightarrow> granted s1 \<and> 1 \<le> brk s1"
  proof -
    have b: "1 \<le> brk s" using rc by (simp add: rc_inv_def)
    have i: "reqs (rc_init_once s) = reqs s" "mallocs (rc_init_once s) = mallocs s" "brk (rc_init_once s) = brk s"
      by (simp_all add: rc_init_once_def list_ops_defs)
    have "(req a s1 = zero_request \<or> reqs s a = Some (req a s1)) \<and> (granted s \<longrightarrow> granted s1 \<and> 1 \<le> brk s1)"
    proof (cases fs)
      case Nil
      then have "list_empty FreeRequests ?s" using rc fl.empty_iff [of "rc_init_once s" FreeRequests "[]"] by (simp add: rc_inv_def list_empty_def)
      then show ?thesis using t(1) assms(3) i b
        by (auto simp: rc_take_def set_req_def req_def malloc_def granted_def split: list.splits bool.splits if_splits)
    next
      case (Cons x xs)
      then have w: "wf_list (rc_init_once s) FreeRequests (ReqFree x # map ReqFree xs)" "x \<in> dom (reqs s)" using rc by (auto simp: rc_inv_def)
      have "nxt (rc_init_once s) FreeRequests = ReqFree x" "\<not> list_empty FreeRequests ?s"
        using fl.first_hd [OF w(1)] fl.empty_iff [OF w(1)] by (simp_all add: list_empty_def)
      then have "a = x" "reqs s1 = reqs s" "mallocs s1 = mallocs s" "brk s1 = brk s" using t(1) i
        by (auto simp: rc_take_def Let_def req_entry_def list_ops_defs)
      with w(2) b show ?thesis by (auto simp: req_def granted_def)
    qed
    then show "req a s1 = zero_request \<or> reqs s a = Some (req a s1)" and "granted s \<longrightarrow> granted s1 \<and> 1 \<le> brk s1" by blast+
  qed
  moreover have "p \<noteq> NULL" if "granted s" "r_conn_item (req a s1) = None"
  proof -
    have "granted s1" "1 \<le> brk s1" using gr that(1) by blast+
    with p that(2) show ?thesis
      by (auto simp: init_parse_fields_def malloc_def granted_def list_ops_defs split: list.splits bool.splits)
  qed
  ultimately show ?thesis by (intro exI [of _ "req a s1"] exI [of _ "p \<noteq> NULL"]) simp
qed

lemma request_get_conn:
  assumes "worker_inv s own" and "zv_http_request_get fd epfd cf s = (a, s')" and "a \<noteq> NULL" and "\<forall>r \<in> ran (reqs s). length (r_buf r) = MAX_BUF"
  shows "conn_ok (req a s')" and "granted s \<Longrightarrow> r_conn_item (req a s') = Some \<lparr>it_kind = ZV_EP_KIND_CONN, it_fd = fd, it_r = a\<rparr>"
proof -
  from request_get_fields [OF assms(1-3)] obtain r0 got where r: "req a s' = init_output_fields (init_items a fd got (init_parse_fields fd epfd cf r0))"
    "r0 = zero_request \<or> reqs s a = Some r0" "granted s \<longrightarrow> r_conn_item r0 = None \<longrightarrow> got" by (elim exE conjE) (rule that)
  have "length (r_buf r0) = MAX_BUF" using r(2) assms(4) by (auto simp: zero_request_def intro: ranI)
  then show "conn_ok (req a s')" by (simp add: r(1) init_output_fields_def init_items_def init_parse_fields_def conn_ok_def buf_ok_def MAX_BUF_def)
  show "r_conn_item (req a s') = Some \<lparr>it_kind = ZV_EP_KIND_CONN, it_fd = fd, it_r = a\<rparr>" if "granted s"
    using r(3) that by (auto simp: r(1) init_output_fields_def init_items_def init_parse_fields_def)
qed

section \<open>Properties\<close>


text \<open>A worker with one connection on descriptor five, whose client has sent the given bytes.\<close>

definition sample_conn :: "string \<Rightarrow> timer_mem" where
  "sample_conn bs = sample_worker\<lparr>io := (io sample_worker)\<lparr>k_in := (\<lambda>_. [])(5 := [Data bs])\<rparr>\<rparr>"

lemma sample_worker_conn:
  "conn_ok (req 1 sample_worker) \<and> r_parse_pos (req 1 sample_worker) = 0 \<and> r_last (req 1 sample_worker) = 0 \<and> r_fd (req 1 sample_worker) = 5 \<and>
   r_parse_phase (req 1 sample_worker) = 0 \<and> r_request_line_state (req 1 sample_worker) = rl_start"
proof -
  obtain a s where g: "zv_http_request_get 5 3 sample_conf timer_start = (a, s)" by (cases "zv_http_request_get 5 3 sample_conf timer_start")
  have a: "a = 1" "mallocs s = []" using sample_get by (simp_all add: g)
  from worker_inv_get [OF timer_start_inv g] a(1) obtain r where s: "worker_inv s {1}" "reqs s 1 = Some r" "fresh_conn 5 r" by (auto simp: req_def)
  have c: "conn_ok (req 1 s)" using request_get_conn(1) [OF timer_start_inv g] a(1) by (simp add: timer_start_def)
  have rt: "r_timer (req 1 s) = NULL" "1 \<in> {1::nat}" using s by (simp_all add: req_def fresh_conn_def)
  have pre: "\<forall>m \<in> set (mallocs s). m" using a(2) by simp
  obtain s' t where s': "zv_add_timer 1 1500 (Some H_zv_http_close_conn) s = Ok s'" "reqs s' = (reqs s)(1 \<mapsto> (req 1 s)\<lparr>r_timer := t\<rparr>)"
    using worker_inv_add_timer [OF s(1) rt(2,1) pre, where tmo = 1500] by metis
  have "sample_worker = s'" using s'(1) by (simp add: sample_worker_def g)
  with s' s c show ?thesis by (simp add: req_def conn_ok_def buf_ok_def fresh_conn_def)
qed

lemma sample_conn_waiting: "waiting {1} 1 (sample_conn bs)"
proof -
  have "worker_inv sample_worker {1}" using sample_worker_inv by simp
  then have "worker_inv (sample_conn bs) {1}" by (rule worker_inv_cong) (simp_all add: sample_conn_def req_def)
  then show ?thesis using sample_worker_inv sample_worker_conn by (simp add: waiting_def sample_conn_def req_def granted_def)
qed


text \<open>
  C27. When the read handler never returns. The result of the request-line parser for a malformed line (\<^verbatim>\<open>ZV_HTTP_PARSE_INVALID_REQUEST\<close>, 11) is the
  number of \<^verbatim>\<open>EAGAIN\<close>, which the handler takes for a line that is incomplete, without reading or consuming anything: the handler of a connection loops forever
  exactly if after some number of complete requests it comes to a malformed request line. In all other cases it returns.
\<close>

theorem do_request_hangs_iff:
  assumes "waiting own a s"
  shows "do_request e a s = Hang \<longleftrightarrow> (\<exists>s1 s2. zv_del_timer a s = Ok s1 \<and> passes e a s1 s2 \<and> bad_input a s2)"
proof -
  obtain s1 where s1: "zv_del_timer a s = Ok s1" "busy own a s1" using waiting_del_timer [OF assms] by metis
  have "do_request e a s = Hang \<longleftrightarrow> request_loop e a s1 = None"
  proof (cases "request_loop e a s1")
    case (Some res)
    from request_loop_part [OF Some] s1(2) obtain fl s2 where r: "res = Ok (fl, s2)" "touches a s1 s2" "fl = Return \<longrightarrow> waiting own a s2"
      "fl \<noteq> Return \<longrightarrow> busy own a s2" "fl \<in> {Return, Break, Close}" unfolding loop_end_def by blast
    from request_finish_served [OF r(2-5)] show ?thesis using s1(1) Some r(1) by (auto simp: do_request_def served_def)
  qed (use s1(1) in \<open>simp add: do_request_def\<close>)
  then show ?thesis using request_loop_none_iff [OF s1(2)] s1(1) by simp
qed

lemma fresh_bad_input:
  assumes "busy own a s" and "r_parse_pos (req a s) = 0" and "r_last (req a s) = 0" and "r_parse_phase (req a s) = 0"
    and "r_request_line_state (req a s) = rl_start" and "k_in (io s) (r_fd (req a s)) = [Data bs]" and "bs \<noteq> []" and "length bs < MAX_BUF"
    and "fst (scan rl_step 0 bs rl_start r0) = Fail ZV_AGAIN"
  shows "bad_input a s"
proof -
  let ?r = "req a s"
  let ?r' = "?r\<lparr>r_buf := bs @ drop (length bs) (r_buf ?r), r_last := length bs\<rparr>"
  have ok: "conn_ok ?r" using assms(1) by (simp add: busy_def)
  have m: "MAX_BUF - 1 > 0" by (simp add: MAX_BUF_def)
  obtain k where "request_fill a s = (Next, set_req a ?r' (s\<lparr>io := k\<rparr>))"
    using assms(2,3,6-8) m by (auto simp: request_fill_def Let_def sys_read_def)
  moreover have "bad_line ?r'"
  proof -
    have b: "buf_ok ?r'" "r_parse_pos ?r' \<le> r_last ?r'" using ok assms(2,8) by (auto simp: conn_ok_def buf_ok_def)
    have u: "unread ?r' (r_parse_pos ?r') = bs" using assms(2) by (simp add: unread_def)
    obtain q r1 where "scan rl_step 0 bs rl_start r0 = (Fail ZV_AGAIN, q, r1)" using assms(9) by (metis prod.collapse)
    from rl_scan_result [OF this, of ?r'] obtain r2 where sc: "scan rl_step (r_parse_pos ?r') bs (r_request_line_state ?r') ?r' = (Fail ZV_AGAIN, q, r2)"
      using assms(2,5) by auto
    have "zv_http_parse_request_line ?r' = (ZV_AGAIN, r2)" unfolding parse_line_scan [OF b] u sc by simp
    moreover have "r_parse_pos r2 = r_parse_pos ?r'" using rl_scan_input [OF sc] by (simp add: same_input_def)
    ultimately show ?thesis using assms(2,4,7) by (simp add: bad_line_def)
  qed
  ultimately show ?thesis by (auto simp: bad_input_def req_def set_req_def)
qed

text \<open>Seven bytes of a client make the worker spin.\<close>

theorem do_request_hangs_iff_witness: "\<forall>e. do_request e 1 (sample_conn ''GET / X'') = Hang"
proof
  fix e
  let ?s = "sample_conn ''GET / X''"
  obtain s1 where s1: "zv_del_timer 1 ?s = Ok s1" "busy {1} 1 s1" "req 1 s1 = (req 1 ?s)\<lparr>r_timer := NULL\<rparr>" "io s1 = io ?s"
    using waiting_del_timer [OF sample_conn_waiting] by metis
  have r: "req 1 ?s = req 1 sample_worker" "k_in (io ?s) 5 = [Data ''GET / X'']" by (simp_all add: sample_conn_def req_def)
  have "bad_input 1 s1"
  proof (rule fresh_bad_input [OF s1(2)])
    show "fst (scan rl_step 0 ''GET / X'' rl_start zero_request) = Fail ZV_AGAIN"
      by (simp add: Let_def method_char_def between_def byte_val_def ZV_HTTP_PARSE_INVALID_REQUEST_def ZV_AGAIN_def EAGAIN_def)
  qed (use s1(3,4) r sample_worker_conn in \<open>simp_all add: MAX_BUF_def\<close>)
  then show "do_request e 1 ?s = Hang" using do_request_hangs_iff [OF sample_conn_waiting] s1(1) passes.here by blast
qed

end
