(* ===== verification/Zv_Conf.thy ===== *)
theory Zv_Conf
  imports Zv_Request_Cache Zv_Cstring
begin

text \<open>
  The helpers of \<^verbatim>\<open>src/src/util.c\<close>: the configuration file, the listening socket, and non-blocking mode.

  \<^verbatim>\<open>read_conf\<close> reads the lines of the file one behind the other into the caller's buffer; the document root it returns is a pointer into that buffer, which later lines
  must not overwrite. The model keeps the buffer and the position of the root (\<open>conf_state\<close>); the root is turned into a string at the end. \<^verbatim>\<open>fgets\<close> with
  room for one byte returns the empty string, as in glibc.

  The calls that set up a socket take their answers from a script, and the state \<open>net\<close> records what they did.

  The lemmas show that the configuration is the fold of the effects of the single lines, which is how a reader of the file understands it, that printed
  configurations are read back, and what a listening socket is like when setting it up succeeds.
\<close>

section \<open>The configuration file\<close>

definition ZV_CONF_OK :: int where "ZV_CONF_OK = 0"
definition ZV_CONF_ERROR :: int where "ZV_CONF_ERROR = 100"
definition BUFLEN :: nat where "BUFLEN = 8192"
definition DELIM :: char where "DELIM = CHR ''=''"

definition fgets :: "nat \<Rightarrow> string \<Rightarrow> (string \<times> string) option" where
  "fgets n input =
     (if n = 1 then Some ([], input)
      else if n = 0 \<or> input = [] then None
      else let room = take (n - 1) input;
               line = (if LF \<in> set room then takeWhile (\<lambda>c. c \<noteq> LF) room @ [LF] else room)
           in Some (line, drop (length line) input))"

definition put_string :: "nat \<Rightarrow> string \<Rightarrow> string \<Rightarrow> string" where
  "put_string pos s buf = take pos buf @ s @ NUL # drop (pos + length s + 1) buf"

text \<open>The end of the line, and blanks before it, are cut off.\<close>

definition conf_trim :: "string \<Rightarrow> string" where
  "conf_trim cur =
     (let cur = (if cur \<noteq> [] \<and> last cur = LF then butlast cur else cur)
      in rev (dropWhile (\<lambda>c. c = CR \<or> blank c) (rev cur)))"

definition conf_value :: "string \<Rightarrow> string" where
  "conf_value cur = dropWhile blank (tl (dropWhile (\<lambda>c. c \<noteq> DELIM) cur))"

text \<open>The effect of a line on the numbers of the configuration.\<close>

definition conf_set :: "string \<Rightarrow> string \<Rightarrow> zv_conf \<Rightarrow> zv_conf" where
  "conf_set cur val cf =
     (let cf = (if strncmp_eq ''port'' cur 4 then cf\<lparr>cf_port := atoi val\<rparr> else cf);
          cf = (if strncmp_eq ''threadnum'' cur 9 then cf\<lparr>cf_thread_num := atoi val\<rparr> else cf);
          cf = (if strncmp_eq ''workers'' cur 7 then cf\<lparr>cf_workers := atoi val\<rparr> else cf);
          cf = (if strncmp_eq ''cpu_affinity'' cur 12 then cf\<lparr>cf_cpu_affinity := atoi val\<rparr> else cf);
          cf = (if strncmp_eq ''keep_alive_timeout_ms'' cur 20 then cf\<lparr>cf_keep_alive_timeout_ms := atoi val\<rparr> else cf);
          cf = (if strncmp_eq ''request_timeout_ms'' cur 18 then cf\<lparr>cf_request_timeout_ms := atoi val\<rparr> else cf)
      in if strncmp_eq ''timeout_ms'' cur 10
         then cf\<lparr>cf_keep_alive_timeout_ms := atoi val, cf_request_timeout_ms := atoi val\<rparr> else cf)"

record conf_state =
  cs_buf :: string
  cs_root :: "nat option"
  cs_cf :: zv_conf

text \<open>The line at \<open>pos\<close> of the buffer; \<^const>\<open>None\<close> if it has no delimiter.\<close>

definition conf_line :: "nat \<Rightarrow> conf_state \<Rightarrow> conf_state option" where
  "conf_line pos st =
     (let buf = cs_buf st; cur = c_str (drop pos buf); t = conf_trim cur; val = conf_value t
      in if DELIM \<notin> set cur then None
         else Some (st\<lparr>cs_buf := take pos buf @ t @ replicate (length cur - length t) NUL @ drop (pos + length cur) buf,
                       cs_root := (if strncmp_eq ''root'' t 4 then Some (pos + (length t - length val)) else cs_root st),
                       cs_cf := conf_set t val (cs_cf st)\<rparr>))"

lemma c_str_put_empty: "c_str (drop pos (put_string pos [] buf)) = []"
  by (cases "pos \<le> length buf") (auto simp: put_string_def c_str_def)

lemma fgets_shorter:
  assumes "fgets n input = Some (line, rest)" and "line \<noteq> []"
  shows "length rest < length input"
proof -
  have "line \<noteq> [] \<Longrightarrow> length (drop (length line) input) < length input" if "input \<noteq> []" using that by (cases line; cases input) simp_all
  with assms show ?thesis by (auto simp: fgets_def Let_def split: if_splits)
qed

function conf_loop :: "nat \<Rightarrow> nat \<Rightarrow> string \<Rightarrow> conf_state \<Rightarrow> int \<times> conf_state" where
  "conf_loop len pos input st =
     (case fgets (len - pos) input of
        None \<Rightarrow> (ZV_CONF_OK, st)
      | Some (line, rest) \<Rightarrow>
          let st1 = st\<lparr>cs_buf := put_string pos line (cs_buf st)\<rparr>
          in case conf_line pos st1 of
               None \<Rightarrow> (ZV_CONF_ERROR, st1)
             | Some st2 \<Rightarrow> conf_loop len (pos + length (c_str (drop pos (cs_buf st1)))) rest st2)"
  by pat_completeness auto
termination
proof (relation "measure (\<lambda>(_, _, input, _). length input)", simp)
  fix len pos and input line rest :: string and st st1 st2 x
  assume a: "fgets (len - pos) input = Some x" "(line, rest) = x" "st1 = st\<lparr>cs_buf := put_string pos line (cs_buf st)\<rparr>"
    "conf_line pos st1 = Some st2"
  have "line \<noteq> []"
  proof
    assume "line = []"
    with a(3,4) show False by (simp add: conf_line_def Let_def c_str_put_empty)
  qed
  with a(1,2) fgets_shorter [of "len - pos" input line rest]
  show "((len, pos + length (c_str (drop pos (cs_buf st1))), rest, st2), len, pos, input, st) \<in> measure (\<lambda>(_, _, input, _). length input)"
    by simp
qed

declare conf_loop.simps [simp del]

definition default_conf :: zv_conf where
  "default_conf = \<lparr>cf_root = None, cf_port = 3000, cf_thread_num = 4, cf_workers = 1, cf_cpu_affinity = 0,
     cf_keep_alive_timeout_ms = ZV_DEFAULT_KEEP_ALIVE_TIMEOUT_MS, cf_request_timeout_ms = ZV_DEFAULT_REQUEST_TIMEOUT_MS\<rparr>"

text \<open>The configuration with its root read through the pointer.\<close>

definition conf_of :: "conf_state \<Rightarrow> zv_conf" where
  "conf_of st = (cs_cf st)\<lparr>cf_root := map_option (\<lambda>p. c_str (drop p (cs_buf st))) (cs_root st)\<rparr>"

definition read_conf :: "string option \<Rightarrow> zv_conf \<Rightarrow> string \<Rightarrow> nat \<Rightarrow> kio \<Rightarrow> (int \<times> zv_conf) \<times> kio" where
  "read_conf content cf buf len k =
     (case sys_open content k of (fp, k) \<Rightarrow>
        if fp < 0 then ((ZV_CONF_ERROR, cf), k)
        else
          case conf_loop len 0 (case content of None \<Rightarrow> [] | Some input \<Rightarrow> input) \<lparr>cs_buf = buf, cs_root = None, cs_cf = default_conf\<rparr> of
            (rc, st) \<Rightarrow> ((rc, conf_of st), if rc = ZV_CONF_OK then sys_close fp k else k))"

section \<open>Sockets\<close>

datatype sockopt = SO_REUSEADDR | SO_REUSEPORT | TCP_NODELAY

datatype net_event = SetOpt int sockopt | Bind int "16 word" | Listen int nat

record net =
  n_answers :: "bool list"
  n_events :: "net_event list"

definition net_answer :: "net \<Rightarrow> bool \<times> net" where
  "net_answer n = (n_answers n = [] \<or> hd (n_answers n), n\<lparr>n_answers := tl (n_answers n)\<rparr>)"

definition sys_socket :: "net \<times> kio \<Rightarrow> int \<times> net \<times> kio" where
  "sys_socket = (\<lambda>(n, k).
     case net_answer n of (ok, n) \<Rightarrow> if ok then (case new_fd k of (fd, k) \<Rightarrow> (fd, n, k)) else (-1, n, k))"

definition net_call :: "net_event \<Rightarrow> net \<Rightarrow> bool \<times> net" where
  "net_call e n = (case net_answer n of (ok, n) \<Rightarrow> (ok, if ok then n\<lparr>n_events := n_events n @ [e]\<rparr> else n))"

definition LISTENQ :: nat where "LISTENQ = 1024"

definition open_listenfd_reuseport :: "int \<Rightarrow> net \<times> kio \<Rightarrow> int \<times> net \<times> kio" where
  "open_listenfd_reuseport port x =
     (let port = (if port \<le> 0 then 3000 else port)
      in case sys_socket x of (listenfd, n, k) \<Rightarrow>
           if listenfd < 0 then (-1, n, k)
           else case net_call (SetOpt listenfd SO_REUSEADDR) n of (ok, n) \<Rightarrow>
             if \<not> ok then (-1, n, k)
             else case net_call (SetOpt listenfd SO_REUSEPORT) n of (ok, n) \<Rightarrow>
               if \<not> ok then (-1, n, k)
               else case net_call (Bind listenfd (of_int port)) n of (ok, n) \<Rightarrow>
                 if \<not> ok then (-1, n, k)
                 else case net_call (Listen listenfd LISTENQ) n of (ok, n) \<Rightarrow>
                   if \<not> ok then (-1, n, k) else (listenfd, n, k))"

definition make_socket_non_blocking :: "int \<Rightarrow> kio \<Rightarrow> int \<times> kio" where
  "make_socket_non_blocking fd k =
     (case sys_fcntl k of (got, k) \<Rightarrow>
        if \<not> got then (-1, k) else case sys_fcntl k of (ok, k) \<Rightarrow> (if ok then 0 else -1, k))"

section \<open>The configuration as a fold over lines\<close>

text \<open>A line without its end: trailing blanks are ignored, every key that is a prefix of the line is set.\<close>

definition rtrim :: "string \<Rightarrow> string" where
  "rtrim l = rev (dropWhile (\<lambda>c. c = CR \<or> blank c) (rev l))"

definition conf_keys :: "(string \<times> (int \<Rightarrow> zv_conf \<Rightarrow> zv_conf)) list" where
  "conf_keys =
     [(''port'', \<lambda>v cf. cf\<lparr>cf_port := v\<rparr>), (''threadnum'', \<lambda>v cf. cf\<lparr>cf_thread_num := v\<rparr>), (''workers'', \<lambda>v cf. cf\<lparr>cf_workers := v\<rparr>),
      (''cpu_affinity'', \<lambda>v cf. cf\<lparr>cf_cpu_affinity := v\<rparr>), (''keep_alive_timeout_m'', \<lambda>v cf. cf\<lparr>cf_keep_alive_timeout_ms := v\<rparr>),
      (''request_timeout_ms'', \<lambda>v cf. cf\<lparr>cf_request_timeout_ms := v\<rparr>),
      (''timeout_ms'', \<lambda>v cf. cf\<lparr>cf_keep_alive_timeout_ms := v, cf_request_timeout_ms := v\<rparr>)]"

definition conf_entry :: "string \<Rightarrow> zv_conf \<Rightarrow> zv_conf" where
  "conf_entry l cf =
     (let t = rtrim l; v = conf_value t;
          cf = fold (\<lambda>(key, set) cf. if prefix key t then set (atoi v) cf else cf) conf_keys cf
      in if prefix ''root'' t then cf\<lparr>cf_root := Some v\<rparr> else cf)"

definition conf_text :: "string list \<Rightarrow> string" where
  "conf_text ls = concat (map (\<lambda>l. l @ [LF]) ls)"

lemma strncmp_key:
  assumes "NUL \<notin> set key" and "n \<le> length key"
  shows "strncmp_eq key t n = prefix (take n key) t"
proof -
  have "NUL \<notin> set (take n key)" using assms(1) by (meson in_set_takeD)
  from strncmp_eq_prefix [OF this, of "drop n key" t] show ?thesis using assms(2) by simp
qed

lemma conf_set_keys: "conf_set t v cf = fold (\<lambda>(key, set) cf. if prefix key t then set (atoi v) cf else cf) conf_keys cf"
  by (simp add: conf_set_def conf_keys_def strncmp_key Let_def)

lemma conf_set_root: "(conf_set t v cf)\<lparr>cf_root := x\<rparr> = conf_set t v (cf\<lparr>cf_root := x\<rparr>)" "cf_root (conf_set t v cf) = cf_root cf"
  by (simp_all add: conf_set_def Let_def)

lemma conf_entry_set:
  "conf_entry l cf = (conf_set (rtrim l) (conf_value (rtrim l)) cf)
     \<lparr>cf_root := (if prefix ''root'' (rtrim l) then Some (conf_value (rtrim l)) else cf_root cf)\<rparr>"
proof -
  have "cf'\<lparr>cf_root := cf_root cf\<rparr> = cf'" if "cf_root cf' = cf_root cf" for cf' using that by (cases cf') simp
  then show ?thesis by (simp add: conf_entry_def conf_set_keys [symmetric] Let_def conf_set_root)
qed

text \<open>The root pointer stays valid: its string ends before the next line.\<close>

definition root_kept :: "nat \<Rightarrow> conf_state \<Rightarrow> bool" where
  "root_kept pos st \<longleftrightarrow>
     (case cs_root st of None \<Rightarrow> True
      | Some p \<Rightarrow> (\<exists>v. NUL \<notin> set v \<and> p + length v < pos \<and> take (length v + 1) (drop p (cs_buf st)) = v @ [NUL]))"

lemma c_str_ended: "NUL \<notin> set v \<Longrightarrow> c_str (v @ NUL # rest) = v"
  by (auto simp: c_str_def takeWhile_append)

lemma c_str_prefix:
  assumes "NUL \<notin> set v" and "take (length v + 1) xs = v @ [NUL]"
  shows "c_str xs = v"
proof -
  have "xs = v @ NUL # drop (length v + 1) xs" using assms(2) append_take_drop_id [of "length v + 1" xs] by simp
  with assms(1) show ?thesis by (metis c_str_ended)
qed

lemma rtrim_prefix: "\<exists>ws. l = rtrim l @ ws \<and> (\<forall>c \<in> set ws. c = CR \<or> blank c)"
proof -
  let ?P = "\<lambda>c. c = CR \<or> blank c"
  have "rev l = takeWhile ?P (rev l) @ dropWhile ?P (rev l)" by simp
  then have "l = rtrim l @ rev (takeWhile ?P (rev l))" unfolding rtrim_def by (metis rev_append rev_rev_ident)
  moreover have "\<forall>c \<in> set (rev (takeWhile ?P (rev l))). ?P c" by (auto dest: set_takeWhileD)
  ultimately show ?thesis by blast
qed

lemma conf_value_suffix: "\<exists>k. t = k @ conf_value t"
proof -
  define r where "r = dropWhile (\<lambda>c. c \<noteq> DELIM) t"
  have "t = takeWhile (\<lambda>c. c \<noteq> DELIM) t @ r" by (simp add: r_def)
  moreover have "r = take 1 r @ takeWhile blank (tl r) @ conf_value t" by (cases r) (simp_all add: conf_value_def r_def [symmetric])
  ultimately show ?thesis by (metis append.assoc)
qed

lemma fgets_line:
  assumes "LF \<notin> set l" and "length l + 2 < n"
  shows "fgets n (l @ LF # rest) = Some (l @ [LF], rest)"
proof -
  define room where "room = take (n - 1) (l @ LF # rest)"
  have "n - 1 = length l + Suc (n - 1 - (length l + 1))" using assms(2) by simp
  then have "room = take (length l + Suc (n - 1 - (length l + 1))) (l @ LF # rest)" unfolding room_def by (rule arg_cong)
  then have room: "room = l @ LF # take (n - 1 - (length l + 1)) rest" by simp
  have "takeWhile (\<lambda>c. c \<noteq> LF) room = l" using assms(1) unfolding room by (auto simp: takeWhile_append)
  moreover have "LF \<in> set room" by (simp add: room)
  ultimately show ?thesis using assms(2) unfolding fgets_def room_def [symmetric] by (simp add: Let_def)
qed

text \<open>One line: the state after it stands for the configuration in which the line has had its effect.\<close>

lemma conf_line_step:
  assumes "LF \<notin> set l" and "NUL \<notin> set l" and "DELIM \<in> set l" and "length (cs_buf st) = len" and "pos + length l + 2 < len" and "root_kept pos st"
    and "st1 = st\<lparr>cs_buf := put_string pos (l @ [LF]) (cs_buf st)\<rparr>"
  shows "\<exists>st2. conf_line pos st1 = Some st2 \<and> length (cs_buf st2) = len \<and> root_kept (pos + length l + 1) st2 \<and> conf_of st2 = conf_entry l (conf_of st)"
proof -
  let ?buf = "cs_buf st" and ?t = "rtrim l"
  let ?v = "conf_value ?t"
  define rest where "rest = drop (pos + length l + 2) ?buf"
  have b1: "cs_buf st1 = take pos ?buf @ l @ LF # NUL # rest" using assms(7) by (simp add: put_string_def rest_def)
  have same: "cs_root st1 = cs_root st" "cs_cf st1 = cs_cf st" using assms(7) by simp_all
  have pl: "length (take pos ?buf) = pos" using assms(4,5) by simp
  have cur: "c_str (drop pos (cs_buf st1)) = l @ [LF]"
    using c_str_ended [of "l @ [LF]" rest] assms(2) pl by (simp add: b1)
  have tr: "conf_trim (l @ [LF]) = ?t" by (simp add: conf_trim_def rtrim_def)
  obtain ws where ws: "l = ?t @ ws" using rtrim_prefix by blast
  obtain key where key: "?t = key @ ?v" using conf_value_suffix by blast
  have nn: "NUL \<notin> set ?t" "NUL \<notin> set ?v" using assms(2) ws key by (metis UnI1 set_append, metis UnI1 UnI2 set_append)
  define pad where "pad = replicate (length l + 1 - length ?t) NUL"
  have tl: "length ?t \<le> length l" using arg_cong [OF ws, of length] by simp
  then have pad: "pad = NUL # tl pad" "length ?t + length pad = length l + 1" by (simp_all add: pad_def Suc_diff_le)
  let ?st2 = "st1\<lparr>cs_buf := take pos ?buf @ ?t @ pad @ NUL # rest,
       cs_root := (if strncmp_eq ''root'' ?t 4 then Some (pos + (length ?t - length ?v)) else cs_root st), cs_cf := conf_set ?t ?v (cs_cf st)\<rparr>"
  have st2: "conf_line pos st1 = Some ?st2"
    using assms(3) pl same by (simp add: conf_line_def Let_def cur tr) (simp add: b1 pad_def)
  have root: "strncmp_eq ''root'' ?t 4 = prefix ''root'' ?t" by (simp add: strncmp_key)
  have old: "take (length v + 1) (drop p (take pos ?buf @ xs)) = take (length v + 1) (drop p ?buf)" if "p + length v < pos" for v xs p
    using that pl by (simp add: take_drop)
  have new: "take (length ?v + 1) (drop (pos + (length ?t - length ?v)) (take pos ?buf @ ?t @ pad @ NUL # rest)) = ?v @ [NUL]"
  proof -
    have "length ?t - length ?v = length key" using arg_cong [OF key, of length] by simp
    moreover have "take pos ?buf @ ?t @ pad @ NUL # rest = (take pos ?buf @ key) @ (?v @ NUL # tl pad @ NUL # rest)"
      using key pad(1) by (metis append.assoc append_Cons)
    moreover have "drop (pos + length key) ((take pos ?buf @ key) @ ys) = ys" for ys using pl by simp
    ultimately have "drop (pos + (length ?t - length ?v)) (take pos ?buf @ ?t @ pad @ NUL # rest) = ?v @ NUL # tl pad @ NUL # rest" by metis
    then show ?thesis by simp
  qed
  have b2: "cs_buf ?st2 = take pos ?buf @ (?t @ pad @ NUL # rest)" by simp
  have len: "length (cs_buf ?st2) = len" using assms(4,5) pad(2) by (simp add: rest_def)
  show ?thesis
  proof (cases "prefix ''root'' ?t")
    case True
    have p: "cs_root ?st2 = Some (pos + (length ?t - length ?v))" using True root by simp
    have "pos + (length ?t - length ?v) + length ?v < pos + length l + 1" using tl arg_cong [OF key, of length] by simp
    with p new nn(2) have k: "root_kept (pos + length l + 1) ?st2" by (auto simp: root_kept_def)
    have "c_str (drop (pos + (length ?t - length ?v)) (cs_buf ?st2)) = ?v" using c_str_prefix [OF nn(2) new] by simp
    then have "conf_of ?st2 = conf_entry l (conf_of st)" using p True by (simp add: conf_of_def conf_entry_set conf_set_root)
    with st2 len k show ?thesis by blast
  next
    case False
    then have p: "cs_root ?st2 = cs_root st" using root by simp
    have "root_kept (pos + length l + 1) ?st2 \<and> map_option (\<lambda>p. c_str (drop p (cs_buf ?st2))) (cs_root st) = map_option (\<lambda>p. c_str (drop p ?buf)) (cs_root st)"
    proof (cases "cs_root st")
      case (Some q)
      then obtain v where v: "NUL \<notin> set v" "q + length v < pos" "take (length v + 1) (drop q ?buf) = v @ [NUL]" using assms(6) by (auto simp: root_kept_def)
      have "take (length v + 1) (drop q (cs_buf ?st2)) = v @ [NUL]" unfolding b2 old [OF v(2)] by (rule v(3))
      with v Some p c_str_prefix [OF v(1)] show ?thesis by (auto simp: root_kept_def)
    qed (use p in \<open>simp add: root_kept_def\<close>)
    then have "root_kept (pos + length l + 1) ?st2" "conf_of ?st2 = conf_entry l (conf_of st)"
      using p False by (simp_all add: conf_of_def conf_entry_set conf_set_root)
    with st2 len show ?thesis by blast
  qed
qed

lemma conf_loop_lines:
  assumes "\<forall>l \<in> set ls. LF \<notin> set l \<and> NUL \<notin> set l" and "length (cs_buf st) = len" and "pos + length (conf_text ls) + 1 < len" and "root_kept pos st"
  shows "if \<forall>l \<in> set ls. DELIM \<in> set l
         then \<exists>st'. conf_loop len pos (conf_text ls) st = (ZV_CONF_OK, st') \<and> conf_of st' = fold conf_entry ls (conf_of st)
         else \<exists>st'. conf_loop len pos (conf_text ls) st = (ZV_CONF_ERROR, st')"
  using assms
proof (induction ls arbitrary: pos st)
  case Nil
  then have "len - pos \<noteq> 1" by simp
  then show ?case by (simp add: conf_loop.simps [of len pos] conf_text_def fgets_def)
next
  case (Cons l ls)
  have l: "LF \<notin> set l" "NUL \<notin> set l" using Cons.prems(1) by simp_all
  have ct: "conf_text (l # ls) = l @ LF # conf_text ls" by (simp add: conf_text_def)
  have room: "pos + length l + 2 < len" using Cons.prems(3) by (simp add: ct)
  have f: "fgets (len - pos) (l @ LF # conf_text ls) = Some (l @ [LF], conf_text ls)" using fgets_line [OF l(1)] room by simp
  define st1 where "st1 = st\<lparr>cs_buf := put_string pos (l @ [LF]) (cs_buf st)\<rparr>"
  have pl: "pos \<le> length (cs_buf st)" using Cons.prems(2) room by simp
  have cur: "c_str (drop pos (cs_buf st1)) = l @ [LF]"
    using c_str_ended [of "l @ [LF]"] l pl by (simp add: st1_def put_string_def)
  show ?case
  proof (cases "DELIM \<in> set l")
    case False
    have "DELIM \<noteq> LF" by (simp add: DELIM_def)
    then have "conf_line pos st1 = None" using False by (simp add: conf_line_def Let_def cur)
    with False show ?thesis unfolding ct by (simp add: conf_loop.simps [of len pos] f st1_def [symmetric])
  next
    case True
    from conf_line_step [OF l True Cons.prems(2) room Cons.prems(4) st1_def] obtain st2 where
      st2: "conf_line pos st1 = Some st2" "length (cs_buf st2) = len" "root_kept (pos + length l + 1) st2" "conf_of st2 = conf_entry l (conf_of st)" by blast
    have eq: "conf_loop len pos (conf_text (l # ls)) st = conf_loop len (pos + length l + 1) (conf_text ls) st2"
      unfolding ct by (simp add: conf_loop.simps [of len pos] f st1_def [symmetric] st2(1) cur)
    have "pos + length l + 1 + length (conf_text ls) + 1 < len" using Cons.prems(3) by (simp add: ct)
    with Cons.IH [OF _ st2(2) _ st2(3)] Cons.prems(1) st2(4) True show ?thesis unfolding eq by (auto split: if_splits)
  qed
qed

section \<open>Properties\<close>

lemma open_close_fds:
  assumes "sys_open (Some c) k = (fd, k')"
  shows "0 \<le> fd" and "k_fds k' = fd # k_fds k" and "k_fds (sys_close fd k') = k_fds k" and "fd \<notin> set (k_fds k)"
proof -
  have fd: "fd = lowest_fd (k_fds k)" and k': "k_fds k' = fd # k_fds k" using assms by (auto simp: sys_open_def new_fd_def Let_def)
  show "0 \<le> fd" "fd \<notin> set (k_fds k)" using lowest_fd_spec fd by auto
  then show "k_fds k' = fd # k_fds k" "k_fds (sys_close fd k') = k_fds k" using k' by (simp_all add: sys_close_def filter_id_conv) (metis filter_True)
qed

lemma read_conf_spec:
  assumes "\<forall>l \<in> set ls. LF \<notin> set l \<and> NUL \<notin> set l" and "length buf = len" and "length (conf_text ls) + 1 < len"
  shows "((\<forall>l \<in> set ls. DELIM \<in> set l) \<longrightarrow>
      (\<exists>k'. read_conf (Some (conf_text ls)) cf buf len k = ((ZV_CONF_OK, fold conf_entry ls default_conf), k') \<and> k_fds k' = k_fds k)) \<and>
    ((\<exists>l \<in> set ls. DELIM \<notin> set l) \<longrightarrow>
      (\<exists>cf' k' fd. read_conf (Some (conf_text ls)) cf buf len k = ((ZV_CONF_ERROR, cf'), k') \<and> k_fds k' = fd # k_fds k \<and> fd \<notin> set (k_fds k))) \<and>
    read_conf None cf buf len k = ((ZV_CONF_ERROR, cf), k)"
proof -
  let ?st = "\<lparr>cs_buf = buf, cs_root = None, cs_cf = default_conf\<rparr>"
  obtain fd k1 where o: "sys_open (Some (conf_text ls)) k = (fd, k1)" by fastforce
  note fds = open_close_fds [OF o]
  have c0: "conf_of ?st = default_conf" by (simp add: conf_of_def default_conf_def)
  have l: "if \<forall>l \<in> set ls. DELIM \<in> set l
         then \<exists>st'. conf_loop len 0 (conf_text ls) ?st = (ZV_CONF_OK, st') \<and> conf_of st' = fold conf_entry ls default_conf
         else \<exists>st'. conf_loop len 0 (conf_text ls) ?st = (ZV_CONF_ERROR, st')"
    using conf_loop_lines [of ls ?st len 0] assms unfolding c0 by (simp add: root_kept_def)
  have ne: "ZV_CONF_ERROR \<noteq> ZV_CONF_OK" by (simp add: ZV_CONF_ERROR_def ZV_CONF_OK_def)
  have "\<exists>k'. read_conf (Some (conf_text ls)) cf buf len k = ((ZV_CONF_OK, fold conf_entry ls default_conf), k') \<and> k_fds k' = k_fds k"
    if "\<forall>l \<in> set ls. DELIM \<in> set l"
    using l that fds o by (auto simp: read_conf_def)
  moreover have "\<exists>cf' k' fd. read_conf (Some (conf_text ls)) cf buf len k = ((ZV_CONF_ERROR, cf'), k') \<and> k_fds k' = fd # k_fds k \<and> fd \<notin> set (k_fds k)"
    if "\<exists>l \<in> set ls. DELIM \<notin> set l"
  proof -
    have "\<not> (\<forall>l \<in> set ls. DELIM \<in> set l)" using that by blast
    from l [unfolded if_not_P [OF this]] obtain st' where "conf_loop len 0 (conf_text ls) ?st = (ZV_CONF_ERROR, st')" by blast
    then show ?thesis using fds o ne by (simp add: read_conf_def)
  qed
  moreover have "read_conf None cf buf len k = ((ZV_CONF_ERROR, cf), k)" by (simp add: read_conf_def sys_open_def)
  ultimately show ?thesis by blast
qed

text \<open>
  C31. What \<^verbatim>\<open>read_conf\<close> returns for a file of lines without zero bytes that fits the buffer with two bytes to spare. If every line has a delimiter, the call succeeds, the
  configuration is the default one changed by the lines in their order, although the root is a pointer into a buffer that is written on, and no
  descriptor stays open. A line without a delimiter, an empty line or a comment for instance, is an error, and the file stays open. If the
  file cannot be opened, the call fails and changes nothing.
\<close>

theorem read_conf_lines:
  assumes "\<forall>l \<in> set ls. LF \<notin> set l \<and> NUL \<notin> set l" and "length buf = len" and "length (conf_text ls) + 1 < len"
  shows "((\<forall>l \<in> set ls. DELIM \<in> set l) \<longrightarrow>
      (\<exists>k'. read_conf (Some (conf_text ls)) cf buf len k = ((ZV_CONF_OK, fold conf_entry ls default_conf), k') \<and> k_fds k' = k_fds k)) \<and>
    ((\<exists>l \<in> set ls. DELIM \<notin> set l) \<longrightarrow>
      (\<exists>cf' k' fd. read_conf (Some (conf_text ls)) cf buf len k = ((ZV_CONF_ERROR, cf'), k') \<and> k_fds k' = fd # k_fds k \<and> fd \<notin> set (k_fds k))) \<and>
    read_conf None cf buf len k = ((ZV_CONF_ERROR, cf), k)"
  using assms by (rule read_conf_spec)

theorem read_conf_lines_witness:
  "\<exists>k'. read_conf (Some (conf_text [''port = 8080'', ''root=./html ''])) default_conf (replicate 64 NUL) 64 (quiet_kio []) =
     ((ZV_CONF_OK, default_conf\<lparr>cf_port := 8080, cf_root := Some ''./html''\<rparr>), k') \<and> k_fds k' = []"
proof -
  let ?ls = "[''port = 8080'', ''root=./html '']"
  have "fold conf_entry ?ls default_conf = default_conf\<lparr>cf_port := 8080, cf_root := Some ''./html''\<rparr>" by code_simp
  moreover have "\<forall>l \<in> set ?ls. DELIM \<in> set l" by (simp add: DELIM_def)
  ultimately show ?thesis using read_conf_lines [of ?ls "replicate 64 NUL" 64 default_conf "quiet_kio []"] by (simp add: conf_text_def quiet_kio_def)
qed

text \<open>A configuration file with one line per setting.\<close>

definition print_conf :: "zv_conf \<Rightarrow> string list" where
  "print_conf cf =
     (case cf_root cf of None \<Rightarrow> [] | Some root \<Rightarrow> [''root='' @ root]) @
     [''port='' @ int_string (cf_port cf), ''threadnum='' @ int_string (cf_thread_num cf), ''workers='' @ int_string (cf_workers cf),
      ''cpu_affinity='' @ int_string (cf_cpu_affinity cf), ''keep_alive_timeout_ms='' @ int_string (cf_keep_alive_timeout_ms cf),
      ''request_timeout_ms='' @ int_string (cf_request_timeout_ms cf)]"

definition plain_value :: "string \<Rightarrow> bool" where
  "plain_value v \<longleftrightarrow> v \<noteq> [] \<and> \<not> blank (hd v) \<and> \<not> blank (last v) \<and> last v \<noteq> CR \<and> LF \<notin> set v \<and> NUL \<notin> set v"

lemma read_conf_lines_fst:
  assumes "\<forall>l \<in> set ls. LF \<notin> set l \<and> NUL \<notin> set l \<and> DELIM \<in> set l" and "length buf = len" and "length (conf_text ls) + 1 < len"
  shows "fst (read_conf (Some (conf_text ls)) cf buf len k) = (ZV_CONF_OK, fold conf_entry ls default_conf)"
proof -
  have "\<forall>l \<in> set ls. LF \<notin> set l \<and> NUL \<notin> set l" using assms(1) by blast
  from read_conf_spec [OF this assms(2,3), of cf k] assms(1) show ?thesis by auto
qed

lemma entry_parts:
  assumes "DELIM \<notin> set key" and "plain_value v"
  shows "rtrim (key @ DELIM # v) = key @ DELIM # v" and "conf_value (key @ DELIM # v) = v"
proof -
  obtain w c where v: "v = w @ [c]" using assms(2) by (cases v rule: rev_cases) (simp_all add: plain_value_def)
  then have "\<not> (c = CR \<or> blank c)" using assms(2) by (simp add: plain_value_def)
  then show "rtrim (key @ DELIM # v) = key @ DELIM # v" unfolding v by (simp add: rtrim_def)
  have "dropWhile (\<lambda>c. c \<noteq> DELIM) (key @ DELIM # v) = DELIM # v" using assms(1) by (auto simp: dropWhile_append)
  moreover have "dropWhile blank v = v" using assms(2) by (cases v) (simp_all add: plain_value_def)
  ultimately show "conf_value (key @ DELIM # v) = v" by (simp add: conf_value_def)
qed

lemma int_plain: "plain_value (int_string i)"
proof -
  have d: "\<not> blank c \<and> c \<noteq> CR \<and> c \<noteq> LF \<and> c \<noteq> NUL" if "between CHR ''0'' CHR ''9'' c" for c
    using that by (auto simp: between_def byte_val_def blank_def)
  have p: "plain_value (dec_string n)" for n
  proof -
    have n: "dec_string n \<noteq> []" by (subst print_nat.simps) simp
    have g: "\<forall>c \<in> set (dec_string n). \<not> blank c \<and> c \<noteq> CR \<and> c \<noteq> LF \<and> c \<noteq> NUL" using dec_string_digits d by blast
    then show ?thesis using n hd_in_set [OF n] last_in_set [OF n] unfolding plain_value_def by blast
  qed
  moreover have "plain_value (CHR ''-'' # dec_string n)" for n using p [of n] by (simp add: plain_value_def blank_def)
  ultimately show ?thesis by (simp add: int_string_def)
qed

lemma atoi_int: "- (2 ^ 31) \<le> i \<Longrightarrow> i < 2 ^ 31 \<Longrightarrow> atoi (int_string i) = i"
  using atoi_print [of i "[]" "[]"] by simp

lemma entry_int:
  assumes "DELIM \<notin> set key" and "- (2 ^ 31) \<le> i" and "i < 2 ^ 31"
  shows "conf_entry (key @ DELIM # int_string i) cf =
    (let t = key @ DELIM # int_string i; cf = fold (\<lambda>(key, set) cf. if prefix key t then set i cf else cf) conf_keys cf
     in if prefix ''root'' t then cf\<lparr>cf_root := Some (int_string i)\<rparr> else cf)"
  unfolding conf_entry_def entry_parts [OF assms(1) int_plain] Let_def atoi_int [OF assms(2,3)] by simp

lemma print_entries:
  assumes "- (2 ^ 31) \<le> i \<and> i < 2 ^ 31"
  shows "conf_entry (''port='' @ int_string i) cf = cf\<lparr>cf_port := i\<rparr>"
    and "conf_entry (''threadnum='' @ int_string i) cf = cf\<lparr>cf_thread_num := i\<rparr>"
    and "conf_entry (''workers='' @ int_string i) cf = cf\<lparr>cf_workers := i\<rparr>"
    and "conf_entry (''cpu_affinity='' @ int_string i) cf = cf\<lparr>cf_cpu_affinity := i\<rparr>"
    and "conf_entry (''keep_alive_timeout_ms='' @ int_string i) cf = cf\<lparr>cf_keep_alive_timeout_ms := i\<rparr>"
    and "conf_entry (''request_timeout_ms='' @ int_string i) cf = cf\<lparr>cf_request_timeout_ms := i\<rparr>"
proof -
  have i: "- (2 ^ 31) \<le> i" "i < 2 ^ 31" using assms by simp_all
  note e = entry_int [OF _ i, unfolded DELIM_def]
  show "conf_entry (''port='' @ int_string i) cf = cf\<lparr>cf_port := i\<rparr>" using e [of "''port''" cf] by (simp add: conf_keys_def)
  show "conf_entry (''threadnum='' @ int_string i) cf = cf\<lparr>cf_thread_num := i\<rparr>" using e [of "''threadnum''" cf] by (simp add: conf_keys_def)
  show "conf_entry (''workers='' @ int_string i) cf = cf\<lparr>cf_workers := i\<rparr>" using e [of "''workers''" cf] by (simp add: conf_keys_def)
  show "conf_entry (''cpu_affinity='' @ int_string i) cf = cf\<lparr>cf_cpu_affinity := i\<rparr>" using e [of "''cpu_affinity''" cf] by (simp add: conf_keys_def)
  show "conf_entry (''keep_alive_timeout_ms='' @ int_string i) cf = cf\<lparr>cf_keep_alive_timeout_ms := i\<rparr>"
    using e [of "''keep_alive_timeout_ms''" cf] by (simp add: conf_keys_def)
  show "conf_entry (''request_timeout_ms='' @ int_string i) cf = cf\<lparr>cf_request_timeout_ms := i\<rparr>"
    using e [of "''request_timeout_ms''" cf] by (simp add: conf_keys_def)
qed

lemma print_root: "plain_value root \<Longrightarrow> conf_entry (''root='' @ root) cf = cf\<lparr>cf_root := Some root\<rparr>"
  using entry_parts [of "''root''" root] by (simp add: conf_entry_def conf_keys_def DELIM_def)

lemma read_conf_print:
  assumes "\<forall>root. cf_root c = Some root \<longrightarrow> plain_value root"
    and "\<forall>i \<in> {cf_port c, cf_thread_num c, cf_workers c, cf_cpu_affinity c, cf_keep_alive_timeout_ms c, cf_request_timeout_ms c}.
      - (2 ^ 31) \<le> i \<and> i < 2 ^ 31"
    and "length (conf_text (print_conf c)) + 1 < len" and "length buf = len"
  shows "fst (read_conf (Some (conf_text (print_conf c))) cf buf len k) = (ZV_CONF_OK, c)"
proof -
  have r: "- (2 ^ 31) \<le> i \<and> i < 2 ^ 31"
    if "i = cf_port c \<or> i = cf_thread_num c \<or> i = cf_workers c \<or> i = cf_cpu_affinity c \<or> i = cf_keep_alive_timeout_ms c \<or> i = cf_request_timeout_ms c" for i
    using assms(2) that by blast
  note pe = print_entries(1) [OF r] print_entries(2) [OF r] print_entries(3) [OF r] print_entries(4) [OF r] print_entries(5) [OF r] print_entries(6) [OF r]
  have "fold conf_entry (print_conf c) default_conf = c"
  proof (cases "cf_root c")
    case None
    have "fold conf_entry (print_conf c) default_conf = default_conf\<lparr>cf_port := cf_port c, cf_thread_num := cf_thread_num c, cf_workers := cf_workers c,
      cf_cpu_affinity := cf_cpu_affinity c, cf_keep_alive_timeout_ms := cf_keep_alive_timeout_ms c, cf_request_timeout_ms := cf_request_timeout_ms c\<rparr>"
      unfolding print_conf_def None option.case append_Nil fold_simps by (simp only: pe simp_thms)
    then show ?thesis using None by (cases c) (simp add: default_conf_def)
  next
    case (Some root)
    note pr = print_root [OF assms(1) [rule_format, OF Some]]
    have "fold conf_entry (print_conf c) default_conf = default_conf\<lparr>cf_root := Some root, cf_port := cf_port c, cf_thread_num := cf_thread_num c, cf_workers := cf_workers c,
      cf_cpu_affinity := cf_cpu_affinity c, cf_keep_alive_timeout_ms := cf_keep_alive_timeout_ms c, cf_request_timeout_ms := cf_request_timeout_ms c\<rparr>"
      unfolding print_conf_def Some option.case fold_append fold_simps comp_def by (simp only: pe pr simp_thms)
    then show ?thesis using Some by (cases c) (simp add: default_conf_def)
  qed
  moreover have "\<forall>l \<in> set (print_conf c). LF \<notin> set l \<and> NUL \<notin> set l \<and> DELIM \<in> set l"
  proof -
    have n: "LF \<notin> set (int_string i) \<and> NUL \<notin> set (int_string i)" for i using int_plain [of i] by (simp add: plain_value_def)
    show ?thesis using assms(1) n by (auto simp: print_conf_def DELIM_def plain_value_def split: option.splits)
  qed
  ultimately show ?thesis using read_conf_lines_fst [of "print_conf c" buf len] assms(3,4) by simp
qed

text \<open>
  C32. Every configuration whose root, if it has one, is a plain value (not empty, no blank at its ends, no line end), and whose numbers are C integers, is read back from its
  printed file, if that fits the buffer.
\<close>

theorem read_conf_roundtrip:
  assumes "\<forall>root. cf_root c = Some root \<longrightarrow> plain_value root"
    and "\<forall>i \<in> {cf_port c, cf_thread_num c, cf_workers c, cf_cpu_affinity c, cf_keep_alive_timeout_ms c, cf_request_timeout_ms c}.
      - (2 ^ 31) \<le> i \<and> i < 2 ^ 31"
    and "length (conf_text (print_conf c)) + 1 < len" and "length buf = len"
  shows "fst (read_conf (Some (conf_text (print_conf c))) cf buf len k) = (ZV_CONF_OK, c)"
  using assms by (rule read_conf_print)

theorem read_conf_roundtrip_witness:
  "fst (read_conf (Some (conf_text (print_conf (default_conf\<lparr>cf_root := Some ''./html''\<rparr>)))) default_conf (replicate 256 NUL) 256 (quiet_kio [])) =
     (ZV_CONF_OK, default_conf\<lparr>cf_root := Some ''./html''\<rparr>)"
proof (rule read_conf_roundtrip)
  let ?c = "default_conf\<lparr>cf_root := Some ''./html''\<rparr>"
  show "length (conf_text (print_conf ?c)) + 1 < 256"
    by (simp add: conf_text_def print_conf_def default_conf_def ZV_DEFAULT_KEEP_ALIVE_TIMEOUT_MS_def ZV_DEFAULT_REQUEST_TIMEOUT_MS_def int_string_def print_nat.simps)
  show "\<forall>root. cf_root ?c = Some root \<longrightarrow> plain_value root" by (simp add: plain_value_def blank_def)
  show "\<forall>i \<in> {cf_port ?c, cf_thread_num ?c, cf_workers ?c, cf_cpu_affinity ?c, cf_keep_alive_timeout_ms ?c, cf_request_timeout_ms ?c}. - (2 ^ 31) \<le> i \<and> i < 2 ^ 31"
    by (simp add: default_conf_def ZV_DEFAULT_KEEP_ALIVE_TIMEOUT_MS_def ZV_DEFAULT_REQUEST_TIMEOUT_MS_def)
  show "length (replicate 256 NUL) = 256" by simp
qed

lemma new_fd_fds:
  assumes "new_fd k = (fd, k')"
  shows "0 \<le> fd" and "fd \<notin> set (k_fds k)" and "k_fds k' = fd # k_fds k"
  using assms lowest_fd_spec [of "k_fds k"] by (auto simp: new_fd_def Let_def)

lemma net_call_simp:
  "net_call e n = (n_answers n = [] \<or> hd (n_answers n),
     if n_answers n = [] \<or> hd (n_answers n) then n\<lparr>n_answers := tl (n_answers n), n_events := n_events n @ [e]\<rparr> else n\<lparr>n_answers := tl (n_answers n)\<rparr>)"
  by (simp add: net_call_def net_answer_def)

text \<open>The answers of the next \<open>i\<close> calls are all positive.\<close>

definition net_granted :: "nat \<Rightarrow> net \<Rightarrow> bool" where
  "net_granted i n \<longleftrightarrow> (\<forall>ok \<in> set (take i (n_answers n)). ok)"

lemma net_granted_0 [simp]: "net_granted 0 n"
  by (simp add: net_granted_def)

lemma net_granted_Suc: "net_granted (Suc i) n \<longleftrightarrow> (n_answers n = [] \<or> hd (n_answers n)) \<and> net_granted i (n\<lparr>n_answers := tl (n_answers n)\<rparr>)"
  by (cases "n_answers n") (auto simp: net_granted_def)

lemma net_granted_events [simp]: "net_granted i (n\<lparr>n_events := es\<rparr>) = net_granted i n"
  by (simp add: net_granted_def)

text \<open>
  C36. The listening socket. \<^verbatim>\<open>open_listenfd_reuseport\<close> returns a descriptor exactly if all its five system calls succeed; then the descriptor is new, both reuse options were set
  before it was bound, the port is the configured one modulo \<open>2 ^ 16\<close> (3000 if none is configured), and it listens. Otherwise the result is minus one, and a socket
  that had been opened stays open.
\<close>

theorem open_listenfd_correct:
  "case open_listenfd_reuseport port (n, k) of (fd, n', k') \<Rightarrow>
     if net_granted 5 n
     then 0 \<le> fd \<and> fd \<notin> set (k_fds k) \<and> k_fds k' = fd # k_fds k \<and>
       n_events n' = n_events n @ [SetOpt fd SO_REUSEADDR, SetOpt fd SO_REUSEPORT, Bind fd (of_int (if port \<le> 0 then 3000 else port)), Listen fd 1024]
     else fd = -1 \<and> (if net_granted 1 n then \<exists>s. s \<notin> set (k_fds k) \<and> k_fds k' = s # k_fds k else k' = k)"
proof (cases "n_answers n = [] \<or> hd (n_answers n)")
  case False
  then have "open_listenfd_reuseport port (n, k) = (-1, n\<lparr>n_answers := tl (n_answers n)\<rparr>, k)"
    by (simp add: open_listenfd_reuseport_def sys_socket_def net_answer_def)
  moreover have "\<not> net_granted 5 n" "\<not> net_granted 1 n" using False by (simp_all add: net_granted_Suc numeral_eq_Suc)
  ultimately show ?thesis by simp
next
  case True
  obtain fd k1 where f: "new_fd k = (fd, k1)" by fastforce
  note fd = new_fd_fds [OF f]
  define n1 where "n1 = n\<lparr>n_answers := tl (n_answers n)\<rparr>"
  have s: "sys_socket (n, k) = (fd, n1, k1)" using True f by (simp add: sys_socket_def net_answer_def n1_def)
  have g: "net_granted 5 n = net_granted 4 n1" "net_granted 1 n" using True by (simp_all add: net_granted_Suc numeral_eq_Suc n1_def)
  have ev: "n_events n1 = n_events n" by (simp add: n1_def)
  show ?thesis using fd True unfolding open_listenfd_reuseport_def s g(1) ev [symmetric]
    by (simp add: net_call_simp Let_def net_granted_Suc numeral_eq_Suc g(2) LISTENQ_def)
qed

end
