(* ===== verification/Zv_Rio.thy ===== *)
theory Zv_Rio
  imports Zv_Kernel
begin

text \<open>
  The robust I/O package (\<^verbatim>\<open>src/src/rio.c\<close>): reading and writing that continues after short counts and interrupts, and a buffered reader. The buffered reader
  \<open>rio\<close> is the C structure with the buffer pointer as an offset; its count is minus one after a failed read.

  A call that reads returns \<open>Inl\<close> of the error number or \<open>Inr\<close> of the bytes stored; the C functions return minus one or the number of bytes. The
  functions take the bytes from the front of the input that is still pending, which is the unread part of the buffer and what the descriptor will
  deliver. \<^verbatim>\<open>rio_readn\<close> and \<^verbatim>\<open>rio_readnb\<close> are the same loop over two readers, so they are instances of one locale.
\<close>

section \<open>Unbuffered\<close>

function rio_readn_loop :: "int \<Rightarrow> nat \<Rightarrow> string \<Rightarrow> kio \<Rightarrow> (int + string) \<times> kio" where
  "rio_readn_loop fd nleft usrbuf k =
     (if nleft = 0 then (Inr usrbuf, k)
      else
        case sys_read fd nleft k of
          (Inl e, k') \<Rightarrow> if e = EINTR then rio_readn_loop fd nleft usrbuf k' else (Inl e, k')
        | (Inr bs, k') \<Rightarrow> if bs = [] then (Inr usrbuf, k') else rio_readn_loop fd (nleft - length bs) (usrbuf @ bs) k')"
  by pat_completeness auto
termination
proof (relation "measure (\<lambda>(fd, _, _, k). script_weight (k_in k fd))", simp)
  fix fd nleft e k k' and usrbuf :: string and res
  assume "nleft \<noteq> 0" "(res, k') = sys_read fd nleft k" "res = Inl e" "e = EINTR"
  then show "((fd, nleft, usrbuf, k'), fd, nleft, usrbuf, k) \<in> measure (\<lambda>(fd, _, _, k). script_weight (k_in k fd))"
    using sys_read_weight [of fd nleft k res k'] by (simp add: EINTR_def EAGAIN_def)
next
  fix fd nleft k k' and usrbuf bs :: string and res
  assume "nleft \<noteq> 0" "(res, k') = sys_read fd nleft k" "res = Inr bs" "bs \<noteq> []"
  then show "((fd, nleft - length bs, usrbuf @ bs, k'), fd, nleft, usrbuf, k) \<in> measure (\<lambda>(fd, _, _, k). script_weight (k_in k fd))"
    using sys_read_weight [of fd nleft k res k'] by simp
qed

declare rio_readn_loop.simps [simp del]

definition rio_readn :: "int \<Rightarrow> nat \<Rightarrow> kio \<Rightarrow> (int + string) \<times> kio" where
  "rio_readn fd n k = rio_readn_loop fd n [] k"

text \<open>
  The loop takes a result of zero for an error, and then looks at the error number of an earlier call: \<open>errno\<close> is what it finds there.
\<close>

function rio_writen_loop :: "int \<Rightarrow> string \<Rightarrow> int \<Rightarrow> kio \<Rightarrow> bool \<times> kio" where
  "rio_writen_loop fd bs errno k =
     (if bs = [] then (True, k)
      else
        case sys_write fd bs k of
          (Inl e, k') \<Rightarrow> if e = EINTR then rio_writen_loop fd bs e k' else (False, k')
        | (Inr n, k') \<Rightarrow>
            if n = 0 then (if errno = EINTR then rio_writen_loop fd bs errno k' else (False, k'))
            else rio_writen_loop fd (drop n bs) errno k')"
  by pat_completeness auto
termination
proof (relation "measure (\<lambda>(fd, _, _, k). length (k_out k fd))", simp)
  fix fd bs errno e and k k' :: kio and res
  assume "(res, k') = sys_write fd bs k" "res = Inl e" "e = EINTR"
  then show "((fd, bs, e, k'), fd, bs, errno, k) \<in> measure (\<lambda>(fd, _, _, k). length (k_out k fd))"
    using sys_write_spec [of fd bs k res k'] by (simp add: EINTR_def EAGAIN_def)
next
  fix fd bs errno n and k k' :: kio and res
  assume "(res, k') = sys_write fd bs k" "res = Inr n"
  then show "((fd, bs, errno, k'), fd, bs, errno, k) \<in> measure (\<lambda>(fd, _, _, k). length (k_out k fd))"
    "((fd, drop n bs, errno, k'), fd, bs, errno, k) \<in> measure (\<lambda>(fd, _, _, k). length (k_out k fd))"
    using sys_write_spec [of fd bs k res k'] by simp_all
qed

declare rio_writen_loop.simps [simp del]

definition rio_writen :: "int \<Rightarrow> string \<Rightarrow> int \<Rightarrow> kio \<Rightarrow> int \<times> kio" where
  "rio_writen fd bs errno k = (case rio_writen_loop fd bs errno k of (ok, k) \<Rightarrow> (if ok then int (length bs) else -1, k))"

section \<open>Buffered\<close>

definition RIO_BUFSIZE :: nat where "RIO_BUFSIZE = 8192"

record rio =
  rio_fd :: int
  rio_cnt :: int
  rio_bufptr :: nat
  rio_buf :: string

definition rio_readinitb :: "int \<Rightarrow> rio \<Rightarrow> rio" where
  "rio_readinitb fd rp = rp\<lparr>rio_fd := fd, rio_cnt := 0, rio_bufptr := 0\<rparr>"

text \<open>Refilling an empty buffer; a result other than \<^const>\<open>None\<close> ends the call.\<close>

function rio_fill :: "rio \<times> kio \<Rightarrow> (int + string) option \<times> rio \<times> kio" where
  "rio_fill (rp, k) =
     (if rio_cnt rp > 0 then (None, rp, k)
      else
        case sys_read (rio_fd rp) RIO_BUFSIZE k of
          (Inl e, k') \<Rightarrow>
            if e = EINTR then rio_fill (rp\<lparr>rio_cnt := -1\<rparr>, k') else (Some (Inl e), rp\<lparr>rio_cnt := -1\<rparr>, k')
        | (Inr bs, k') \<Rightarrow>
            if bs = [] then (Some (Inr []), rp\<lparr>rio_cnt := 0\<rparr>, k')
            else (None, rp\<lparr>rio_cnt := int (length bs), rio_bufptr := 0, rio_buf := bs @ drop (length bs) (rio_buf rp)\<rparr>, k'))"
  by pat_completeness auto
termination
proof (relation "measure (\<lambda>(rp, k). script_weight (k_in k (rio_fd rp)))", simp)
  fix rp :: rio and k k' e and res
  assume "(res, k') = sys_read (rio_fd rp) RIO_BUFSIZE k" "res = Inl e" "e = EINTR"
  then show "((rp\<lparr>rio_cnt := -1\<rparr>, k'), rp, k) \<in> measure (\<lambda>(rp, k). script_weight (k_in k (rio_fd rp)))"
    using sys_read_weight [of "rio_fd rp" RIO_BUFSIZE k res k'] by (simp add: EINTR_def EAGAIN_def RIO_BUFSIZE_def)
qed

declare rio_fill.simps [simp del]

definition rio_read :: "nat \<Rightarrow> rio \<times> kio \<Rightarrow> (int + string) \<times> rio \<times> kio" where
  "rio_read n x =
     (case rio_fill x of
        (Some res, x) \<Rightarrow> (res, x)
      | (None, rp, k) \<Rightarrow>
          let cnt = (if rio_cnt rp < int n then nat (rio_cnt rp) else n)
          in (Inr (take cnt (drop (rio_bufptr rp) (rio_buf rp))),
              rp\<lparr>rio_bufptr := rio_bufptr rp + cnt, rio_cnt := rio_cnt rp - int cnt\<rparr>, k))"

lemma rio_fill_error: "rio_fill x = (Some (Inl e), x') \<Longrightarrow> e \<noteq> EINTR"
proof (induction x rule: rio_fill.induct)
  case (1 rp k)
  obtain res k1 where rd: "sys_read (rio_fd rp) RIO_BUFSIZE k = (res, k1)" by fastforce
  show ?case
  proof (cases "\<exists>e. res = Inl e")
    case True
    then obtain e1 where e1: "res = Inl e1" by blast
    show ?thesis using 1(2) 1(1) [OF _ rd [symmetric] e1] by (auto simp: rio_fill.simps [of rp k] rd e1 split: if_splits)
  next
    case False
    then obtain bs where "res = Inr bs" by (cases res) auto
    then show ?thesis using 1(2) by (auto simp: rio_fill.simps [of rp k] rd split: if_splits)
  qed
qed

lemma rio_read_error: "rio_read n x = (Inl e, x') \<Longrightarrow> e \<noteq> EINTR"
  by (auto simp: rio_read_def Let_def dest: rio_fill_error split: prod.splits option.splits)

function rio_readnb_loop :: "nat \<Rightarrow> string \<Rightarrow> rio \<times> kio \<Rightarrow> (int + string) \<times> rio \<times> kio" where
  "rio_readnb_loop nleft usrbuf x =
     (if nleft = 0 then (Inr usrbuf, x)
      else
        case rio_read nleft x of
          (Inl e, x') \<Rightarrow> if e = EINTR then rio_readnb_loop nleft usrbuf x' else (Inl e, x')
        | (Inr bs, x') \<Rightarrow> if bs = [] then (Inr usrbuf, x') else rio_readnb_loop (nleft - length bs) (usrbuf @ bs) x')"
  by pat_completeness auto
termination
  by (relation "measure (\<lambda>(nleft, _, _). nleft)") (auto dest: rio_read_error [OF sym])

declare rio_readnb_loop.simps [simp del]

definition rio_readnb :: "nat \<Rightarrow> rio \<times> kio \<Rightarrow> (int + string) \<times> rio \<times> kio" where
  "rio_readnb n x = rio_readnb_loop n [] x"

text \<open>\<open>n\<close> is the counter of the loop, which is the result. The end of the file before the first byte gives zero.\<close>

function rio_readlineb_loop :: "nat \<Rightarrow> nat \<Rightarrow> string \<Rightarrow> rio \<times> kio \<Rightarrow> (int \<times> string) \<times> rio \<times> kio" where
  "rio_readlineb_loop maxlen n usrbuf x =
     (if n < maxlen then
        (case rio_read 1 x of
           (Inr bs, x') \<Rightarrow>
             if length bs = 1
             then (if hd bs = LF then ((int n, usrbuf @ bs), x') else rio_readlineb_loop maxlen (n + 1) (usrbuf @ bs) x')
             else if n = 1 then ((0, usrbuf), x')
             else ((int n, usrbuf), x')
         | (Inl e, x') \<Rightarrow> ((if e = EAGAIN then - EAGAIN else -1, usrbuf), x'))
      else ((int n, usrbuf), x))"
  by pat_completeness auto
termination
  by (relation "measure (\<lambda>(maxlen, n, _, _). maxlen - n)") auto

declare rio_readlineb_loop.simps [simp del]

definition rio_readlineb :: "nat \<Rightarrow> rio \<times> kio \<Rightarrow> (int \<times> string) \<times> rio \<times> kio" where
  "rio_readlineb maxlen x = rio_readlineb_loop maxlen 1 [] x"

section \<open>Readers\<close>

text \<open>
  A reader delivers the bytes of its pending input in order, at most the number asked for, and none only at the end of the input. The loop that reads \<open>n\<close> bytes
  is the same for every reader.
\<close>

locale reader =
  fixes rd :: "nat \<Rightarrow> 's \<Rightarrow> (int + string) \<times> 's"
    and pending :: "'s \<Rightarrow> string"
    and weight :: "'s \<Rightarrow> nat"
    and good :: "'s \<Rightarrow> bool"
    and loop :: "nat \<Rightarrow> string \<Rightarrow> 's \<Rightarrow> (int + string) \<times> 's"
  assumes rd_data: "good x \<Longrightarrow> 0 < n \<Longrightarrow> rd n x = (Inr bs, x') \<Longrightarrow> length bs \<le> n \<and> (if bs = [] then pending x = [] else bs @ pending x' = pending x)"
    and rd_error: "good x \<Longrightarrow> 0 < n \<Longrightarrow> rd n x = (Inl e, x') \<Longrightarrow> pending x' = pending x"
    and rd_good: "good x \<Longrightarrow> 0 < n \<Longrightarrow> rd n x = (res, x') \<Longrightarrow> good x'"
    and rd_weight: "good x \<Longrightarrow> 0 < n \<Longrightarrow> rd n x = (res, x') \<Longrightarrow> res \<noteq> Inr [] \<Longrightarrow> res \<noteq> Inl EAGAIN \<Longrightarrow> weight x' < weight x"
    and loop_eq: "loop n acc x =
      (if n = 0 then (Inr acc, x)
       else case rd n x of
              (Inl e, x') \<Rightarrow> if e = EINTR then loop n acc x' else (Inl e, x')
            | (Inr bs, x') \<Rightarrow> if bs = [] then (Inr acc, x') else loop (n - length bs) (acc @ bs) x')"
begin

lemma loop_reads:
  "good x \<Longrightarrow> loop n acc x = (res, x') \<Longrightarrow>
   case res of
     Inr bs \<Rightarrow> (\<exists>new. bs = acc @ new \<and> (if length new = n then new @ pending x' = pending x else length new < n \<and> new = pending x))
   | Inl e \<Rightarrow> e \<noteq> EINTR \<and> (\<exists>lost. lost @ pending x' = pending x \<and> length lost < n)"
proof (induction "weight x" arbitrary: n acc x rule: less_induct)
  case less
  note eq = less(3) [unfolded loop_eq [of n acc x]]
  show ?case
  proof (cases "n = 0")
    case True
    then show ?thesis using eq by auto
  next
    case False
    obtain r x1 where rd: "rd n x = (r, x1)" by fastforce
    have n: "0 < n" using False by simp
    note g = rd_good [OF less(2) n rd]
    show ?thesis
    proof (cases r)
      case (Inl e)
      note p = rd_error [OF less(2) n rd [unfolded Inl]]
      show ?thesis
      proof (cases "e = EINTR")
        case True
        have w: "weight x1 < weight x" using rd_weight [OF less(2) n rd] Inl True by (simp add: EINTR_def EAGAIN_def)
        have "loop n acc x1 = (res, x')" using eq False rd Inl True by simp
        from less(1) [OF w g this] show ?thesis unfolding p .
      next
        case e: False
        then have "res = Inl e" "x' = x1" using eq False rd Inl by simp_all
        with e p n show ?thesis by (auto intro: exI [of _ "[]"])
      qed
    next
      case (Inr bs)
      note d = rd_data [OF less(2) n rd [unfolded Inr]]
      show ?thesis
      proof (cases "bs = []")
        case True
        then have "res = Inr acc" "x' = x1" using eq False rd Inr by simp_all
        with d True n show ?thesis by simp
      next
        case ne: False
        then have w: "weight x1 < weight x" using rd_weight [OF less(2) n rd] Inr by simp
        have "loop (n - length bs) (acc @ bs) x1 = (res, x')" using eq False rd Inr ne by simp
        from less(1) [OF w g this] show ?thesis
        proof (cases res)
          case (Inl e)
          then obtain lost where l: "e \<noteq> EINTR" "lost @ pending x' = pending x1" "length lost < n - length bs"
            using less(1) [OF w g \<open>loop (n - length bs) (acc @ bs) x1 = (res, x')\<close>] by auto
          then have "(bs @ lost) @ pending x' = pending x" "length (bs @ lost) < n" using d ne by auto
          with l(1) show ?thesis unfolding Inl sum.case by (intro conjI exI [of _ "bs @ lost"])
        next
          case (Inr ys)
          then obtain new where nw: "ys = acc @ bs @ new"
            "if length new = n - length bs then new @ pending x' = pending x1 else length new < n - length bs \<and> new = pending x1"
            using less(1) [OF w g \<open>loop (n - length bs) (acc @ bs) x1 = (res, x')\<close>] by auto
          then have f: "if length (bs @ new) = n then (bs @ new) @ pending x' = pending x else length (bs @ new) < n \<and> bs @ new = pending x"
            using d ne by (auto split: if_splits)
          show ?thesis unfolding Inr sum.case nw(1) by (intro exI [of _ "bs @ new"] conjI refl f)
        qed
      qed
    qed
  qed
qed

end

lemma sys_read_reader:
  assumes "0 < n" and "sys_read fd n k = (res, k')"
  shows "res = Inr bs \<Longrightarrow> length bs \<le> n \<and> (if bs = [] then stream (k_in k fd) = [] else bs @ stream (k_in k' fd) = stream (k_in k fd))"
    and "res = Inl e \<Longrightarrow> stream (k_in k' fd) = stream (k_in k fd)"
  using sys_read_stream [OF assms(2,1)] by auto

interpretation raw: reader "sys_read fd" "\<lambda>k. stream (k_in k fd)" "\<lambda>k. script_weight (k_in k fd)" "\<lambda>_. True" "rio_readn_loop fd" for fd
proof
  show "rio_readn_loop fd n acc x = (if n = 0 then (Inr acc, x)
       else case sys_read fd n x of
              (Inl e, x') \<Rightarrow> if e = EINTR then rio_readn_loop fd n acc x' else (Inl e, x')
            | (Inr bs, x') \<Rightarrow> if bs = [] then (Inr acc, x') else rio_readn_loop fd (n - length bs) (acc @ bs) x')" for n acc x
    by (rule rio_readn_loop.simps)
qed (use sys_read_reader sys_read_weight in auto)

text \<open>The pending input of a buffered reader.\<close>

definition rio_ok :: "rio \<times> kio \<Rightarrow> bool" where
  "rio_ok = (\<lambda>(rp, k). rio_cnt rp > 0 \<longrightarrow> rio_bufptr rp + nat (rio_cnt rp) \<le> length (rio_buf rp))"

definition rio_pending :: "rio \<times> kio \<Rightarrow> string" where
  "rio_pending = (\<lambda>(rp, k). take (nat (rio_cnt rp)) (drop (rio_bufptr rp) (rio_buf rp)) @ stream (k_in k (rio_fd rp)))"

definition rio_weight :: "rio \<times> kio \<Rightarrow> nat" where
  "rio_weight = (\<lambda>(rp, k). 2 * script_weight (k_in k (rio_fd rp)) + nat (rio_cnt rp))"

lemma rio_fill_spec:
  "rio_ok x \<Longrightarrow> rio_fill x = (r, x') \<Longrightarrow>
   rio_ok x' \<and>
   (case r of
      None \<Rightarrow> rio_pending x' = rio_pending x \<and> 0 < rio_cnt (fst x') \<and> rio_weight x' \<le> rio_weight x
    | Some (Inr bs) \<Rightarrow> bs = [] \<and> rio_pending x = []
    | Some (Inl e) \<Rightarrow> rio_pending x' = rio_pending x \<and> (e \<noteq> EAGAIN \<longrightarrow> rio_weight x' < rio_weight x))"
proof (induction x rule: rio_fill.induct)
  case (1 rp k)
  show ?case
  proof (cases "rio_cnt rp > 0")
    case True
    then show ?thesis using 1(2,3) by (auto simp: rio_fill.simps [of rp k])
  next
    case False
    obtain res k1 where rd: "sys_read (rio_fd rp) RIO_BUFSIZE k = (res, k1)" by fastforce
    have b: "0 < RIO_BUFSIZE" by (simp add: RIO_BUFSIZE_def)
    note rr = sys_read_reader [OF b rd] and w = sys_read_weight [OF rd b]
    note eq = 1(3) [unfolded rio_fill.simps [of rp k] rd prod.case, simplified False if_False]
    let ?rp = "rp\<lparr>rio_cnt := -1\<rparr>"
    show ?thesis
    proof (cases res)
      case (Inl e)
      have p: "rio_pending (?rp, k1) = rio_pending (rp, k)" using rr(2) [OF Inl] False by (simp add: rio_pending_def)
      have ok: "rio_ok (?rp, k1)" by (simp add: rio_ok_def)
      have lt: "rio_weight (?rp, k1) < rio_weight (rp, k)" if "e \<noteq> EAGAIN" using w Inl that False by (simp add: rio_weight_def)
      show ?thesis
      proof (cases "e = EINTR")
        case True
        have "rio_fill (?rp, k1) = (r, x')" using eq Inl True by simp
        from 1(1) [OF False rd [symmetric] Inl True ok this] p lt True show ?thesis
          by (auto simp: EINTR_def EAGAIN_def split: option.splits sum.splits)
      next
        case e: False
        then show ?thesis using eq Inl p ok lt by auto
      qed
    next
      case (Inr bs)
      show ?thesis
      proof (cases "bs = []")
        case True
        then show ?thesis using eq Inr rr(1) [OF Inr] False by (auto simp: rio_ok_def rio_pending_def)
      next
        case ne: False
        let ?rp = "rp\<lparr>rio_cnt := int (length bs), rio_bufptr := 0, rio_buf := bs @ drop (length bs) (rio_buf rp)\<rparr>"
        have r: "r = None" "x' = (?rp, k1)" using eq Inr ne by simp_all
        have "rio_pending x' = rio_pending (rp, k)" using rr(1) [OF Inr] ne False by (simp add: r rio_pending_def)
        moreover have "rio_weight x' \<le> rio_weight (rp, k)"
          using sys_read_amount(1) [OF rd [unfolded Inr] ne] False by (simp add: r rio_weight_def)
        ultimately show ?thesis using ne by (auto simp: r rio_ok_def)
      qed
    qed
  qed
qed

lemma rio_read_spec:
  assumes "rio_ok x" and "0 < n" and "rio_read n x = (res, x')"
  shows "rio_ok x'"
    and "res = Inr bs \<Longrightarrow> length bs \<le> n \<and> (if bs = [] then rio_pending x = [] else bs @ rio_pending x' = rio_pending x)"
    and "res = Inl e \<Longrightarrow> rio_pending x' = rio_pending x"
    and "res \<noteq> Inr [] \<Longrightarrow> res \<noteq> Inl EAGAIN \<Longrightarrow> rio_weight x' < rio_weight x"
proof -
  obtain r rp k where f: "rio_fill x = (r, rp, k)" by (metis surj_pair)
  note sp = rio_fill_spec [OF assms(1) f]
  have "rio_ok x' \<and>
    (case res of
       Inr bs \<Rightarrow> length bs \<le> n \<and> (if bs = [] then rio_pending x = [] else bs @ rio_pending x' = rio_pending x \<and> rio_weight x' < rio_weight x)
     | Inl e \<Rightarrow> rio_pending x' = rio_pending x \<and> (e \<noteq> EAGAIN \<longrightarrow> rio_weight x' < rio_weight x))"
  proof (cases r)
    case (Some y)
    then have "res = y" "x' = (rp, k)" using assms(3) f by (simp_all add: rio_read_def)
    with sp Some show ?thesis by (cases y) auto
  next
    case None
    define cnt where "cnt = (if rio_cnt rp < int n then nat (rio_cnt rp) else n)"
    define rest where "rest = drop (rio_bufptr rp) (rio_buf rp)"
    have c: "0 < cnt" "cnt \<le> n" "cnt \<le> nat (rio_cnt rp)" using sp None assms(2) by (auto simp: cnt_def)
    have res: "res = Inr (take cnt rest)" "x' = (rp\<lparr>rio_bufptr := rio_bufptr rp + cnt, rio_cnt := rio_cnt rp - int cnt\<rparr>, k)"
      using assms(3) f None by (simp_all add: rio_read_def Let_def cnt_def rest_def)
    have len: "nat (rio_cnt rp) \<le> length rest" using sp None by (auto simp: rio_ok_def rest_def)
    have ne: "take cnt rest \<noteq> []" using c len by auto
    have sub: "nat (rio_cnt rp - int cnt) = nat (rio_cnt rp) - cnt" using c by (simp add: nat_diff_distrib')
    have "take (nat (rio_cnt rp)) rest = take cnt rest @ take (nat (rio_cnt rp) - cnt) (drop cnt rest)"
      using take_add [of cnt "nat (rio_cnt rp) - cnt" rest] c(3) by simp
    then have "take cnt rest @ rio_pending x' = rio_pending (rp, k)"
      by (simp add: res rio_pending_def sub rest_def add.commute)
    moreover have "rio_weight x' < rio_weight (rp, k)" using c sub by (simp add: res rio_weight_def)
    moreover have "rio_ok x'" using len c sub by (auto simp: res rio_ok_def rest_def)
    ultimately show ?thesis using sp None ne res c(2) by auto
  qed
  then show "rio_ok x'"
    and "res = Inr bs \<Longrightarrow> length bs \<le> n \<and> (if bs = [] then rio_pending x = [] else bs @ rio_pending x' = rio_pending x)"
    and "res = Inl e \<Longrightarrow> rio_pending x' = rio_pending x"
    and "res \<noteq> Inr [] \<Longrightarrow> res \<noteq> Inl EAGAIN \<Longrightarrow> rio_weight x' < rio_weight x"
    by (auto split: sum.splits if_splits)
qed

interpretation buffered: reader rio_read rio_pending rio_weight rio_ok rio_readnb_loop
proof
  show "rio_readnb_loop n acc x = (if n = 0 then (Inr acc, x)
       else case rio_read n x of
              (Inl e, x') \<Rightarrow> if e = EINTR then rio_readnb_loop n acc x' else (Inl e, x')
            | (Inr bs, x') \<Rightarrow> if bs = [] then (Inr acc, x') else rio_readnb_loop (n - length bs) (acc @ bs) x')" for n acc x
    by (rule rio_readnb_loop.simps)
qed ((rule rio_read_spec(2); (assumption | rule refl)), (rule rio_read_spec(3); (assumption | rule refl)), (rule rio_read_spec(1); assumption),
    (rule rio_read_spec(4); assumption))

section \<open>Lines\<close>

text \<open>How reading a line ends, with the counter at \<open>n\<close>: at a line feed, with a full buffer, at the end of the input, or with an error.\<close>

inductive line_end :: "nat \<Rightarrow> nat \<Rightarrow> rio \<times> kio \<Rightarrow> int \<Rightarrow> string \<Rightarrow> rio \<times> kio \<Rightarrow> bool" for maxlen :: nat where
  feed: "LF \<notin> set l \<Longrightarrow> n + length l < maxlen \<Longrightarrow> (l @ [LF]) @ rio_pending x' = rio_pending x \<Longrightarrow>
    line_end maxlen n x (int (n + length l)) (l @ [LF]) x'"
| full: "LF \<notin> set new \<Longrightarrow> maxlen = n + length new \<Longrightarrow> new @ rio_pending x' = rio_pending x \<Longrightarrow> line_end maxlen n x (int (n + length new)) new x'"
| eof: "LF \<notin> set new \<Longrightarrow> n + length new < maxlen \<Longrightarrow> new = rio_pending x \<Longrightarrow>
    line_end maxlen n x (if n + length new = 1 then 0 else int (n + length new)) new x'"
| error: "LF \<notin> set new \<Longrightarrow> n + length new < maxlen \<Longrightarrow> new @ rio_pending x' = rio_pending x \<Longrightarrow> rc \<in> {- EAGAIN, -1} \<Longrightarrow>
    line_end maxlen n x rc new x'"

lemma line_end_Cons:
  assumes "line_end maxlen m x1 rc new x'" and "m = n + 1" and "c \<noteq> LF" and "c # rio_pending x1 = rio_pending x"
  shows "line_end maxlen n x rc (c # new) x'"
  using assms
proof (induction rule: line_end.induct)
  case (feed l m x' x1)
  then show ?case using line_end.feed [of "c # l" n maxlen x' x] by auto
next
  case (full new m x' x1)
  then show ?case using line_end.full [of "c # new" maxlen n x' x] by auto
next
  case (eof new m x1 x')
  have e: "m + length new = n + length (c # new)" using eof(4) by simp
  have "LF \<notin> set (c # new)" using eof(1,5) by simp
  moreover have "n + length (c # new) < maxlen" using eof(2) e by simp
  moreover have "c # new = rio_pending x" using eof(3,6) by simp
  ultimately show ?case unfolding e by (rule line_end.eof)
next
  case (error new m x' x1 rc)
  then show ?case using line_end.error [of "c # new" n maxlen x' x rc] by auto
qed

lemma rio_readlineb_loop_ends:
  "rio_ok x \<Longrightarrow> n \<le> maxlen \<Longrightarrow> rio_readlineb_loop maxlen n acc x = ((rc, line), x') \<Longrightarrow> rio_ok x' \<and> (\<exists>new. line = acc @ new \<and> line_end maxlen n x rc new x')"
proof (induction maxlen n acc x rule: rio_readlineb_loop.induct)
  case (1 maxlen n acc x)
  note eq = 1(4) [unfolded rio_readlineb_loop.simps [of maxlen n acc x]]
  show ?case
  proof (cases "n < maxlen")
    case False
    then show ?thesis using eq 1(2,3) line_end.full [of "[]" maxlen n x x] by auto
  next
    case True
    obtain res x1 where rd: "rio_read 1 x = (res, x1)" by (metis surj_pair)
    note sp = rio_read_spec [OF 1(2) _ rd]
    show ?thesis
    proof (cases res)
      case (Inl e)
      then have "rc \<in> {- EAGAIN, -1}" "line = acc @ []" "x' = x1" using eq True rd by auto
      then show ?thesis using sp(1,3) Inl line_end.error [of "[]" n maxlen x' x rc] True by auto
    next
      case (Inr bs)
      have b: "length bs \<le> 1" "if bs = [] then rio_pending x = [] else bs @ rio_pending x1 = rio_pending x" using sp(2) Inr by auto
      show ?thesis
      proof (cases bs)
        case Nil
        then have "rc = (if n + length [] = 1 then 0 else int (n + length []))" "line = acc @ []" "x' = x1" using eq True rd Inr by (auto split: if_splits)
        then show ?thesis using sp(1) b(2) Nil True line_end.eof [of "[]" n maxlen x x'] by auto
      next
        case (Cons c cs)
        then have bs: "bs = [c]" using b(1) by simp
        have p: "c # rio_pending x1 = rio_pending x" using b(2) bs by simp
        show ?thesis
        proof (cases "c = LF")
          case True
          then have "rc = int n" "line = acc @ [LF]" "x' = x1" using eq \<open>n < maxlen\<close> rd Inr bs by simp_all
          then show ?thesis using p True \<open>n < maxlen\<close> sp(1) line_end.feed [of "[]" n maxlen x' x] by auto
        next
          case c: False
          then have "rio_readlineb_loop maxlen (n + 1) (acc @ bs) x1 = ((rc, line), x')" using eq True rd Inr bs by simp
          from 1(1) [OF True rd [symmetric] Inr _ _ _ _ this] bs c sp(1) True obtain new where
            "rio_ok x'" "line = (acc @ [c]) @ new" "line_end maxlen (n + 1) x1 rc new x'" by auto
          with line_end_Cons [OF _ refl c p] show ?thesis by auto
        qed
      qed
    qed
  qed
qed

section \<open>Properties\<close>

lemma rio_writen_loop_sends:
  "rio_writen_loop fd bs errno k = (ok, k') \<Longrightarrow> \<exists>sent rest. bs = sent @ rest \<and> k_sent k' = (k_sent k)(fd := k_sent k fd @ sent) \<and> (ok \<longleftrightarrow> rest = [])"
proof (induction fd bs errno k rule: rio_writen_loop.induct)
  case (1 fd bs errno k)
  note eq = 1(4) [unfolded rio_writen_loop.simps [of fd bs errno k]]
  show ?case
  proof (cases "bs = []")
    case True
    then show ?thesis using eq by auto
  next
    case False
    obtain w k1 where w: "sys_write fd bs k = (w, k1)" by fastforce
    note sp = sys_write_spec [OF w]
    have keep: "\<exists>sent rest. bs = sent @ rest \<and> k_sent k1 = (k_sent k)(fd := k_sent k fd @ sent) \<and> (False \<longleftrightarrow> rest = [])" if "k_sent k1 = k_sent k"
      using False that by (intro exI [of _ "[]"] exI [of _ bs]) simp
    show ?thesis
    proof (cases w)
      case (Inl e)
      have s: "k_sent k1 = k_sent k" using sp Inl by simp
      show ?thesis
      proof (cases "e = EINTR")
        case True
        then have "rio_writen_loop fd bs e k1 = (ok, k')" using eq False w Inl by simp
        from 1(1) [OF False w [symmetric] Inl True this] s show ?thesis by simp
      next
        case e: False
        then have "\<not> ok" "k' = k1" using eq False w Inl by simp_all
        then show ?thesis using keep [OF s] by blast
      qed
    next
      case (Inr n)
      have s: "n \<le> length bs" "k_sent k1 = (k_sent k)(fd := k_sent k fd @ take n bs)" using sp Inr by simp_all
      show ?thesis
      proof (cases "n = 0")
        case True
        then have s0: "k_sent k1 = k_sent k" using s by simp
        show ?thesis
        proof (cases "errno = EINTR")
          case e: True
          then have "rio_writen_loop fd bs errno k1 = (ok, k')" using eq False w Inr True by simp
          from 1(2) [OF False w [symmetric] Inr True e this] s0 show ?thesis by simp
        next
          case e: False
          then have "\<not> ok" "k' = k1" using eq False w Inr True by simp_all
          then show ?thesis using keep [OF s0] by blast
        qed
      next
        case n: False
        then have "rio_writen_loop fd (drop n bs) errno k1 = (ok, k')" using eq False w Inr by simp
        from 1(3) [OF False w [symmetric] Inr n this] obtain sent rest where
          r: "drop n bs = sent @ rest" "k_sent k' = (k_sent k1)(fd := k_sent k1 fd @ sent)" "ok \<longleftrightarrow> rest = []" by blast
        have "bs = (take n bs @ sent) @ rest" using r(1) by (metis append.assoc append_take_drop_id)
        moreover have "k_sent k' = (k_sent k)(fd := k_sent k fd @ take n bs @ sent)" using r(2) s(2) by simp
        ultimately show ?thesis using r(3) by blast
      qed
    qed
  qed
qed


definition sample_rio :: "rio \<times> kio" where
  "sample_rio =
     (rio_readinitb 3 \<lparr>rio_fd = 0, rio_cnt = 0, rio_bufptr = 0, rio_buf = replicate RIO_BUFSIZE CHR 0x00\<rparr>,
      (quiet_kio [3])\<lparr>k_in := (\<lambda>_. [])(3 := [Data ''ab'', RErr EINTR, Data (''c'' @ [LF] @ ''d''), Eof])\<rparr>)"

lemma sample_rio_ok: "rio_ok sample_rio" "rio_pending sample_rio = ''abc'' @ [LF] @ ''d''"
  by (simp_all add: rio_ok_def rio_pending_def sample_rio_def rio_readinitb_def)




end
