(* ===== verification/Zv_Threadpool.thy ===== *)
theory Zv_Threadpool
  imports Zv_Prelude
begin

text \<open>
  The thread pool (\<^verbatim>\<open>src/src/threadpool.c\<close>), several threads over one mutex and one condition variable. What a thread does between locking and unlocking the mutex is one
  definition on the pool; a thread that waits on the condition variable has given the mutex up. The threads interleave as the step relation \<open>tp_step\<close>; a thread that
  waits may wake up for no reason. The list behind the dummy head is a list of tasks. Calling the function of a task is an event of the relation.

  \<^verbatim>\<open>pthread_mutex_lock\<close> and the other calls return zero in the relation, as POSIX guarantees for a valid mutex; the definitions also have the branches for the errors. A return with the mutex
  still locked sets \<open>tp_locked\<close>, after which no thread gets the mutex any more.

  The lemmas show that every task accepted is run at most once and is never lost while the pool is not shut down at once, that no wakeup is lost, and that a graceful shutdown runs all
  tasks and ends all threads.
\<close>

section \<open>The pool\<close>

record zv_task =
  tk_func :: nat
  tk_arg :: nat

text \<open>Where a thread is: about to lock the mutex, waiting on the condition variable, inside the function of its task, or at its end.\<close>

datatype thread = Ready | Waiting | Running zv_task | Exited

record threadpool =
  tp_threads :: "thread list"
  tp_head :: "zv_task list"
  tp_thread_count :: int
  tp_queue_size :: int
  tp_shutdown :: int
  tp_started :: int
  tp_locked :: bool

definition immediate_shutdown :: int where "immediate_shutdown = 1"
definition graceful_shutdown :: int where "graceful_shutdown = 2"

definition zv_tp_invalid :: int where "zv_tp_invalid = -1"
definition zv_tp_lock_fail :: int where "zv_tp_lock_fail = -2"
definition zv_tp_already_shutdown :: int where "zv_tp_already_shutdown = -3"
definition zv_tp_cond_broadcast :: int where "zv_tp_cond_broadcast = -4"
definition zv_tp_thread_fail :: int where "zv_tp_thread_fail = -5"

section \<open>Operations\<close>

text \<open>\<^verbatim>\<open>pthread_cond_signal\<close> wakes one waiting thread, if there is any; which one is up to the scheduler (\<open>pick\<close>).\<close>

definition waiting_threads :: "thread list \<Rightarrow> nat list" where
  "waiting_threads ts = filter (\<lambda>i. ts ! i = Waiting) [0..<length ts]"

definition cond_signal :: "nat \<Rightarrow> threadpool \<Rightarrow> threadpool" where
  "cond_signal pick p =
     (case waiting_threads (tp_threads p) of
        [] \<Rightarrow> p
      | i # is \<Rightarrow> p\<lparr>tp_threads := (tp_threads p)[(i # is) ! (pick mod length (i # is)) := Ready]\<rparr>)"

definition cond_broadcast :: "threadpool \<Rightarrow> threadpool" where
  "cond_broadcast p = p\<lparr>tp_threads := map (\<lambda>t. if t = Waiting then Ready else t) (tp_threads p)\<rparr>"

text \<open>Adding a task; \<^const>\<open>None\<close> stands for a null function. A task that cannot be allocated is dropped without an error.\<close>

definition threadpool_add :: "bool \<Rightarrow> bool \<Rightarrow> bool \<Rightarrow> nat \<Rightarrow> zv_task option \<Rightarrow> threadpool \<Rightarrow> int \<times> threadpool" where
  "threadpool_add lock_ok malloc_ok unlock_ok pick task p =
     (case task of
        None \<Rightarrow> (-1, p)
      | Some t \<Rightarrow>
          if \<not> lock_ok then (-1, p)
          else
            let (err, p) =
              (if tp_shutdown p \<noteq> 0 then (zv_tp_already_shutdown, p)
               else if \<not> malloc_ok then (0, p)
               else (0, cond_signal pick (p\<lparr>tp_head := t # tp_head p, tp_queue_size := tp_queue_size p + 1\<rparr>)))
            in (if unlock_ok then err else -1, p\<lparr>tp_locked := \<not> unlock_ok\<rparr>))"

text \<open>A turn of thread \<open>i\<close>: from locking the mutex to waiting, exiting, or having taken a task.\<close>

definition worker_turn :: "nat \<Rightarrow> threadpool \<Rightarrow> threadpool" where
  "worker_turn i p =
     (if tp_queue_size p = 0 \<and> tp_shutdown p = 0 then p\<lparr>tp_threads := (tp_threads p)[i := Waiting]\<rparr>
      else if tp_shutdown p = immediate_shutdown \<or> tp_shutdown p = graceful_shutdown \<and> tp_queue_size p = 0
      then p\<lparr>tp_started := tp_started p - 1, tp_threads := (tp_threads p)[i := Exited]\<rparr>
      else
        case tp_head p of
          [] \<Rightarrow> p
        | t # ts \<Rightarrow> p\<lparr>tp_head := ts, tp_queue_size := tp_queue_size p - 1, tp_threads := (tp_threads p)[i := Running t]\<rparr>)"

text \<open>The function of the task has returned.\<close>

definition worker_done :: "nat \<Rightarrow> threadpool \<Rightarrow> threadpool" where
  "worker_done i p = p\<lparr>tp_threads := (tp_threads p)[i := Ready]\<rparr>"

text \<open>Freeing what is left; the pool must have no threads any more.\<close>

definition threadpool_free :: "threadpool \<Rightarrow> int \<times> threadpool" where
  "threadpool_free p = (if tp_started p > 0 then (-1, p) else (0, p\<lparr>tp_head := []\<rparr>))"

text \<open>The first part of the shutdown, with the mutex; on an error the mutex stays locked.\<close>

definition destroy_locked :: "bool \<Rightarrow> bool \<Rightarrow> bool \<Rightarrow> bool \<Rightarrow> threadpool \<Rightarrow> int \<times> threadpool" where
  "destroy_locked lock_ok broadcast_ok unlock_ok graceful p =
     (if \<not> lock_ok then (zv_tp_lock_fail, p)
      else if tp_shutdown p \<noteq> 0 then (zv_tp_already_shutdown, p\<lparr>tp_locked := True\<rparr>)
      else
        let p = p\<lparr>tp_shutdown := (if graceful then graceful_shutdown else immediate_shutdown)\<rparr>
        in if \<not> broadcast_ok then (zv_tp_cond_broadcast, p\<lparr>tp_locked := True\<rparr>)
           else if \<not> unlock_ok then (zv_tp_lock_fail, (cond_broadcast p)\<lparr>tp_locked := True\<rparr>)
           else (0, cond_broadcast p))"

text \<open>The second part, once the threads have been joined (\<open>joins_ok\<close>: every join succeeded).\<close>

definition destroy_joined :: "bool \<Rightarrow> threadpool \<Rightarrow> int \<times> threadpool" where
  "destroy_joined joins_ok p = (if joins_ok then (0, snd (threadpool_free p)) else (zv_tp_thread_fail, p))"

text \<open>
  Creating the pool. The result is a null pointer, possibly after a failed creation whose threads are told to stop, or a pool; \<open>Garbage\<close> means that the clean-up code reads the head of the list
  although it is null or not initialised.
\<close>

datatype init_result = Null | Failed threadpool | Garbage | Pool threadpool

fun start_threads :: "nat \<Rightarrow> bool list \<Rightarrow> threadpool \<Rightarrow> bool \<times> threadpool" where
  "start_threads 0 oks p = (True, p)"
| "start_threads (Suc n) oks p =
     (if oks \<noteq> [] \<and> \<not> hd oks then (False, p)
      else start_threads n (tl oks)
             (p\<lparr>tp_threads := tp_threads p @ [Ready], tp_thread_count := tp_thread_count p + 1, tp_started := tp_started p + 1\<rparr>))"

definition threadpool_init :: "int \<Rightarrow> bool \<Rightarrow> bool \<Rightarrow> bool \<Rightarrow> bool \<Rightarrow> bool \<Rightarrow> bool list \<Rightarrow> init_result" where
  "threadpool_init thread_num pool_ok threads_ok head_ok mutex_ok cond_ok creates =
     (if thread_num \<le> 0 then Null
      else if \<not> pool_ok then Null
      else if \<not> threads_ok \<or> \<not> head_ok then Garbage
      else if \<not> mutex_ok \<or> \<not> cond_ok then Null
      else
        case start_threads (nat thread_num) creates
            \<lparr>tp_threads = [], tp_head = [], tp_thread_count = 0, tp_queue_size = 0, tp_shutdown = 0, tp_started = 0, tp_locked = False\<rparr> of
          (True, p) \<Rightarrow> Pool p
        | (False, p) \<Rightarrow> Failed (snd (destroy_locked True True True False p)))"

section \<open>Interleaving\<close>

text \<open>What happens to a task, and the other steps.\<close>

datatype tp_event = Add zv_task bool int | Ran zv_task | Destroy bool int | Silent

inductive tp_step :: "threadpool \<Rightarrow> tp_event \<Rightarrow> threadpool \<Rightarrow> bool" where
  turn: "\<not> tp_locked p \<Longrightarrow> i < length (tp_threads p) \<Longrightarrow> tp_threads p ! i = Ready \<Longrightarrow> tp_step p Silent (worker_turn i p)"
| wakeup: "i < length (tp_threads p) \<Longrightarrow> tp_threads p ! i = Waiting \<Longrightarrow> tp_step p Silent (p\<lparr>tp_threads := (tp_threads p)[i := Ready]\<rparr>)"
| ran: "i < length (tp_threads p) \<Longrightarrow> tp_threads p ! i = Running t \<Longrightarrow> tp_step p (Ran t) (worker_done i p)"
| add: "\<not> tp_locked p \<Longrightarrow> threadpool_add True malloc_ok True pick (Some t) p = (rc, p') \<Longrightarrow> tp_step p (Add t malloc_ok rc) p'"
| destroy: "\<not> tp_locked p \<Longrightarrow> destroy_locked True True True graceful p = (rc, p') \<Longrightarrow> tp_step p (Destroy graceful rc) p'"

inductive tp_run :: "threadpool \<Rightarrow> tp_event list \<Rightarrow> threadpool \<Rightarrow> bool" where
  none: "tp_run p [] p"
| step: "tp_run p es p1 \<Longrightarrow> tp_step p1 e p2 \<Longrightarrow> tp_run p (es @ [e]) p2"

text \<open>The tasks that were accepted and the tasks whose function has returned.\<close>

fun accepted :: "tp_event \<Rightarrow> zv_task multiset" where
  "accepted (Add t malloc_ok rc) = (if malloc_ok \<and> rc = 0 then {#t#} else {#})"
| "accepted _ = {#}"

fun finished :: "tp_event \<Rightarrow> zv_task multiset" where
  "finished (Ran t) = {#t#}"
| "finished _ = {#}"

fun carried :: "thread \<Rightarrow> zv_task multiset" where
  "carried (Running t) = {#t#}"
| "carried _ = {#}"

definition tally :: "('a \<Rightarrow> 'b::comm_monoid_add) \<Rightarrow> 'a list \<Rightarrow> 'b" where
  "tally f xs = sum_list (map f xs)"

lemma tally_simps [simp]: "tally f [] = 0" "tally f (x # xs) = f x + tally f xs" "tally f (xs @ ys) = tally f xs + tally f ys"
  by (simp_all add: tally_def)

lemma tally_update: "i < length xs \<Longrightarrow> tally f (xs[i := v]) + f (xs ! i) = tally f xs + f v"
proof (induction xs arbitrary: i)
  case (Cons x xs)
  show ?case
  proof (cases i)
    case (Suc j)
    with Cons have "tally f (xs[j := v]) + f (xs ! j) = tally f xs + f v" by simp
    with Suc show ?thesis by (simp add: add.assoc)
  qed (simp add: ac_simps)
qed simp

definition alive :: "thread \<Rightarrow> int" where
  "alive t = (if t = Exited then 0 else 1)"

section \<open>The invariant\<close>

text \<open>
  The counters agree with the lists. While the pool is open, no thread has exited, and if there is a task, not all threads wait; afterwards no thread waits. A thread leaves a pool
  that is shut down gracefully only when no task is left.
\<close>

definition pool_inv :: "threadpool \<Rightarrow> bool" where
  "pool_inv p \<longleftrightarrow>
     tp_queue_size p = int (length (tp_head p)) \<and> tp_started p = tally alive (tp_threads p) \<and>
     tp_thread_count p = int (length (tp_threads p)) \<and> tp_threads p \<noteq> [] \<and> tp_shutdown p \<in> {0, immediate_shutdown, graceful_shutdown} \<and>
     (tp_shutdown p = 0 \<longrightarrow> Exited \<notin> set (tp_threads p) \<and> (tp_head p \<noteq> [] \<longrightarrow> (\<exists>t \<in> set (tp_threads p). t \<noteq> Waiting))) \<and>
     (tp_shutdown p \<noteq> 0 \<longrightarrow> Waiting \<notin> set (tp_threads p)) \<and>
     (tp_shutdown p = graceful_shutdown \<and> Exited \<in> set (tp_threads p) \<longrightarrow> tp_head p = [])"

definition tasks_of :: "threadpool \<Rightarrow> zv_task multiset" where
  "tasks_of p = mset (tp_head p) + tally carried (tp_threads p)"

section \<open>Steps keep the invariant\<close>

lemma lock_inv [simp]: "pool_inv (p\<lparr>tp_locked := b\<rparr>) = pool_inv p" "tasks_of (p\<lparr>tp_locked := b\<rparr>) = tasks_of p"
  by (simp_all add: pool_inv_def tasks_of_def)

lemmas shutdown_defs = immediate_shutdown_def graceful_shutdown_def

lemma tally_set:
  assumes "i < length xs" and "f (xs ! i) = f v"
  shows "tally f (xs[i := v]) = (tally f xs :: 'b :: cancel_comm_monoid_add)"
  using tally_update [OF assms(1), of f v] assms(2) by simp

lemma update_elems:
  assumes "i < length xs"
  shows "x \<in> set (xs[i := v]) \<Longrightarrow> x = v \<or> x \<in> set xs" and "v \<in> set (xs[i := v])"
  using assms set_update_subset_insert [of xs i v] by (auto simp: set_update_memI)

text \<open>A woken thread.\<close>

lemma wake_inv:
  assumes "pool_inv p" and "i < length (tp_threads p)" and "tp_threads p ! i = Waiting"
  shows "pool_inv (p\<lparr>tp_threads := (tp_threads p)[i := Ready]\<rparr>)" and "tasks_of (p\<lparr>tp_threads := (tp_threads p)[i := Ready]\<rparr>) = tasks_of p"
proof -
  note up = update_elems [OF assms(2), where v = Ready]
  have t: "tally alive ((tp_threads p)[i := Ready]) = tally alive (tp_threads p)" "tally carried ((tp_threads p)[i := Ready]) = tally carried (tp_threads p)"
    using tally_set [OF assms(2), of alive Ready] tally_set [OF assms(2), of carried Ready] assms(3) by (simp_all add: alive_def)
  have "Waiting \<in> set (tp_threads p)" using assms(2,3) by (metis nth_mem)
  then have "tp_shutdown p = 0" using assms(1) unfolding pool_inv_def by blast
  moreover have "Exited \<notin> set ((tp_threads p)[i := Ready])" if "Exited \<notin> set (tp_threads p)" using that up(1) by auto
  moreover have "\<exists>t \<in> set ((tp_threads p)[i := Ready]). t \<noteq> Waiting" using up(2) by auto
  ultimately show "pool_inv (p\<lparr>tp_threads := (tp_threads p)[i := Ready]\<rparr>)" using assms(1) t(1) by (simp add: pool_inv_def shutdown_defs)
  show "tasks_of (p\<lparr>tp_threads := (tp_threads p)[i := Ready]\<rparr>) = tasks_of p" using t(2) by (simp add: tasks_of_def)
qed

lemma waiting_threads_iff: "i \<in> set (waiting_threads ts) \<longleftrightarrow> i < length ts \<and> ts ! i = Waiting"
  by (auto simp: waiting_threads_def)

lemma cond_signal_cases:
  obtains (idle) "cond_signal pick p = p" and "Waiting \<notin> set (tp_threads p)"
  | (wake) i where "i < length (tp_threads p)" and "tp_threads p ! i = Waiting" and "cond_signal pick p = p\<lparr>tp_threads := (tp_threads p)[i := Ready]\<rparr>"
proof (cases "waiting_threads (tp_threads p)")
  case Nil
  have "Waiting \<notin> set (tp_threads p)"
  proof
    assume "Waiting \<in> set (tp_threads p)"
    then obtain i where "i < length (tp_threads p)" "tp_threads p ! i = Waiting" by (auto simp: in_set_conv_nth)
    then have "i \<in> set (waiting_threads (tp_threads p))" by (simp add: waiting_threads_iff)
    with Nil show False by simp
  qed
  with Nil idle show thesis by (simp add: cond_signal_def)
next
  case (Cons j js)
  let ?i = "(j # js) ! (pick mod length (j # js))"
  have "?i \<in> set (j # js)" by (rule nth_mem) simp
  then have "?i < length (tp_threads p)" "tp_threads p ! ?i = Waiting" using waiting_threads_iff [of ?i "tp_threads p"] Cons by simp_all
  with Cons wake [of ?i] show thesis by (simp add: cond_signal_def)
qed

lemma add_inv:
  assumes "pool_inv p" and "threadpool_add True malloc_ok True pick (Some t) p = (rc, p')" and "\<not> tp_locked p"
  shows "pool_inv p'" and "tasks_of p' = tasks_of p + accepted (Add t malloc_ok rc)"
proof -
  let ?q = "p\<lparr>tp_head := t # tp_head p, tp_queue_size := tp_queue_size p + 1\<rparr>"
  have "pool_inv p' \<and> tasks_of p' = tasks_of p + accepted (Add t malloc_ok rc)"
  proof (cases "tp_shutdown p = 0 \<and> malloc_ok")
    case False
    then show ?thesis using assms by (auto simp: threadpool_add_def zv_tp_already_shutdown_def Let_def split: if_splits)
  next
    case True
    have q: "tp_locked (cond_signal pick ?q) = False"
      using assms(3) by (simp add: cond_signal_def split: list.split)
    have "(cond_signal pick ?q)\<lparr>tp_locked := False\<rparr> = cond_signal pick ?q" using q by (cases "cond_signal pick ?q") simp
    then have r: "rc = 0" "p' = cond_signal pick ?q" using True assms(2) by (auto simp: threadpool_add_def Let_def)
    have no: "Exited \<notin> set (tp_threads p)" "tp_threads p \<noteq> []" using assms(1) True by (auto simp: pool_inv_def)
    have ts: "tasks_of ?q = add_mset t (tasks_of p)" by (simp add: tasks_of_def)
    show ?thesis
    proof (cases rule: cond_signal_cases [of pick ?q])
      case idle
      then have "\<exists>u \<in> set (tp_threads p). u \<noteq> Waiting" using no(2) by (cases "tp_threads p") auto
      then have "pool_inv ?q" using assms(1) True by (simp add: pool_inv_def shutdown_defs)
      then show ?thesis using idle r ts True by simp
    next
      case (wake i)
      have i: "i < length (tp_threads p)" "tp_threads p ! i = Waiting" using wake(1,2) by simp_all
      note w = wake_inv [OF assms(1) i]
      have p': "p' = (p\<lparr>tp_threads := (tp_threads p)[i := Ready]\<rparr>)\<lparr>tp_head := t # tp_head p, tp_queue_size := tp_queue_size p + 1\<rparr>" using r(2) wake(3) by simp
      have "\<exists>u \<in> set ((tp_threads p)[i := Ready]). u \<noteq> Waiting" using update_elems(2) [OF i(1)] by auto
      then have "pool_inv p'" using w(1) True unfolding p' by (simp add: pool_inv_def shutdown_defs)
      moreover have "tasks_of p' = add_mset t (tasks_of p)" using w(2) unfolding p' by (simp add: tasks_of_def)
      ultimately show ?thesis using r(1) True by simp
    qed
  qed
  then show "pool_inv p'" and "tasks_of p' = tasks_of p + accepted (Add t malloc_ok rc)" by simp_all
qed

lemma broadcast_total:
  assumes "f Waiting = f Ready"
  shows "tally f (map (\<lambda>t. if t = Waiting then Ready else t) ts) = tally f ts"
  by (induction ts) (auto simp: assms)

lemma destroy_inv:
  assumes "pool_inv p" and "destroy_locked True True True graceful p = (rc, p')"
  shows "pool_inv p'" and "tasks_of p' = tasks_of p"
proof -
  have s: "Exited \<in> set (map (\<lambda>t. if t = Waiting then Ready else t) ts) \<longleftrightarrow> Exited \<in> set ts"
    "Waiting \<notin> set (map (\<lambda>t. if t = Waiting then Ready else t) ts)" for ts by auto
  have t: "tally alive (map (\<lambda>t. if t = Waiting then Ready else t) ts) = tally alive ts"
    "tally carried (map (\<lambda>t. if t = Waiting then Ready else t) ts) = tally carried ts" for ts
    by (rule broadcast_total, simp add: alive_def)+
  show "pool_inv p'"
  proof (cases "tp_shutdown p = 0")
    case True
    then have "p' = cond_broadcast (p\<lparr>tp_shutdown := (if graceful then graceful_shutdown else immediate_shutdown)\<rparr>)" using assms(2) by (simp add: destroy_locked_def)
    then show ?thesis using assms(1) True s(2) by (auto simp: pool_inv_def cond_broadcast_def t s(1) shutdown_defs)
  qed (use assms in \<open>auto simp: destroy_locked_def pool_inv_def\<close>)
  show "tasks_of p' = tasks_of p"
    using assms(2) t(2) by (auto simp: destroy_locked_def tasks_of_def cond_broadcast_def Let_def split: if_splits)
qed

lemma turn_inv:
  assumes "pool_inv p" and "i < length (tp_threads p)" and "tp_threads p ! i = Ready"
  shows "pool_inv (worker_turn i p)" and "tasks_of (worker_turn i p) = tasks_of p"
proof -
  let ?ts = "tp_threads p"
  have ta: "tally alive (?ts[i := v]) = tally alive ?ts + alive v - 1" for v using tally_update [OF assms(2), of alive v] assms(3) by (simp add: alive_def)
  have tc: "tally carried (?ts[i := v]) = tally carried ?ts + carried v" for v using tally_update [OF assms(2), of carried v] assms(3) by simp
  have up: "x \<in> set (?ts[i := v]) \<Longrightarrow> x = v \<or> x \<in> set ?ts" "v \<in> set (?ts[i := v])" for x v using update_elems [OF assms(2)] by blast+
  have qs: "tp_queue_size p = int (length (tp_head p))" using assms(1) by (simp add: pool_inv_def)
  consider (wait) "tp_queue_size p = 0" "tp_shutdown p = 0"
    | (quit) "tp_shutdown p = immediate_shutdown \<or> tp_shutdown p = graceful_shutdown \<and> tp_queue_size p = 0"
    | (take) t us where "tp_head p = t # us" "tp_shutdown p \<noteq> immediate_shutdown"
    using assms(1) qs by (cases "tp_head p") (auto simp: pool_inv_def)
  then have "pool_inv (worker_turn i p) \<and> tasks_of (worker_turn i p) = tasks_of p"
  proof cases
    case wait
    then have w: "worker_turn i p = p\<lparr>tp_threads := ?ts[i := Waiting]\<rparr>" "tp_head p = []" using qs by (simp_all add: worker_turn_def)
    have "Exited \<notin> set (?ts[i := Waiting])" using assms(1) wait(2) up(1) [of Exited Waiting] by (auto simp: pool_inv_def)
    then show ?thesis using assms(1) wait ta [of Waiting] tc [of Waiting] w by (simp add: pool_inv_def tasks_of_def alive_def shutdown_defs)
  next
    case quit
    then have w: "worker_turn i p = p\<lparr>tp_started := tp_started p - 1, tp_threads := ?ts[i := Exited]\<rparr>" by (auto simp: worker_turn_def shutdown_defs)
    have "Waiting \<notin> set (?ts[i := Exited])" using assms(1) quit up(1) [of Waiting Exited] by (auto simp: pool_inv_def shutdown_defs)
    moreover have "tp_shutdown p = graceful_shutdown \<longrightarrow> tp_head p = []" "tp_shutdown p \<noteq> 0" using quit qs by (auto simp: shutdown_defs)
    ultimately show ?thesis using assms(1) ta [of Exited] tc [of Exited] w by (simp add: pool_inv_def tasks_of_def alive_def)
  next
    case (take t us)
    then have w: "worker_turn i p = p\<lparr>tp_head := us, tp_queue_size := tp_queue_size p - 1, tp_threads := ?ts[i := Running t]\<rparr>"
      using qs by (simp add: worker_turn_def)
    have e: "Exited \<notin> set ?ts" using assms(1) take by (auto simp: pool_inv_def)
    then have "Exited \<notin> set (?ts[i := Running t])" using up(1) [of Exited "Running t"] by auto
    moreover have "tp_shutdown p \<noteq> 0 \<longrightarrow> Waiting \<notin> set (?ts[i := Running t])" using assms(1) up(1) [of Waiting "Running t"] by (auto simp: pool_inv_def)
    moreover have "\<exists>u \<in> set (?ts[i := Running t]). u \<noteq> Waiting" using up(2) [of "Running t"] by auto
    ultimately show ?thesis using assms(1) take ta [of "Running t"] tc [of "Running t"] w by (simp add: pool_inv_def tasks_of_def alive_def)
  qed
  then show "pool_inv (worker_turn i p)" and "tasks_of (worker_turn i p) = tasks_of p" by simp_all
qed

lemma done_inv:
  assumes "pool_inv p" and "i < length (tp_threads p)" and "tp_threads p ! i = Running t"
  shows "pool_inv (worker_done i p)" and "tasks_of p = tasks_of (worker_done i p) + {#t#}"
proof -
  let ?ts = "tp_threads p"
  have ta: "tally alive (?ts[i := Ready]) = tally alive ?ts" using tally_set [OF assms(2), of alive Ready] assms(3) by (simp add: alive_def)
  have tc: "tally carried (?ts[i := Ready]) + {#t#} = tally carried ?ts" using tally_update [OF assms(2), of carried Ready] assms(3) by simp
  have up: "x \<in> set (?ts[i := Ready]) \<Longrightarrow> x = Ready \<or> x \<in> set ?ts" "Ready \<in> set (?ts[i := Ready])" for x using update_elems [OF assms(2)] by blast+
  have "Exited \<in> set (?ts[i := Ready]) \<Longrightarrow> Exited \<in> set ?ts" "Waiting \<in> set (?ts[i := Ready]) \<Longrightarrow> Waiting \<in> set ?ts" using up(1) by blast+
  moreover have "\<exists>u \<in> set (?ts[i := Ready]). u \<noteq> Waiting" using up(2) by auto
  ultimately show "pool_inv (worker_done i p)" using assms(1) ta by (auto simp: worker_done_def pool_inv_def)
  show "tasks_of p = tasks_of (worker_done i p) + {#t#}" using tc by (simp add: worker_done_def tasks_of_def)
qed

text \<open>All steps.\<close>

lemma step_inv:
  assumes "tp_step p e p'" and "pool_inv p"
  shows "pool_inv p'" and "tasks_of p' + finished e = tasks_of p + accepted e"
  using assms
proof (induction rule: tp_step.induct)
  case (turn p i)
  { case 1 with turn show ?case by (intro turn_inv) }
  { case 2 with turn show ?case by (simp add: turn_inv) }
next
  case (wakeup i p)
  { case 1 with wakeup show ?case by (intro wake_inv) }
  { case 2 with wakeup show ?case by (simp add: wake_inv) }
next
  case (ran i p t)
  { case 1 with ran show ?case using done_inv(1) [of p i t] by simp }
  { case 2 with ran show ?case using done_inv(2) [of p i t] by simp }
next
  case (add p malloc_ok pick t rc p')
  { case 1 with add show ?case using add_inv(1) [of p malloc_ok pick t rc p'] by simp }
  { case 2 with add show ?case using add_inv(2) [of p malloc_ok pick t rc p'] by simp }
next
  case (destroy p graceful rc p')
  { case 1 with destroy show ?case using destroy_inv(1) [of p graceful rc p'] by simp }
  { case 2 with destroy show ?case using destroy_inv(2) [of p graceful rc p'] by simp }
qed

lemma run_inv:
  assumes "tp_run p es p'" and "pool_inv p"
  shows "pool_inv p'" and "tasks_of p' + tally finished es = tasks_of p + tally accepted es"
  using assms
proof (induction rule: tp_run.induct)
  case (step p es p1 e p2)
  { case 1 with step show ?case using step_inv(1) [OF step.hyps(2)] by simp }
  { case 2
    then have "tasks_of p1 + tally finished es = tasks_of p + tally accepted es" "pool_inv p1" using step by simp_all
    with step_inv(2) [OF step.hyps(2)] show ?case by (simp add: ac_simps) (metis add.assoc add.commute) }
qed simp_all

section \<open>Progress after a shutdown\<close>

text \<open>The steps of the threads of the pool, without wakeups.\<close>

inductive tp_work :: "threadpool \<Rightarrow> threadpool \<Rightarrow> bool" where
  turn: "\<not> tp_locked p \<Longrightarrow> i < length (tp_threads p) \<Longrightarrow> tp_threads p ! i = Ready \<Longrightarrow> tp_work p (worker_turn i p)"
| ran: "i < length (tp_threads p) \<Longrightarrow> tp_threads p ! i = Running t \<Longrightarrow> tp_work p (worker_done i p)"

fun thread_weight :: "thread \<Rightarrow> nat" where
  "thread_weight (Running t) = 2"
| "thread_weight Ready = 1"
| "thread_weight _ = 0"

definition work_left :: "threadpool \<Rightarrow> nat" where
  "work_left p = 3 * length (tp_head p) + tally thread_weight (tp_threads p)"

lemma work_step:
  assumes "tp_work p p'" and "pool_inv p" and "tp_shutdown p \<noteq> 0"
  shows "pool_inv p'" and "tp_shutdown p' = tp_shutdown p" and "tp_locked p' = tp_locked p" and "work_left p' < work_left p"
proof -
  have "pool_inv p' \<and> tp_shutdown p' = tp_shutdown p \<and> tp_locked p' = tp_locked p \<and> work_left p' < work_left p" using assms
  proof (cases rule: tp_work.cases)
    case (turn i)
    have up: "tally thread_weight ((tp_threads p)[i := v]) + 1 = tally thread_weight (tp_threads p) + thread_weight v" for v
      using tally_update [OF turn(3), of thread_weight v] turn(4) by simp
    have qs: "tp_queue_size p = int (length (tp_head p))" "tp_shutdown p \<in> {immediate_shutdown, graceful_shutdown}" using assms(2,3) by (auto simp: pool_inv_def)
    have "work_left (worker_turn i p) < work_left p \<and> tp_shutdown (worker_turn i p) = tp_shutdown p \<and> tp_locked (worker_turn i p) = tp_locked p"
    proof (cases "tp_shutdown p = immediate_shutdown \<or> tp_queue_size p = 0")
      case True
      then have "worker_turn i p = p\<lparr>tp_started := tp_started p - 1, tp_threads := (tp_threads p)[i := Exited]\<rparr>" using qs assms(3) by (auto simp: worker_turn_def)
      then show ?thesis using up [of Exited] by (simp add: work_left_def)
    next
      case False
      then obtain t us where h: "tp_head p = t # us" using qs(1) by (cases "tp_head p") auto
      then have "worker_turn i p = p\<lparr>tp_head := us, tp_queue_size := tp_queue_size p - 1, tp_threads := (tp_threads p)[i := Running t]\<rparr>"
        using False by (simp add: worker_turn_def)
      then show ?thesis using up [of "Running t"] h by (simp add: work_left_def)
    qed
    then show ?thesis using turn_inv(1) [OF assms(2) turn(3,4)] turn(1) by simp
  next
    case (ran i t)
    have "tally thread_weight ((tp_threads p)[i := Ready]) + 2 = tally thread_weight (tp_threads p) + 1"
      using tally_update [OF ran(2), of thread_weight Ready] ran(3) by simp
    then show ?thesis using done_inv(1) [OF assms(2) ran(2,3)] ran(1) by (simp add: worker_done_def work_left_def)
  qed
  then show "pool_inv p'" and "tp_shutdown p' = tp_shutdown p" and "tp_locked p' = tp_locked p" and "work_left p' < work_left p" by simp_all
qed

lemma work_steps:
  "(tp_work ^^ n) p q \<Longrightarrow> pool_inv p \<Longrightarrow> tp_shutdown p \<noteq> 0 \<Longrightarrow>
   pool_inv q \<and> tp_shutdown q = tp_shutdown p \<and> tp_locked q = tp_locked p \<and> n + work_left q \<le> work_left p"
proof (induction n arbitrary: q)
  case (Suc n)
  then obtain r where r: "(tp_work ^^ n) p r" "tp_work r q" by auto
  then have "pool_inv r" "tp_shutdown r = tp_shutdown p" "tp_locked r = tp_locked p" "n + work_left r \<le> work_left p" using Suc by auto
  with work_step [OF r(2)] Suc.prems(3) show ?case by fastforce
qed simp

lemma work_stuck:
  assumes "pool_inv p" and "tp_shutdown p \<noteq> 0" and "\<not> tp_locked p" and "\<nexists>q. tp_work p q"
  shows "\<forall>t \<in> set (tp_threads p). t = Exited"
proof
  fix t assume "t \<in> set (tp_threads p)"
  then obtain i where i: "i < length (tp_threads p)" "tp_threads p ! i = t" by (auto simp: in_set_conv_nth)
  have "t \<noteq> Waiting" using \<open>t \<in> set (tp_threads p)\<close> assms(1,2) by (auto simp: pool_inv_def)
  moreover have "t \<noteq> Ready" using assms(3,4) tp_work.turn i by blast
  moreover have "t \<noteq> Running u" for u using assms(4) tp_work.ran i by blast
  ultimately show "t = Exited" by (cases t) auto
qed

lemma tally_const: "(\<And>x. x \<in> set xs \<Longrightarrow> f x = 0) \<Longrightarrow> tally f xs = 0"
  by (induction xs) simp_all

lemma exited_tasks:
  assumes "\<forall>t \<in> set (tp_threads p). t = Exited" and "pool_inv p"
  shows "tasks_of p = mset (tp_head p)" and "tp_started p = 0" and "tp_shutdown p = graceful_shutdown \<Longrightarrow> tp_head p = []"
proof -
  have "tally carried (tp_threads p) = 0" "tally alive (tp_threads p) = 0" by (rule tally_const, use assms(1) in \<open>force simp: alive_def\<close>)+
  then show "tasks_of p = mset (tp_head p)" "tp_started p = 0" using assms(2) by (simp_all add: tasks_of_def pool_inv_def)
  have "Exited \<in> set (tp_threads p)" using assms by (cases "tp_threads p") (auto simp: pool_inv_def)
  then show "tp_shutdown p = graceful_shutdown \<Longrightarrow> tp_head p = []" using assms(2) by (simp add: pool_inv_def)
qed

section \<open>Properties\<close>

lemma start_threads_spec:
  "start_threads n oks p = (ok, p') \<Longrightarrow>
   \<exists>m \<le> n. (ok \<longrightarrow> m = n) \<and> p' = p\<lparr>tp_threads := tp_threads p @ replicate m Ready, tp_thread_count := tp_thread_count p + int m, tp_started := tp_started p + int m\<rparr>"
proof (induction n arbitrary: oks p)
  case (Suc n)
  show ?case
  proof (cases "oks \<noteq> [] \<and> \<not> hd oks")
    case True
    then show ?thesis using Suc.prems by (intro exI [of _ 0]) auto
  next
    case False
    let ?p = "p\<lparr>tp_threads := tp_threads p @ [Ready], tp_thread_count := tp_thread_count p + 1, tp_started := tp_started p + 1\<rparr>"
    from False Suc.prems have "start_threads n (tl oks) ?p = (ok, p')" by (auto split: if_splits)
    from Suc.IH [OF this] obtain m where m: "m \<le> n" "ok \<longrightarrow> m = n"
      "p' = ?p\<lparr>tp_threads := tp_threads ?p @ replicate m Ready, tp_thread_count := tp_thread_count ?p + int m, tp_started := tp_started ?p + int m\<rparr>" by blast
    then have "p' = p\<lparr>tp_threads := tp_threads p @ replicate (Suc m) Ready, tp_thread_count := tp_thread_count p + int (Suc m), tp_started := tp_started p + int (Suc m)\<rparr>"
      by simp
    with m(1,2) show ?thesis by (intro exI [of _ "Suc m"]) simp
  qed
qed (simp add: exI [of _ 0])

lemma init_inv:
  assumes "threadpool_init n pool_ok threads_ok head_ok mutex_ok cond_ok creates = Pool p"
  shows "pool_inv p" and "tasks_of p = {#}" and "tp_shutdown p = 0" and "\<not> tp_locked p" and "tp_threads p = replicate (nat n) Ready" and "0 < n"
proof -
  let ?p = "\<lparr>tp_threads = [], tp_head = [], tp_thread_count = 0, tp_queue_size = 0, tp_shutdown = 0, tp_started = 0, tp_locked = False\<rparr>"
  have st: "start_threads (nat n) creates ?p = (True, p)" and n: "0 < n"
    using assms by (auto simp: threadpool_init_def split: if_splits prod.splits bool.splits)
  obtain m where "m = nat n" and p: "p = ?p\<lparr>tp_threads := replicate m Ready, tp_thread_count := int m, tp_started := int m\<rparr>"
    using start_threads_spec [OF st] by auto
  have t: "tally alive (replicate m Ready) = int m" "tally carried (replicate m Ready) = {#}" for m by (induction m) (simp_all add: alive_def)
  show "0 < n" by (rule n)
  show "tp_shutdown p = 0" "\<not> tp_locked p" "tp_threads p = replicate (nat n) Ready" using p \<open>m = nat n\<close> by simp_all
  show "pool_inv p" "tasks_of p = {#}" using p \<open>m = nat n\<close> n t by (simp_all add: pool_inv_def tasks_of_def shutdown_defs)
qed

text \<open>
  C28. The thread pool neither loses nor duplicates work, in every interleaving of threads, additions and shutdowns. At every moment each task that was accepted has run to its end
  exactly once, is being run by a thread, or is in the queue; the counters of the pool agree with the queue and the threads; and no wakeup is lost: while the
  pool is open and tasks are queued, some thread is not waiting.
\<close>

theorem threadpool_exactly_once:
  assumes "threadpool_init n pool_ok threads_ok head_ok mutex_ok cond_ok creates = Pool p0" and "tp_run p0 es p"
  shows "tally accepted es = tally finished es + mset (tp_head p) + tally carried (tp_threads p) \<and>
    tp_queue_size p = int (length (tp_head p)) \<and> tp_started p = tally alive (tp_threads p) \<and>
    (tp_shutdown p = 0 \<and> tp_head p \<noteq> [] \<longrightarrow> (\<exists>t \<in> set (tp_threads p). t \<noteq> Waiting))"
proof -
  note i = init_inv [OF assms(1)]
  note r = run_inv [OF assms(2) i(1)]
  have "tally accepted es = tally finished es + mset (tp_head p) + tally carried (tp_threads p)"
    using r(2) i(2) by (simp add: tasks_of_def ac_simps)
  with r(1) show ?thesis by (simp add: pool_inv_def)
qed


lemma locked_step:
  assumes "tp_step p e q" and "tp_locked p"
  shows "tp_locked q \<and> tp_started q = tp_started p"
  using assms by (induction rule: tp_step.induct) (auto simp: worker_done_def)

text \<open>
  C38. Shutting a pool down twice blocks it. The second call of \<^verbatim>\<open>threadpool_destroy\<close> returns \<^verbatim>\<open>zv_tp_already_shutdown\<close> with the mutex locked; from then on no thread of the pool ends and the
  mutex is never free again.
\<close>

theorem destroy_twice_blocks:
  assumes "tp_shutdown p \<noteq> 0" and "destroy_locked True True True graceful p = (rc, p')" and "tp_run p' es q"
  shows "rc = zv_tp_already_shutdown \<and> tp_locked q \<and> tp_started q = tp_started p"
proof -
  have d: "rc = zv_tp_already_shutdown" "p' = p\<lparr>tp_locked := True\<rparr>" using assms(1,2) by (simp_all add: destroy_locked_def)
  from assms(3) have "tp_locked p' \<longrightarrow> tp_locked q \<and> tp_started q = tp_started p'"
  proof (induction rule: tp_run.induct)
    case (step p es p1 e p2)
    then show ?case using locked_step [OF step.hyps(2)] by auto
  qed simp
  with d show ?thesis by simp
qed

text \<open>Two threads, one task, a graceful shutdown.\<close>

definition sample_task :: zv_task where "sample_task = \<lparr>tk_func = 1, tk_arg = 7\<rparr>"

definition sample_pool :: threadpool where
  "sample_pool = \<lparr>tp_threads = [Ready, Ready], tp_head = [], tp_thread_count = 2, tp_queue_size = 0, tp_shutdown = 0, tp_started = 2, tp_locked = False\<rparr>"

lemma sample_pool_init: "threadpool_init 2 True True True True True [] = Pool sample_pool"
  by (simp add: threadpool_init_def sample_pool_def numeral_2_eq_2)

lemma sample_pool_run:
  "tp_run sample_pool [Add sample_task True 0, Destroy True 0]
     (sample_pool\<lparr>tp_head := [sample_task], tp_queue_size := 1, tp_shutdown := graceful_shutdown\<rparr>)"
proof -
  let ?p = "sample_pool\<lparr>tp_head := [sample_task], tp_queue_size := 1\<rparr>"
  have "tp_step sample_pool (Add sample_task True 0) ?p"
    by (rule tp_step.add [where pick = 0]) (simp_all add: sample_pool_def threadpool_add_def cond_signal_def waiting_threads_def)
  from tp_run.step [OF tp_run.none this] have "tp_run sample_pool [Add sample_task True 0] ?p" by simp
  moreover have "tp_step ?p (Destroy True 0) (?p\<lparr>tp_shutdown := graceful_shutdown\<rparr>)"
    by (rule tp_step.destroy) (simp_all add: sample_pool_def destroy_locked_def cond_broadcast_def)
  ultimately show ?thesis by (auto dest: tp_run.step)
qed

theorem threadpool_exactly_once_witness: "tally accepted [Add sample_task True 0, Destroy True 0] = {#sample_task#} + {#}"
  using threadpool_exactly_once [OF sample_pool_init sample_pool_run] by (simp add: sample_pool_def)


theorem destroy_twice_blocks_witness:
  "tp_locked (sample_pool\<lparr>tp_shutdown := 2, tp_locked := True\<rparr>)"
proof -
  have "destroy_locked True True True True (sample_pool\<lparr>tp_shutdown := 2\<rparr>) = (zv_tp_already_shutdown, sample_pool\<lparr>tp_shutdown := 2, tp_locked := True\<rparr>)"
    by (simp add: destroy_locked_def)
  from destroy_twice_blocks [OF _ this tp_run.none] show ?thesis by simp
qed

end
