(* ===== verification/Zv_Master.thy ===== *)
theory Zv_Master
  imports Zv_Conf
begin

text \<open>
  The program itself: the command line (\<^verbatim>\<open>src/src/zaver.c\<close>), the master process that starts the workers and stops them (\<^verbatim>\<open>src/src/process.c\<close>), and the stop flag (\<^verbatim>\<open>src/src/zv_signal.c\<close>).

  \<^verbatim>\<open>fork\<close> is the master's side: it returns the id of the child, or a negative number. \<^verbatim>\<open>waitpid(-1, ...)\<close> takes its answers from a script, together with whether the stop signal
  arrived meanwhile; if the script is used up, the master waits forever, which is the result \<^const>\<open>None\<close>. The worker loop is an argument: the value it returns. \<^verbatim>\<open>getopt_long\<close> is the list of
  its results, with the index of the first argument that is no option.
\<close>

section \<open>The stop flag\<close>

record master =
  zv_stop :: bool
  m_sigactions :: "bool list"
  m_handled :: "string list"
  m_pids :: "int list"
  m_io :: kio

definition on_term :: "master \<Rightarrow> master" where
  "on_term m = m\<lparr>zv_stop := True\<rparr>"

definition sys_sigaction :: "string \<Rightarrow> master \<Rightarrow> bool \<times> master" where
  "sys_sigaction sig m =
     (let ok = (m_sigactions m = [] \<or> hd (m_sigactions m)); m = m\<lparr>m_sigactions := tl (m_sigactions m)\<rparr>
      in (ok, if ok then m\<lparr>m_handled := sig # m_handled m\<rparr> else m))"

definition install_common :: "master \<Rightarrow> int \<times> master" where
  "install_common m =
     (case sys_sigaction ''SIGTERM'' m of (ok, m) \<Rightarrow>
        if \<not> ok then (-1, m) else case sys_sigaction ''SIGINT'' m of (ok, m) \<Rightarrow> (if ok then 0 else -1, m))"

definition zv_install_master_signals :: "master \<Rightarrow> int \<times> master" where
  "zv_install_master_signals = install_common"

definition zv_install_worker_signals :: "master \<Rightarrow> int \<times> master" where
  "zv_install_worker_signals = install_common"

section \<open>The master\<close>

definition cpu_count :: "int \<Rightarrow> int" where
  "cpu_count n = (if n > 0 \<and> n < 1024 then n else 1)"

definition worker_count :: "int \<Rightarrow> zv_conf \<Rightarrow> int" where
  "worker_count online cf = (if cf_workers cf \<le> 0 then cpu_count online else cf_workers cf)"

fun fork_workers :: "nat list \<Rightarrow> master \<Rightarrow> master" where
  "fork_workers [] m = m"
| "fork_workers (i # is) m =
     (case sys_fork (m_io m) of (pid, k) \<Rightarrow>
        if pid < 0 then m\<lparr>m_io := k, zv_stop := True\<rparr>
        else fork_workers is (m\<lparr>m_io := k, m_pids := (m_pids m)[i := pid]\<rparr>))"

datatype wait_answer = Reaped int int | Interrupted | WaitFailed

fun wait_loop :: "(wait_answer \<times> bool) list \<Rightarrow> master \<Rightarrow> master option" where
  "wait_loop [] m = (if zv_stop m then Some m else None)"
| "wait_loop ((w, term) # ws) m =
     (if zv_stop m then Some m
      else
        let m = (if term then on_term m else m)
        in case w of
             Interrupted \<Rightarrow> wait_loop ws m
           | WaitFailed \<Rightarrow> Some m
           | Reaped pid status \<Rightarrow> Some (m\<lparr>m_io := sys_waitpid pid (m_io m), zv_stop := True\<rparr>))"

definition stop_workers :: "master \<Rightarrow> master" where
  "stop_workers m =
     (let ps = filter (\<lambda>p. p > 0) (m_pids m)
      in m\<lparr>m_io := fold sys_waitpid ps (fold sys_kill ps (m_io m)), m_pids := []\<rparr>)"

definition zv_run_server ::
  "(zv_conf \<Rightarrow> int \<Rightarrow> int) \<Rightarrow> int \<Rightarrow> bool \<Rightarrow> (wait_answer \<times> bool) list \<Rightarrow> zv_conf \<Rightarrow> master \<Rightarrow> (int \<times> master) option" where
  "zv_run_server zv_worker_run online calloc_ok waits cf m =
     (let workers = worker_count online cf
      in if workers \<le> 1 then Some (zv_worker_run (cf\<lparr>cf_workers := 1\<rparr>) 0, m)
         else
           case zv_install_master_signals m of (rc, m) \<Rightarrow>
             if rc \<noteq> 0 then Some (1, m)
             else if \<not> calloc_ok then Some (1, m)
             else map_option (\<lambda>m. (0, stop_workers m))
               (wait_loop waits (fork_workers [0..<nat workers] (m\<lparr>m_pids := replicate (nat workers) 0\<rparr>))))"

section \<open>The command line\<close>

definition CONF :: string where "CONF = ''zaver.conf''"

datatype opts = Run string | Stop

fun options :: "(char \<times> string) list \<Rightarrow> string \<Rightarrow> opts" where
  "options [] conf_file = Run conf_file"
| "options ((c, optarg) # os) conf_file =
     (if c = CHR ''c'' then options os optarg
      else if c = CHR ''V'' \<or> c = CHR '':'' \<or> c = CHR ''h'' \<or> c = CHR ''?'' then Stop
      else options os conf_file)"

text \<open>The file system is \<open>files\<close>, \<open>server\<close> the master; the result is the exit status.\<close>

definition zaver_main ::
  "nat \<Rightarrow> (char \<times> string) list \<Rightarrow> nat \<Rightarrow> (string \<Rightarrow> string option) \<Rightarrow> zv_conf \<Rightarrow> string \<Rightarrow> (zv_conf \<Rightarrow> int option) \<Rightarrow> kio \<Rightarrow> int option" where
  "zaver_main argc opts optind files garbage conf_buf server k =
     (if argc = 1 then Some 0
      else case options opts CONF of
             Stop \<Rightarrow> Some 0
           | Run conf_file \<Rightarrow>
               if optind < argc then Some 0
               else case read_conf (files conf_file) garbage conf_buf BUFLEN k of
                      ((rc, cf), k) \<Rightarrow> if rc \<noteq> ZV_CONF_OK then Some 1 else server cf)"

section \<open>Lemmas\<close>

text \<open>The children: the positive answers of \<^verbatim>\<open>fork\<close> up to the first failure.\<close>

definition children :: "nat \<Rightarrow> int list \<Rightarrow> int list" where
  "children n forks = takeWhile (\<lambda>p. p > 0) (take n forks)"

lemma fork_workers_spec:
  assumes "\<forall>p \<in> set (k_forks (m_io m)). p \<noteq> 0" and "length (m_pids m) = j + n"
  shows "m_pids (fork_workers [j..<j + n] m) =
      take j (m_pids m) @ children n (k_forks (m_io m)) @ drop (j + length (children n (k_forks (m_io m)))) (m_pids m) \<and>
    k_killed (m_io (fork_workers [j..<j + n] m)) = k_killed (m_io m) \<and> k_waited (m_io (fork_workers [j..<j + n] m)) = k_waited (m_io m) \<and>
    (zv_stop (fork_workers [j..<j + n] m) \<longleftrightarrow> zv_stop m \<or> length (children n (k_forks (m_io m))) < n)"
  using assms
proof (induction n arbitrary: j m)
  case 0
  then show ?case by (simp add: children_def)
next
  case (Suc n)
  have r: "[j..<j + Suc n] = j # [Suc j..<Suc j + n]" by (simp add: upt_conv_Cons)
  show ?case
  proof (cases "k_forks (m_io m)")
    case Nil
    then show ?thesis unfolding r by (simp add: sys_fork_def children_def)
  next
    case (Cons pid ps)
    show ?thesis
    proof (cases "pid < 0")
      case True
      then show ?thesis using Cons unfolding r by (simp add: sys_fork_def children_def)
    next
      case False
      then have pos: "0 < pid" using Suc.prems(1) Cons by auto
      let ?m = "m\<lparr>m_io := (m_io m)\<lparr>k_forks := ps\<rparr>, m_pids := (m_pids m)[j := pid]\<rparr>"
      have f: "fork_workers (j # [Suc j..<Suc j + n]) m = fork_workers [Suc j..<Suc j + n] ?m" using False Cons by (simp add: sys_fork_def)
      have c: "children (Suc n) (pid # ps) = pid # children n ps" using pos by (simp add: children_def)
      have "\<forall>p \<in> set (k_forks (m_io ?m)). p \<noteq> 0" "length (m_pids ?m) = Suc j + n" using Suc.prems Cons by auto
      note ih = Suc.IH [OF this]
      have "take (Suc j) ((m_pids m)[j := pid]) = take j (m_pids m) @ [pid]" using Suc.prems(2) by (simp add: take_Suc_conv_app_nth)
      then show ?thesis using ih Cons c Suc.prems(2) unfolding r f by simp
    qed
  qed
qed

lemma fold_kill: "k_killed (fold sys_kill ps k) = rev ps @ k_killed k" "k_waited (fold sys_kill ps k) = k_waited k"
  by (induction ps arbitrary: k) (simp_all add: sys_kill_def)

lemma fold_wait: "k_waited (fold sys_waitpid ps k) = rev ps @ k_waited k" "k_killed (fold sys_waitpid ps k) = k_killed k"
  by (induction ps arbitrary: k) (simp_all add: sys_waitpid_def)

lemma wait_loop_frame:
  "wait_loop ws m = Some m' \<Longrightarrow>
   m_pids m' = m_pids m \<and> k_killed (m_io m') = k_killed (m_io m) \<and> (k_waited (m_io m') = k_waited (m_io m) \<or> (\<exists>p. k_waited (m_io m') = p # k_waited (m_io m)))"
proof (induction ws m rule: wait_loop.induct)
  case (2 w t ws m)
  then show ?case by (cases w) (auto simp: Let_def on_term_def sys_waitpid_def split: if_splits)
qed (auto split: if_splits)

lemma wait_loop_blocks:
  "wait_loop ws m = None \<longleftrightarrow> \<not> zv_stop m \<and> (\<forall>x \<in> set ws. x = (Interrupted, False))"
proof (induction ws m rule: wait_loop.induct)
  case (2 w t ws m)
  then show ?case by (cases w) (auto simp: Let_def on_term_def)
qed simp


definition sample_master :: master where
  "sample_master = \<lparr>zv_stop = False, m_sigactions = [], m_handled = [], m_pids = [], m_io = (quiet_kio [])\<lparr>k_forks := [11, 12]\<rparr>\<rparr>"




end
