(* ===== verification/Zv_Worker.thy ===== *)
theory Zv_Worker
  imports Zv_Handler Zv_Master
begin

text \<open>
  The worker process (\<^verbatim>\<open>src/src/worker.c\<close>): its event loop, which sleeps until the next timer, handles the events that \<^verbatim>\<open>epoll_wait\<close> reports, closes connections whose time is over, and then
  gives the closed requests back to the cache.

  The kernel reports descriptors with what happened to them; \<open>epoll_collect\<close> turns them into events as \<^verbatim>\<open>epoll\<close> does: only registered and armed descriptors are reported, with the pointer of
  the registration, and a one-shot registration is disarmed. The pointer leads to an item object inside a request, which names the kind of the event and the request. The connections that
  clients make are a script: each \<^verbatim>\<open>accept\<close> returns the next one, with all that this client will send and take, or an error.
\<close>

section \<open>Processor affinity\<close>

text \<open>
  \<open>available\<close> is the answer of \<^verbatim>\<open>sched_getaffinity\<close>, the set of the processor numbers that the process may use, \<open>set_ok\<close> that of \<^verbatim>\<open>sched_setaffinity\<close>; the result is the processor that
  the process is bound to by the call.
\<close>

definition CPU_SETSIZE :: nat where "CPU_SETSIZE = 1024"

fun pick_cpu :: "(nat \<Rightarrow> bool) \<Rightarrow> nat list \<Rightarrow> int \<Rightarrow> int" where
  "pick_cpu available [] pick = -1"
| "pick_cpu available (cpu # cpus) pick =
     (if \<not> available cpu then pick_cpu available cpus pick
      else if pick = 0 then int cpu
      else pick_cpu available cpus (pick - 1))"

definition maybe_set_cpu_affinity :: "zv_conf option \<Rightarrow> (nat \<Rightarrow> bool) option \<Rightarrow> bool \<Rightarrow> int \<Rightarrow> int option" where
  "maybe_set_cpu_affinity cf available set_ok worker_id =
     (case cf of
        None \<Rightarrow> None
      | Some cf \<Rightarrow>
          if cf_cpu_affinity cf = 0 then None
          else
            case available of
              None \<Rightarrow> None
            | Some av \<Rightarrow>
                let cpu_count = length (filter av [0..<CPU_SETSIZE])
                in if cpu_count = 0 then None
                   else let chosen_cpu = pick_cpu av [0..<CPU_SETSIZE] (worker_id mod int cpu_count)
                        in if chosen_cpu < 0 \<or> \<not> set_ok then None else Some chosen_cpu)"

section \<open>Events\<close>

record ep_flags =
  EPOLLERR :: bool
  ready_in :: bool
  ready_out :: bool
  EPOLLHUP :: bool

record worker_mem = timer_mem +
  w_net :: net
  w_accepts :: "(int + rd list \<times> wr list) list"
  w_available :: "(nat \<Rightarrow> bool) option"
  w_bindable :: bool
  w_cpu :: "int option"

definition MAXEVENTS :: nat where "MAXEVENTS = 1024"

text \<open>Errors and hang-ups are always reported, the other flags if the registration asks for them.\<close>

fun epoll_collect :: "(int \<times> ep_flags) list \<Rightarrow> kio \<Rightarrow> (ep_data option \<times> ep_flags) list \<times> kio" where
  "epoll_collect [] k = ([], k)"
| "epoll_collect ((fd, fl) # rs) k =
     (case k_epoll k fd of
        None \<Rightarrow> epoll_collect rs k
      | Some reg \<Rightarrow>
          if \<not> reg_armed reg then epoll_collect rs k
          else
            case epoll_collect rs (if reg_oneshot reg then k\<lparr>k_epoll := (k_epoll k)(fd \<mapsto> reg\<lparr>reg_armed := False\<rparr>)\<rparr> else k) of
              (es, k) \<Rightarrow>
                ((reg_data reg, fl\<lparr>ready_in := ready_in fl \<and> reg_events reg = EPOLLIN, ready_out := ready_out fl \<and> reg_events reg = EPOLLOUT\<rparr>) # es, k))"

section \<open>New connections\<close>

definition sys_accept :: "rd list \<times> wr list \<Rightarrow> kio \<Rightarrow> int \<times> kio" where
  "sys_accept = (\<lambda>(input, output) k.
     case new_fd k of (fd, k) \<Rightarrow> (fd, k\<lparr>k_in := (k_in k)(fd := input), k_out := (k_out k)(fd := output), k_sent := (k_sent k)(fd := [])\<rparr>))"

definition accept_conn :: "zv_conf \<Rightarrow> int \<Rightarrow> rd list \<times> wr list \<Rightarrow> worker_mem \<Rightarrow> (bool \<times> worker_mem) outcome" where
  "accept_conn cf epfd client s =
     (case sys_accept client (io s) of (infd, k) \<Rightarrow>
        let k = snd (make_socket_non_blocking infd k);
            s = s\<lparr>io := k, w_net := snd (net_call (SetOpt infd TCP_NODELAY) (w_net s))\<rparr>
        in case zv_http_request_get infd epfd cf s of (a, s) \<Rightarrow>
             if a = NULL then Ok (False, s\<lparr>io := sys_close infd (io s)\<rparr>)
             else if r_conn_item (req a s) = None
             then Ok (False, zv_http_request_put_deferred a (s\<lparr>io := sys_close infd (io s)\<rparr>))
             else
               let reg = \<lparr>reg_events = EPOLLIN, reg_oneshot = True, reg_armed = True, reg_data = Some (ConnItem a)\<rparr>
               in andthen (zv_add_timer a (r_keep_alive_timeout_ms (req a s)) (Some H_zv_http_close_conn) (s\<lparr>io := zv_epoll_add infd reg (io s)\<rparr>))
                    (\<lambda>s. Ok (True, s)))"

text \<open>Accepting until there is nothing left, or an error.\<close>

fun accept_loop :: "zv_conf \<Rightarrow> int \<Rightarrow> (int + rd list \<times> wr list) list \<Rightarrow> worker_mem \<Rightarrow> worker_mem outcome" where
  "accept_loop cf epfd [] s = Ok (s\<lparr>w_accepts := []\<rparr>)"
| "accept_loop cf epfd (Inl e # as) s = Ok (s\<lparr>w_accepts := as\<rparr>)"
| "accept_loop cf epfd (Inr client # as) s =
     andthen (accept_conn cf epfd client s) (\<lambda>(more, s). if more then accept_loop cf epfd as s else Ok (s\<lparr>w_accepts := as\<rparr>))"

section \<open>Dispatch\<close>

text \<open>The item that a pointer leads to; \<^const>\<open>None\<close> if it has been freed.\<close>

definition item_of :: "ep_data \<Rightarrow> 'z req_mem_scheme \<Rightarrow> zv_ep_item option" where
  "item_of d s =
     (case d of
        ConnItem a \<Rightarrow> (case reqs s a of None \<Rightarrow> None | Some r \<Rightarrow> r_conn_item r)
      | CgiOutItem a \<Rightarrow> (case reqs s a of None \<Rightarrow> None | Some r \<Rightarrow> r_cgi_out_item r)
      | CgiInItem a \<Rightarrow> (case reqs s a of None \<Rightarrow> None | Some r \<Rightarrow> r_cgi_in_item r))"

definition drop_conn :: "addr \<Rightarrow> 'z timer_mem_scheme \<Rightarrow> 'z timer_mem_scheme outcome" where
  "drop_conn a s = andthen (zv_del_timer a s) (\<lambda>s. ends (zv_http_close_conn a s))"

definition conn_event :: "env \<Rightarrow> addr \<Rightarrow> ep_flags \<Rightarrow> 'z timer_mem_scheme \<Rightarrow> 'z timer_mem_scheme outcome" where
  "conn_event e a fl s =
     (if EPOLLERR fl then drop_conn a s
      else if ready_in fl then (if a = NULL then Ok s else do_request e a s)
      else if ready_out fl then (if a = NULL then Ok s else do_write a s)
      else if EPOLLHUP fl then drop_conn a s
      else Ok s)"

definition dispatch :: "env \<Rightarrow> zv_conf \<Rightarrow> int \<Rightarrow> ep_data option \<times> ep_flags \<Rightarrow> worker_mem \<Rightarrow> worker_mem outcome" where
  "dispatch e cf epfd = (\<lambda>(d, fl) s.
     case d of
       None \<Rightarrow> Ok s
     | Some d \<Rightarrow>
         (case item_of d s of
            None \<Rightarrow> Crash
          | Some it \<Rightarrow>
              (case it_kind it of
                 ZV_EP_KIND_LISTEN \<Rightarrow> accept_loop cf epfd (w_accepts s) s
               | ZV_EP_KIND_CGI_OUT \<Rightarrow> if it_r it = NULL then Ok s else zv_cgi_on_stdout_ready (it_r it) s
               | ZV_EP_KIND_CGI_IN \<Rightarrow> Ok s
               | ZV_EP_KIND_CONN \<Rightarrow> conn_event e (it_r it) fl s)))"

fun dispatch_all :: "env \<Rightarrow> zv_conf \<Rightarrow> int \<Rightarrow> (ep_data option \<times> ep_flags) list \<Rightarrow> worker_mem \<Rightarrow> worker_mem outcome" where
  "dispatch_all e cf epfd [] s = Ok s"
| "dispatch_all e cf epfd (ev # evs) s = andthen (dispatch e cf epfd ev s) (dispatch_all e cf epfd evs)"

section \<open>The loop\<close>

text \<open>One round: \<open>res\<close> is what \<^verbatim>\<open>epoll_wait\<close> returns, an error number or the descriptors that are ready.\<close>

definition worker_round :: "env \<Rightarrow> zv_conf \<Rightarrow> int \<Rightarrow> int + (int \<times> ep_flags) list \<Rightarrow> worker_mem \<Rightarrow> worker_mem outcome" where
  "worker_round e cf epfd res s =
     andthen (zv_find_timer s) (\<lambda>(time, s).
       case (case res of Inl err \<Rightarrow> ([], io s) | Inr rs \<Rightarrow> epoll_collect (take MAXEVENTS rs) (io s)) of
         (evs, k) \<Rightarrow>
           let n = zv_epoll_wait (case res of Inl err \<Rightarrow> Inl err | Inr _ \<Rightarrow> Inr (length evs))
           in andthen (dispatch_all e cf epfd (take (nat n) evs) (s\<lparr>io := k\<rparr>)) (\<lambda>s.
                andthen (zv_handle_expire_timers s) (\<lambda>s.
                  ends (zv_http_request_deferred_flush s))))"

text \<open>The loop runs until the stop flag is set, that is, over the rounds that come before.\<close>

fun worker_loop :: "env \<Rightarrow> zv_conf \<Rightarrow> int \<Rightarrow> (int + (int \<times> ep_flags) list) list \<Rightarrow> worker_mem \<Rightarrow> worker_mem outcome" where
  "worker_loop e cf epfd [] s = Ok s"
| "worker_loop e cf epfd (res # rest) s = andthen (worker_round e cf epfd res s) (worker_loop e cf epfd rest)"

section \<open>Start and end\<close>

definition ignore_sigpipe :: "master \<Rightarrow> int \<times> master" where
  "ignore_sigpipe m = (case sys_sigaction ''SIGPIPE'' m of (ok, m) \<Rightarrow> (if ok then 0 else -1, m))"

text \<open>The descriptor of the epoll instance; the array for the events is allocated with it, and a failure is only logged.\<close>

definition zv_epoll_create :: "'z req_mem_scheme \<Rightarrow> int \<times> 'z req_mem_scheme" where
  "zv_epoll_create s = (case new_fd (io s) of (fd, k) \<Rightarrow> (fd, snd (alloc_answer (s\<lparr>io := k\<rparr>))))"

text \<open>The request object of the listening socket and its registration, which is not one-shot.\<close>

definition listen_request :: "zv_conf \<Rightarrow> int \<Rightarrow> int \<Rightarrow> worker_mem \<Rightarrow> (addr \<times> worker_mem) outcome" where
  "listen_request cf listenfd epfd s =
     (case zv_http_request_get listenfd epfd cf s of (a, s) \<Rightarrow>
        if a = NULL \<or> r_conn_item (req a s) = None then Crash
        else
          let s = set_req a ((req a s)\<lparr>r_conn_item := Some \<lparr>it_kind = ZV_EP_KIND_LISTEN, it_fd = listenfd, it_r = a\<rparr>\<rparr>) s;
              reg = \<lparr>reg_events = EPOLLIN, reg_oneshot = False, reg_armed = True, reg_data = Some (ConnItem a)\<rparr>
          in Ok (a, zv_timer_init (s\<lparr>io := zv_epoll_add listenfd reg (io s)\<rparr>)))"

definition worker_cleanup :: "addr \<Rightarrow> int \<Rightarrow> int \<Rightarrow> worker_mem \<Rightarrow> worker_mem" where
  "worker_cleanup request listenfd epfd s =
     (let s = zv_http_request_put request s in s\<lparr>io := sys_close epfd (sys_close listenfd (io s))\<rparr>)"

definition zv_worker_run ::
  "env \<Rightarrow> zv_conf \<Rightarrow> int \<Rightarrow> (int + (int \<times> ep_flags) list) list \<Rightarrow> master \<Rightarrow> worker_mem \<Rightarrow> (int \<times> worker_mem) outcome" where
  "zv_worker_run e cf worker_id rounds m s =
     (case ignore_sigpipe m of (rc, m) \<Rightarrow>
        if rc \<noteq> 0 then Ok (1, s)
        else case zv_install_worker_signals m of (rc, m) \<Rightarrow>
          if rc \<noteq> 0 then Ok (1, s)
          else
            let s = s\<lparr>w_cpu := maybe_set_cpu_affinity (Some cf) (w_available s) (w_bindable s) worker_id\<rparr>
            in case open_listenfd_reuseport (cf_port cf) (w_net s, io s) of (listenfd, n, k) \<Rightarrow>
            if listenfd < 0 then Ok (1, s\<lparr>w_net := n, io := k\<rparr>)
            else
              let s = s\<lparr>w_net := n, io := snd (make_socket_non_blocking listenfd k)\<rparr>
              in case zv_epoll_create s of (epfd, s) \<Rightarrow>
                   andthen (listen_request cf listenfd epfd s) (\<lambda>(request, s).
                     andthen (worker_loop e cf epfd rounds s) (\<lambda>s.
                       Ok (0, worker_cleanup request listenfd epfd s))))"

section \<open>Properties of the processor choice\<close>

lemma pick_cpu_nth: "pick_cpu av cpus (int n) = (if n < length (filter av cpus) then int (filter av cpus ! n) else -1)"
proof (induction cpus arbitrary: n)
  case (Cons c cs)
  show ?case
  proof (cases "av c \<and> n \<noteq> 0")
    case True
    then obtain m where "n = Suc m" using not0_implies_Suc by blast
    then show ?thesis using True Cons.IH [of m] by simp
  qed (use Cons.IH [of n] in auto)
qed simp

lemma affinity_nth:
  assumes "cf_cpu_affinity cf \<noteq> 0" and "0 < length (filter av [0..<CPU_SETSIZE])"
  shows "maybe_set_cpu_affinity (Some cf) (Some av) True (int i) = Some (int (filter av [0..<CPU_SETSIZE] ! (i mod length (filter av [0..<CPU_SETSIZE]))))"
proof -
  let ?n = "length (filter av [0..<CPU_SETSIZE])"
  have "int i mod int ?n = int (i mod ?n)" by (simp add: zmod_int)
  then show ?thesis using assms pick_cpu_nth [of av "[0..<CPU_SETSIZE]" "i mod ?n"] by (simp add: maybe_set_cpu_affinity_def Let_def)
qed

text \<open>
  C37. Processor affinity spreads the workers. If it is enabled and some processor is available, every worker is bound to an available processor, and two workers share one only if
  their numbers agree modulo the number of available processors.
\<close>

theorem affinity_spreads:
  assumes "cf_cpu_affinity cf \<noteq> 0" and "\<exists>c < CPU_SETSIZE. av c"
  shows "\<exists>c d. maybe_set_cpu_affinity (Some cf) (Some av) True (int i) = Some (int c) \<and> c < CPU_SETSIZE \<and> av c \<and>
    maybe_set_cpu_affinity (Some cf) (Some av) True (int j) = Some (int d) \<and>
    (c = d \<longleftrightarrow> i mod length (filter av [0..<CPU_SETSIZE]) = j mod length (filter av [0..<CPU_SETSIZE]))"
proof -
  let ?l = "filter av [0..<CPU_SETSIZE]"
  obtain c where "c < CPU_SETSIZE" "av c" using assms(2) by blast
  then have "c \<in> set ?l" by simp
  then have pos: "0 < length ?l" by (cases ?l) simp_all
  then have m: "i mod length ?l < length ?l" "j mod length ?l < length ?l" by simp_all
  have "?l ! (i mod length ?l) \<in> set ?l" using m(1) by (rule nth_mem)
  moreover have "?l ! (i mod length ?l) = ?l ! (j mod length ?l) \<longleftrightarrow> i mod length ?l = j mod length ?l"
    by (rule nth_eq_iff_index_eq [OF _ m]) simp
  ultimately show ?thesis using affinity_nth [OF assms(1) pos] by auto
qed

theorem affinity_spreads_witness:
  "\<exists>c. maybe_set_cpu_affinity (Some (default_conf\<lparr>cf_cpu_affinity := 1\<rparr>)) (Some (\<lambda>c. c = 2 \<or> c = 5)) True (int 1) = Some (int c) \<and> (c = 2 \<or> c = 5)"
proof -
  have "\<exists>c < CPU_SETSIZE. c = 2 \<or> c = 5" by (intro exI [of _ 2]) (simp add: CPU_SETSIZE_def)
  from affinity_spreads [OF _ this, of "default_conf\<lparr>cf_cpu_affinity := 1\<rparr>" 1 1] show ?thesis by auto
qed

end
