(* ===== verification/Spec2Isabelle.thy ===== *)
theory Spec2Isabelle
  imports Zv_List Zv_Priority_Queue Zv_Header_Cache Zv_Request Zv_Parse Zv_Parse_Line Zv_Parse_Headers Zv_Path Zv_Output
    Zv_Request_Cache Zv_Headers Zv_Timer Zv_Cgi Zv_Cgi_Stream Zv_Server Zv_Handler
    Zv_Conf Zv_Rio Zv_Threadpool Zv_Master Zv_Worker
begin

text \<open>
  A verification development for Zaver, an event-driven HTTP server in C (\<^verbatim>\<open>src/src\<close>).
\<close>

end
